(* ===== verification/Prelude.thy ===== *)
theory Prelude
  imports Main "HOL-Library.Word" "HOL-Library.Monad_Syntax"
begin

text \<open>
  What the whole development shares: names for the C integer types, the result
  convention, the reference counts of include/refcnt.h, the error codes of errno, the
  environment (allocation and the functions of the nonlibc library, which are not part of
  the repository and are therefore parameters of the model), and a few generic lemmas.

  Convention. A C function that touches memory becomes a function into an \<open>option\<close>:
  \<open>None\<close> means that the C code reaches undefined behaviour on this path (it follows a
  NULL or dangling pointer, or reads or writes outside of an allocated area), and
  \<open>Some\<close> carries its result and the new state. An error that the code reports is never
  \<open>None\<close>: it is the returned NULL pointer (\<open>None\<close> inside the \<open>Some\<close>) or the
  returned error count.
\<close>

unbundle bit_operations_syntax

subsection \<open>Integer types and pointers\<close>

type_synonym u8 = "8 word"
type_synonym u16 = "16 word"
type_synonym u32 = "32 word"
type_synonym u64 = "64 word"
type_synonym byte = u8

text \<open>The address of an allocated object; a pointer is an \<open>addr option\<close>, NULL is \<open>None\<close>.\<close>

type_synonym addr = nat
type_synonym ptr = "addr option"

subsection \<open>Collections of facts\<close>

named_theorems frame \<open>which parts of the state an operation leaves alone\<close>
named_theorems judy \<open>the laws of the ordered maps\<close>
named_theorems scan \<open>evaluation of the character and number scanners\<close>

subsection \<open>errno and error counts\<close>

datatype errno = E_OK | E2BIG | EINVAL | ENOMEM | ERANGE

text \<open>
  The macros \<open>NB_err\<close>, \<open>NB_err_if\<close>, \<open>NB_die\<close> and \<open>NB_die_if\<close> of nonlibc add one
  to the variable \<open>err_cnt\<close> of the function they stand in, and the two \<open>die\<close> forms then
  jump to the label \<open>die\<close>; \<open>NB_wrn\<close>, \<open>NB_inf\<close> and \<open>NB_prn\<close> only print.
  Error counts are natural numbers here.
\<close>

subsection \<open>Reference counts (include/refcnt.h)\<close>

definition refcnt_take :: "u32 \<Rightarrow> u32" where
  "refcnt_take r = r + 1"

text \<open>Releasing a count that is already 0 is an error, and leaves it at 0.\<close>

definition refcnt_release :: "u32 \<Rightarrow> u32" where
  "refcnt_release r = (if r = 0 then r else r - 1)"

lemma unat_refcnt_take:
  assumes "unat r + 1 < 2 ^ 32"
  shows "unat (refcnt_take r) = unat r + 1"
  using assms by (simp add: refcnt_take_def unat_word_ariths)

lemma unat_refcnt_release: "unat (refcnt_release r) = unat r - 1"
  by (auto simp: refcnt_release_def unat_minus_one)

lemma refcnt_release_take: "refcnt_take r \<noteq> 0 \<Longrightarrow> refcnt_release (refcnt_take r) = r"
  by (simp add: refcnt_release_def refcnt_take_def)

subsection \<open>The environment\<close>

text \<open>
  \<^item> \<open>calloc_ok n\<close>: whether the \<open>n\<close>-th request for memory is granted;
  \<^item> \<open>nstralloc s max\<close>: nonlibc's string duplication, with its result (NULL on failure)
    and the errno it leaves;
  \<^item> \<open>hx2b_BE s n\<close>: nonlibc's hex parser: how many bytes it parsed and the \<open>n\<close> bytes
    it wrote;
  \<^item> \<open>b2hx_BE bs\<close>: nonlibc's hex printer;
  \<^item> \<open>fnv_hash64 seed bs\<close>: nonlibc's hash.
\<close>

record env =
  calloc_ok :: "nat \<Rightarrow> bool"
  nstralloc :: "string \<Rightarrow> nat \<Rightarrow> string option \<times> errno"
  hx2b_BE :: "string \<Rightarrow> nat \<Rightarrow> nat \<times> byte list"
  b2hx_BE :: "byte list \<Rightarrow> string"
  fnv_hash64 :: "u64 \<Rightarrow> byte list \<Rightarrow> u64"

text \<open>
  What the code relies on of \<open>nstralloc\<close>: it fails with NULL, or else a string that fits with
  its terminator is copied whole, one that does not fit is reported with E2BIG, and
  without E2BIG the copy is the whole string.
\<close>

definition nstralloc_spec :: "env \<Rightarrow> bool" where
  "nstralloc_spec E \<longleftrightarrow>
     (\<forall>s m. case fst (nstralloc E s m) of
        None \<Rightarrow> True
      | Some t \<Rightarrow> (length s < m \<longrightarrow> nstralloc E s m = (Some s, E_OK)) \<and>
          (m < length s \<longrightarrow> snd (nstralloc E s m) = E2BIG) \<and> (snd (nstralloc E s m) = E2BIG \<or> t = s))"

text \<open>
  That there was memory for the copy. Without it the callers leave the defined: they release the
  object whose name is NULL (\<open>field_new\<close>, \<open>rule_new\<close>, \<open>iface_new\<close>, \<open>memref_state_get\<close>), or go on
  with a NULL text (\<open>memref_value_new\<close>). The lemmas that follow one string assume it of that
  string, the invariants of the whole program of every string.
\<close>

definition copied :: "env \<Rightarrow> string \<Rightarrow> nat \<Rightarrow> bool" where
  "copied E s m \<longleftrightarrow> fst (nstralloc E s m) \<noteq> None"

definition nstralloc_ok :: "env \<Rightarrow> bool" where
  "nstralloc_ok E \<longleftrightarrow> nstralloc_spec E \<and> (\<forall>s m. copied E s m)"

lemma copied_cases:
  assumes "nstralloc_spec E" and "copied E s m"
  obtains (copied) e where "nstralloc E s m = (Some s, e)" "e \<noteq> E2BIG" "length s \<le> m"
    | (truncated) t where "nstralloc E s m = (Some t, E2BIG)" "m \<le> length s"
proof -
  obtain t e where n: "nstralloc E s m = (Some t, e)" using assms(2) unfolding copied_def by (metis option.exhaust prod.collapse)
  have "case fst (nstralloc E s m) of None \<Rightarrow> True
    | Some t \<Rightarrow> (length s < m \<longrightarrow> nstralloc E s m = (Some s, E_OK)) \<and>
        (m < length s \<longrightarrow> snd (nstralloc E s m) = E2BIG) \<and> (snd (nstralloc E s m) = E2BIG \<or> t = s)"
    using assms(1) unfolding nstralloc_spec_def by blast
  then have c: "length s < m \<longrightarrow> nstralloc E s m = (Some s, E_OK)" "m < length s \<longrightarrow> e = E2BIG" "e = E2BIG \<or> t = s"
    by (simp_all add: n)
  show ?thesis
  proof (cases "e = E2BIG")
    case True
    with c(1) n have "m \<le> length s" by (cases "length s < m") simp_all
    with True n show ?thesis by (intro truncated[of t]) simp_all
  next
    case False
    with c n show ?thesis by (intro copied[of e]) (auto simp: not_less[symmetric])
  qed
qed

lemma nstralloc_cases:
  assumes "nstralloc_ok E"
  obtains (copied) e where "nstralloc E s m = (Some s, e)" "e \<noteq> E2BIG" "length s \<le> m"
    | (truncated) t where "nstralloc E s m = (Some t, E2BIG)" "m \<le> length s"
  using copied_cases[of E s m] assms unfolding nstralloc_ok_def by blast

lemma copied_fits:
  "nstralloc_spec E \<Longrightarrow> copied E s m \<Longrightarrow> length s < m \<Longrightarrow> nstralloc E s m = (Some s, E_OK)"
  by (auto simp: nstralloc_spec_def copied_def dest!: spec[of _ s] spec[of _ m])

lemma nstralloc_fits: "nstralloc_ok E \<Longrightarrow> length s < m \<Longrightarrow> nstralloc E s m = (Some s, E_OK)"
  by (simp add: nstralloc_ok_def copied_fits)

text \<open>A concrete environment, for the examples and witnesses.\<close>

definition nstralloc_ref :: "string \<Rightarrow> nat \<Rightarrow> string option \<times> errno" where
  "nstralloc_ref s m = (if length s < m then (Some s, E_OK) else (Some (take (m - 1) s), E2BIG))"

definition hexdigit :: "nat \<Rightarrow> char" where
  "hexdigit n = (if n < 10 then char_of (48 + n) else char_of (87 + n))"

definition digit_value :: "char \<Rightarrow> nat option" where
  "digit_value c =
     (let n = (of_char c :: nat)
      in if 48 \<le> n \<and> n \<le> 57 then Some (n - 48)
         else if 97 \<le> n \<and> n \<le> 102 then Some (n - 87)
         else if 65 \<le> n \<and> n \<le> 70 then Some (n - 55)
         else None)"

definition hx2b_ref :: "string \<Rightarrow> nat \<Rightarrow> nat \<times> byte list" where
  "hx2b_ref s n =
     (let ds = List.map_filter digit_value (drop 2 s);
          v = foldl (\<lambda>v d. 16 * v + int d) 0 ds
      in (length ds, map (\<lambda>i. word_of_int (v div 256 ^ (n - 1 - i))) [0..<n]))"

definition b2hx_ref :: "byte list \<Rightarrow> string" where
  "b2hx_ref bs = concat (map (\<lambda>b. [hexdigit (unat b div 16), hexdigit (unat b mod 16)]) bs)"

definition env0 :: env where
  "env0 = \<lparr>calloc_ok = (\<lambda>n. n < 2 ^ 30), nstralloc = nstralloc_ref,
     hx2b_BE = hx2b_ref, b2hx_BE = b2hx_ref,
     fnv_hash64 = (\<lambda>h bs. foldl (\<lambda>h b. (h XOR ucast b) * 0x100000001b3) h bs)\<rparr>"

lemma env0_sel [simp]:
  "calloc_ok env0 n \<longleftrightarrow> n < 2 ^ 30" "nstralloc env0 = nstralloc_ref" "hx2b_BE env0 = hx2b_ref"
  "b2hx_BE env0 = b2hx_ref"
  by (simp_all add: env0_def)

lemma nstralloc_env0 [simp]: "nstralloc_spec env0" "copied env0 s m" "nstralloc_ok env0"
  by (auto simp: nstralloc_ok_def nstralloc_spec_def copied_def env0_def nstralloc_ref_def)

text \<open>
  The environment with memory for every string. A function that copies only strings which are
  granted anyway does the same in it.
\<close>

definition granting :: "env \<Rightarrow> env" where
  "granting E = E\<lparr>nstralloc := (\<lambda>s m. if copied E s m then nstralloc E s m else nstralloc_ref s m)\<rparr>"

lemma granting_sel [simp]:
  "calloc_ok (granting E) = calloc_ok E" "hx2b_BE (granting E) = hx2b_BE E" "b2hx_BE (granting E) = b2hx_BE E"
  "copied E s m \<Longrightarrow> nstralloc (granting E) s m = nstralloc E s m"
  by (simp_all add: granting_def)

lemma nstralloc_ok_granting: "nstralloc_spec E \<Longrightarrow> nstralloc_ok (granting E)"
  by (auto simp: nstralloc_ok_def nstralloc_spec_def copied_def granting_def nstralloc_ref_def split: option.splits)

text \<open>
  Requests for memory are numbered, and a run is granted at most \<open>MAXALLOC\<close> of them. The
  32-bit reference counts rely on it: 2 ^ 31 references would need more memory.
\<close>

definition MAXALLOC :: nat where
  "MAXALLOC = 2 ^ 30"

definition calloc_bounded :: "env \<Rightarrow> bool" where
  "calloc_bounded E \<longleftrightarrow> (\<forall>n. calloc_ok E n \<longrightarrow> n < MAXALLOC)"

lemma calloc_bounded_env0 [simp]: "calloc_bounded env0"
  by (simp add: calloc_bounded_def MAXALLOC_def)

text \<open>Names are limited to 48 bytes, value strings to 65535 (include/xdpacket.h).\<close>

definition MAXLINELEN :: nat where
  "MAXLINELEN = 48"

definition MAXVALUELEN :: nat where
  "MAXVALUELEN = 2 ^ (2 * 8) - 1"

subsection \<open>Allocation\<close>

text \<open>
  Memory comes from \<open>calloc\<close> and \<open>malloc\<close>. Every request, granted or not, takes the
  next number, and that number is the address of the new object, so an address is never
  handed out twice.
\<close>

record heap_state =
  next_addr :: addr

definition calloc :: "env \<Rightarrow> 'a heap_state_scheme \<Rightarrow> ptr \<times> 'a heap_state_scheme" where
  "calloc E s =
     (if calloc_ok E (next_addr s) then Some (next_addr s) else None,
      s\<lparr>next_addr := next_addr s + 1\<rparr>)"

lemma calloc_cases:
  obtains "calloc E s = (Some (next_addr s), s\<lparr>next_addr := next_addr s + 1\<rparr>)"
  | "calloc E s = (None, s\<lparr>next_addr := next_addr s + 1\<rparr>)"
  by (cases "calloc_ok E (next_addr s)") (auto simp: calloc_def)

lemma calloc_granting [simp]: "calloc (granting E) = calloc E"
  by (simp add: calloc_def fun_eq_iff)

subsection \<open>Byte order\<close>

text \<open>
  The order of the bytes of an integer in memory depends on the machine, so it is a
  parameter wherever the code reads or writes an integer through a pointer to bytes.
\<close>

datatype endian = LE | BE

definition host16 :: "endian \<Rightarrow> u16 \<Rightarrow> byte list" where
  "host16 e w =
     (case e of LE \<Rightarrow> [ucast w, ucast (drop_bit 8 w)] | BE \<Rightarrow> [ucast (drop_bit 8 w), ucast w])"

definition load16 :: "endian \<Rightarrow> byte \<Rightarrow> byte \<Rightarrow> u16" where
  "load16 e b0 b1 =
     (case e of LE \<Rightarrow> ucast b0 OR push_bit 8 (ucast b1) | BE \<Rightarrow> push_bit 8 (ucast b0) OR ucast b1)"

definition host32 :: "endian \<Rightarrow> u32 \<Rightarrow> byte list" where
  "host32 e w =
     (let bs = [ucast w, ucast (drop_bit 8 w), ucast (drop_bit 16 w), ucast (drop_bit 24 w)]
      in case e of LE \<Rightarrow> bs | BE \<Rightarrow> rev bs)"

lemma length_host [simp]: "length (host16 e w) = 2" "length (host32 e v) = 4"
  by (simp_all add: host16_def host32_def Let_def split: endian.splits)

subsection \<open>Lists written in the middle\<close>

text \<open>\<open>write_at xs o ys\<close>: \<open>xs\<close> with the elements from offset \<open>o\<close> on replaced by \<open>ys\<close>.\<close>

definition write_at :: "'a list \<Rightarrow> nat \<Rightarrow> 'a list \<Rightarrow> 'a list" where
  "write_at xs i ys = take i xs @ ys @ drop (i + length ys) xs"

definition read_at :: "'a list \<Rightarrow> nat \<Rightarrow> nat \<Rightarrow> 'a list" where
  "read_at xs i n = take n (drop i xs)"

lemma length_write_at [simp]: "i + length ys \<le> length xs \<Longrightarrow> length (write_at xs i ys) = length xs"
  by (simp add: write_at_def)

lemma length_read_at [simp]: "i + n \<le> length xs \<Longrightarrow> length (read_at xs i n) = n"
  by (simp add: read_at_def)

lemma nth_read_at [simp]: "j < n \<Longrightarrow> i + n \<le> length xs \<Longrightarrow> read_at xs i n ! j = xs ! (i + j)"
  by (simp add: read_at_def)

lemma nth_write_at:
  assumes "i + length ys \<le> length xs" and "j < length xs"
  shows "write_at xs i ys ! j = (if i \<le> j \<and> j < i + length ys then ys ! (j - i) else xs ! j)"
proof -
  have "min (length xs) i = i" using assms by simp
  then show ?thesis using assms by (auto simp: write_at_def nth_append)
qed

lemma read_at_read_at: "i + n \<le> k \<Longrightarrow> read_at (read_at xs j k) i n = read_at xs (j + i) n"
  by (simp add: read_at_def drop_take min_absorb1 add.commute)

lemma read_write_same: "i + length ys \<le> length xs \<Longrightarrow> read_at (write_at xs i ys) i (length ys) = ys"
  by (simp add: read_at_def write_at_def)

lemma read_write_other:
  assumes "i + length ys \<le> length xs" and "k + n \<le> length xs"
    and "k + n \<le> i \<or> i + length ys \<le> k"
  shows "read_at (write_at xs i ys) k n = read_at xs k n"
  using assms by (intro nth_equalityI) (auto simp: nth_write_at)

lemma write_at_Nil [simp]: "write_at xs i [] = xs"
  by (simp add: write_at_def)

lemma write_at_append:
  "i + length u + length v \<le> length xs \<Longrightarrow> write_at (write_at xs i u) (i + length u) v = write_at xs i (u @ v)"
  by (simp add: write_at_def add.assoc add.commute add.left_commute)

lemma list_update_write_at: "i < length xs \<Longrightarrow> xs[i := y] = write_at xs i [y]"
  by (simp add: write_at_def upd_conv_take_nth_drop)

subsection \<open>Counting references\<close>

text \<open>
  How often the objects of a heap refer to an address, when \<open>uses ob p\<close> says how often one
  object refers to \<open>p\<close>. The invariants compare reference counts with this number.
\<close>

definition refs_to :: "('ob \<Rightarrow> addr \<Rightarrow> nat) \<Rightarrow> (addr \<rightharpoonup> 'ob) \<Rightarrow> addr \<Rightarrow> nat" where
  "refs_to uses h p = (\<Sum>q \<in> dom h. uses (the (h q)) p)"

lemma refs_to_empty [simp]: "refs_to uses Map.empty p = 0"
  by (simp add: refs_to_def)

lemma refs_to_fresh:
  assumes "finite (dom h)" and "h q = None"
  shows "refs_to uses (h(q \<mapsto> ob)) p = refs_to uses h p + uses ob p"
proof -
  have "(\<Sum>r \<in> dom h. uses (the ((h(q \<mapsto> ob)) r)) p) = (\<Sum>r \<in> dom h. uses (the (h r)) p)"
    using assms(2) by (intro sum.cong) auto
  moreover have "q \<notin> dom h" using assms(2) by auto
  ultimately show ?thesis using assms(1) by (simp add: refs_to_def)
qed

lemma refs_to_remove:
  assumes "finite (dom h)" and "h q = Some ob"
  shows "refs_to uses h p = refs_to uses (h(q := None)) p + uses ob p"
  using refs_to_fresh[of "h(q := None)" q uses ob p] assms by (simp add: map_upd_triv)

lemma refs_to_update:
  assumes "finite (dom h)" and "h q = Some ob"
  shows "refs_to uses (h(q \<mapsto> ob')) p + uses ob p = refs_to uses h p + uses ob' p"
  using refs_to_fresh[of "h(q := None)" q uses ob' p] refs_to_remove[OF assms, of uses p] assms by simp

lemma refs_to_le:
  assumes "\<And>ob. uses ob p \<le> k"
  shows "refs_to uses h p \<le> card (dom h) * k"
  unfolding refs_to_def using sum_bounded_above[of "dom h" "\<lambda>q. uses (the (h q)) p" k] assms by simp

lemma refs_to_posD:
  assumes "0 < refs_to uses h p"
  obtains q ob where "h q = Some ob" "0 < uses ob p"
proof -
  have "\<exists>q \<in> dom h. 0 < uses (the (h q)) p"
  proof (rule ccontr)
    assume "\<not> (\<exists>q \<in> dom h. 0 < uses (the (h q)) p)"
    then have "refs_to uses h p = 0" unfolding refs_to_def by (intro sum.neutral) simp
    with assms show False by simp
  qed
  then show ?thesis using that by fastforce
qed

lemma refs_to_pos:
  assumes "finite (dom h)" and "h q = Some ob" and "0 < uses ob p"
  shows "0 < refs_to uses h p"
  using refs_to_remove[OF assms(1,2), of uses p] assms(3) by simp

end
