(* ===== verification/Judy.thy ===== *)
theory Judy
  imports Prelude "HOL-Library.List_Lexorder" "HOL-Library.Char_ord"
begin

text \<open>
  include/judyutils.h: the wrappers around Judy arrays that hold every table of the
  program. A Judy array is an ordered map from an index (a string for JudySL, an unsigned
  word for JudyL) to one machine word, here the list of its slots in ascending order of
  the index. A slot that the library has just made holds NULL (\<open>None\<close>). The wrappers
  never leave such a slot behind, which \<open>judy_ok\<close> states.

  Two contracts are stated as locales and interpreted on the wrappers: \<open>symbol_table\<close>,
  with \<open>registry\<close> on top of it (a table that names the live objects of a heap), and
  \<open>fifo\<close> (the queues). \<open>JS_LOOP\<close> and \<open>JL_LOOP\<close> are \<open>js_loop\<close> and \<open>jl_loop\<close>.
\<close>

subsection \<open>The arrays and the library's primitives on them\<close>

type_synonym ('k, 'v) judy = "('k \<times> 'v option) list"
type_synonym 'v judySL = "(string, 'v) judy"
type_synonym 'v judyL = "(nat, 'v) judy"

text \<open>\<open>JLI\<close> and \<open>JSLI\<close>: make the slot of an index unless it is there.\<close>

fun judy_ins :: "('k::linorder, 'v) judy \<Rightarrow> 'k \<Rightarrow> ('k, 'v) judy" where
  "judy_ins [] k = [(k, None)]"
| "judy_ins ((k', v) # a) k =
     (if k < k' then (k, None) # (k', v) # a
      else if k = k' then (k', v) # a
      else (k', v) # judy_ins a k)"

text \<open>A store through the pointer to a slot.\<close>

fun judy_put :: "('k, 'v) judy \<Rightarrow> 'k \<Rightarrow> 'v option \<Rightarrow> ('k, 'v) judy" where
  "judy_put [] k v = []"
| "judy_put ((k', v') # a) k v = (if k = k' then (k', v) # a else (k', v') # judy_put a k v)"

text \<open>\<open>JLD\<close> and \<open>JSLD\<close>.\<close>

definition judy_del :: "('k, 'v) judy \<Rightarrow> 'k \<Rightarrow> ('k, 'v) judy" where
  "judy_del a k = filter (\<lambda>(k', _). k' \<noteq> k) a"

text \<open>\<open>JLF\<close> and \<open>JSLF\<close> (first index at or after \<open>k\<close>); \<open>JLN\<close> and \<open>JSLN\<close> (first index after it).\<close>

definition judy_first :: "('k::linorder, 'v) judy \<Rightarrow> 'k \<Rightarrow> ('k \<times> 'v option) option" where
  "judy_first a k = find (\<lambda>(k', _). k \<le> k') a"

definition judy_next :: "('k::linorder, 'v) judy \<Rightarrow> 'k \<Rightarrow> ('k \<times> 'v option) option" where
  "judy_next a k = find (\<lambda>(k', _). k < k') a"

text \<open>\<open>JLFE\<close>: the first index at or after \<open>i\<close> that has no slot.\<close>

fun judy_first_empty :: "'v judyL \<Rightarrow> nat \<Rightarrow> nat" where
  "judy_first_empty [] i = i"
| "judy_first_empty ((k, _) # a) i =
     (if k < i then judy_first_empty a i
      else if k = i then judy_first_empty a (i + 1)
      else i)"

subsection \<open>The wrappers\<close>

definition jl_count :: "'v judyL \<Rightarrow> nat" where
  "jl_count a = length a"

text \<open>
  The common part of the insertions: refuse a NULL datum, make the slot, and refuse to
  overwrite a non-NULL datum unless \<open>clobber\<close>. The result is 0 on success.
\<close>

definition jxx_insert ::
  "('k::linorder, 'v) judy \<Rightarrow> 'k \<Rightarrow> 'v option \<Rightarrow> bool \<Rightarrow> nat \<times> ('k, 'v) judy" where
  "jxx_insert a k datum clobber =
     (case datum of
        None \<Rightarrow> (1, a)
      | Some _ \<Rightarrow>
          (let a = judy_ins a k in
           case map_of a k of
             None \<Rightarrow> (1, a)
           | Some old \<Rightarrow>
               if \<not> clobber \<and> old \<noteq> None then (1, a) else (0, judy_put a k datum)))"

definition jl_insert :: "'v judyL \<Rightarrow> nat \<Rightarrow> 'v option \<Rightarrow> bool \<Rightarrow> nat \<times> 'v judyL" where
  "jl_insert = jxx_insert"

definition js_insert :: "'v judySL \<Rightarrow> string \<Rightarrow> 'v option \<Rightarrow> bool \<Rightarrow> nat \<times> 'v judySL" where
  "js_insert = jxx_insert"

definition jl_enqueue :: "'v judyL \<Rightarrow> 'v option \<Rightarrow> nat \<times> 'v judyL" where
  "jl_enqueue a datum = jl_insert a (judy_first_empty a 0) datum False"

definition jl_get :: "'v judyL \<Rightarrow> nat \<Rightarrow> 'v option" where
  "jl_get a k = (case map_of a k of Some v \<Rightarrow> v | None \<Rightarrow> None)"

definition js_get :: "'v judySL \<Rightarrow> string \<Rightarrow> 'v option" where
  "js_get a k = (case map_of a k of Some v \<Rightarrow> v | None \<Rightarrow> None)"

definition j_delete :: "'v judyL \<Rightarrow> nat \<Rightarrow> 'v judyL" where
  "j_delete = judy_del"

definition js_delete :: "'v judySL \<Rightarrow> string \<Rightarrow> 'v judySL" where
  "js_delete = judy_del"

text \<open>
  \<open>JL_LOOP\<close> runs a statement on every datum in ascending order. No statement of the
  program changes the array it runs over, so this is a loop over the slots.
\<close>

fun jl_loop :: "('v option \<Rightarrow> 's \<Rightarrow> 's option) \<Rightarrow> ('k, 'v) judy \<Rightarrow> 's \<Rightarrow> 's option" where
  "jl_loop body [] s = Some s"
| "jl_loop body ((_, v) # a) s = do { s \<leftarrow> body v s; jl_loop body a s }"

text \<open>
  \<open>JS_LOOP\<close> looks the next index up in the array as the statement has left it: the
  statements that free objects delete the current index.
\<close>

partial_function (option) js_loop_from ::
  "('s \<Rightarrow> 'v judySL) \<Rightarrow> ('v option \<Rightarrow> 's \<Rightarrow> 's option) \<Rightarrow> (string \<times> 'v option) option \<Rightarrow> 's \<Rightarrow> 's option"
where
  "js_loop_from arr body cur s =
     (case cur of
        None \<Rightarrow> Some s
      | Some kv \<Rightarrow>
          Option.bind (body (snd kv) s)
            (\<lambda>s. js_loop_from arr body (judy_next (arr s) (fst kv)) s))"

definition js_loop ::
  "('s \<Rightarrow> 'v judySL) \<Rightarrow> ('v option \<Rightarrow> 's \<Rightarrow> 's option) \<Rightarrow> 's \<Rightarrow> 's option" where
  "js_loop arr body s = js_loop_from arr body (judy_first (arr s) '''') s"

subsection \<open>Well-formed arrays\<close>

definition judy_ok :: "('k::linorder, 'v) judy \<Rightarrow> bool" where
  "judy_ok a \<longleftrightarrow> sorted_wrt (<) (map fst a) \<and> None \<notin> snd ` set a"

lemma judy_ok_Nil [simp, judy]: "judy_ok []"
  by (simp add: judy_ok_def)

lemma keys_judy_ins: "fst ` set (judy_ins a k) = insert k (fst ` set a)"
  by (induction a k rule: judy_ins.induct) auto

lemma keys_judy_put [simp]: "map fst (judy_put a k v) = map fst a"
  by (induction a k v rule: judy_put.induct) auto

lemma sorted_judy_ins:
  "sorted_wrt (<) (map fst a) \<Longrightarrow> sorted_wrt (<) (map fst (judy_ins a k))"
proof (induction a k rule: judy_ins.induct)
  case (2 k' v a k)
  have "x \<in> fst ` set (judy_ins a k) \<Longrightarrow> x = k \<or> x \<in> fst ` set a" for x
    by (simp add: keys_judy_ins)
  with 2 show ?case by (fastforce simp: not_less_iff_gr_or_eq)
qed simp

lemma map_of_judy_ins:
  "map_of (judy_ins a k) = (if map_of a k = None then (map_of a)(k \<mapsto> None) else map_of a)"
  if "sorted_wrt (<) (map fst a)"
  using that
proof (induction a k rule: judy_ins.induct)
  case (2 k' v a k)
  have "k < k' \<Longrightarrow> map_of a k = None"
    using 2(2) by (fastforce simp: map_of_eq_None_iff)
  with 2 show ?case by (auto simp: fun_eq_iff)
qed auto

lemma map_of_judy_put: "map_of (judy_put a k v) = (if map_of a k = None then map_of a else (map_of a)(k \<mapsto> v))"
  by (induction a k v rule: judy_put.induct) (auto simp: fun_eq_iff)

lemma map_of_judy_del: "map_of (judy_del a k) = (map_of a)(k := None)"
  by (induction a) (auto simp: judy_del_def fun_eq_iff)

lemma None_in_slots:
  "sorted_wrt (<) (map fst a) \<Longrightarrow> None \<notin> snd ` set a \<longleftrightarrow> (\<forall>k. map_of a k \<noteq> Some None)"
  for a :: "('k::linorder, 'v) judy"
  by (force simp: strict_sorted_iff dest: map_of_SomeD)

lemma judy_ok_del: "judy_ok a \<Longrightarrow> judy_ok (judy_del a k)"
  unfolding judy_ok_def judy_del_def
  by (induction a) (auto simp: case_prod_beta)

lemma judy_ins_present:
  assumes "sorted_wrt (<) (map fst a)" and "map_of a k \<noteq> None"
  shows "judy_ins a k = a"
  using assms
proof (induction a k rule: judy_ins.induct)
  case (2 k' v a k)
  have "map_of a k \<noteq> None \<Longrightarrow> k' < k"
    using 2(2) by (force dest: map_of_SomeD)
  with 2 show ?case by (auto split: if_splits)
qed simp

text \<open>The effect of an insertion, in every case.\<close>

lemma jxx_insert_get:
  assumes "judy_ok a"
  shows "jxx_insert a k None c = (1, a)"
    and "map_of a k = None \<Longrightarrow> \<exists>a'. jxx_insert a k (Some v) c = (0, a') \<and> judy_ok a' \<and>
           map_of a' = (map_of a)(k \<mapsto> Some v)"
    and "map_of a k \<noteq> None \<Longrightarrow> \<exists>a'. jxx_insert a k (Some v) True = (0, a') \<and> judy_ok a' \<and>
           map_of a' = (map_of a)(k \<mapsto> Some v)"
    and "map_of a k \<noteq> None \<Longrightarrow> jxx_insert a k (Some v) False = (1, a)"
proof -
  have so: "sorted_wrt (<) (map fst a)" and nn: "\<forall>k. map_of a k \<noteq> Some None"
    using assms None_in_slots[of a] by (auto simp: judy_ok_def)
  show "jxx_insert a k None c = (1, a)" by (simp add: jxx_insert_def)
  have ok: "judy_ok (judy_put (judy_ins a k) k (Some v))"
    using sorted_judy_ins[OF so, of k] None_in_slots[of "judy_put (judy_ins a k) k (Some v)"] nn
    by (auto simp: judy_ok_def map_of_judy_put map_of_judy_ins[OF so] split: if_splits)
  have get: "map_of (judy_put (judy_ins a k) k (Some v)) = (map_of a)(k \<mapsto> Some v)"
    by (auto simp: map_of_judy_put map_of_judy_ins[OF so] fun_eq_iff)
  show "\<exists>a'. jxx_insert a k (Some v) c = (0, a') \<and> judy_ok a' \<and>
      map_of a' = (map_of a)(k \<mapsto> Some v)" if "map_of a k = None"
    using that ok get by (simp add: jxx_insert_def map_of_judy_ins[OF so])
  show "\<exists>a'. jxx_insert a k (Some v) True = (0, a') \<and> judy_ok a' \<and>
      map_of a' = (map_of a)(k \<mapsto> Some v)" if "map_of a k \<noteq> None"
    using that ok get by (auto simp: jxx_insert_def map_of_judy_ins[OF so] split: option.splits)
  show "jxx_insert a k (Some v) False = (1, a)" if pres: "map_of a k \<noteq> None"
  proof -
    obtain u where u: "map_of a k = Some u" using pres by blast
    moreover have "u \<noteq> None" using nn u by (cases u) auto
    ultimately obtain w where "map_of a k = Some (Some w)" by blast
    then show ?thesis using judy_ins_present[OF so pres] by (simp add: jxx_insert_def)
  qed
qed

lemma map_of_js_get: "judy_ok a \<Longrightarrow> map_of a k = map_option Some (js_get a k)"
proof -
  assume "judy_ok a"
  then have "map_of a k \<noteq> Some None"
    using None_in_slots[of a] by (simp add: judy_ok_def)
  then show ?thesis by (cases "map_of a k") (auto simp: js_get_def)
qed

subsection \<open>Symbol tables\<close>

text \<open>The contract of a table of names.\<close>

locale symbol_table =
  fixes get :: "'m \<Rightarrow> 'k \<Rightarrow> 'v option"
    and ins :: "'m \<Rightarrow> 'k \<Rightarrow> 'v option \<Rightarrow> bool \<Rightarrow> nat \<times> 'm"
    and del :: "'m \<Rightarrow> 'k \<Rightarrow> 'm"
    and ok :: "'m \<Rightarrow> bool"
  assumes ins_null: "ok m \<Longrightarrow> ins m k None c = (1, m)"
    and ins_new: "ok m \<Longrightarrow> c \<or> get m k = None \<Longrightarrow>
      \<exists>m'. ins m k (Some v) c = (0, m') \<and> ok m' \<and> get m' = (get m)(k \<mapsto> v)"
    and ins_dup: "ok m \<Longrightarrow> get m k \<noteq> None \<Longrightarrow> ins m k (Some v) False = (1, m)"
    and del_get: "ok m \<Longrightarrow> get (del m k) = (get m)(k := None)"
    and del_ok: "ok m \<Longrightarrow> ok (del m k)"
begin

lemma ins_cases:
  assumes "ok m"
  obtains (new) m' where "c \<or> get m k = None" "ins m k (Some v) c = (0, m')" "ok m'"
      "get m' = (get m)(k \<mapsto> v)"
    | (dup) "\<not> c" "get m k \<noteq> None" "ins m k (Some v) c = (1, m)"
  using assms ins_new[of m c k v] ins_dup[of m k v] by (cases "c \<or> get m k = None") auto

lemma ins_fst_0: "ok m \<Longrightarrow> fst (ins m k (Some v) c) = 0 \<longleftrightarrow> c \<or> get m k = None"
  by (rule ins_cases[of m c k v]) auto

lemma ins_ok: "ok m \<Longrightarrow> ok (snd (ins m k v c))"
  using ins_new[of m c k "the v"] ins_dup[of m k "the v"]
  by (cases v; cases "c \<or> get m k = None") (auto simp: ins_null)

lemma ins_get: "ok m \<Longrightarrow> c \<or> get m k = None \<Longrightarrow>
    get (snd (ins m k (Some v) c)) = (get m)(k \<mapsto> v)"
  using ins_new[of m c k v] by auto

text \<open>What was inserted can be looked up, and deleting it gives the table back.\<close>

lemma ins_then_get: "ok m \<Longrightarrow> c \<or> get m k = None \<Longrightarrow> get (snd (ins m k (Some v) c)) k = Some v"
  by (simp add: ins_get)

lemma ins_then_del: "ok m \<Longrightarrow> get m k = None \<Longrightarrow> get (del (snd (ins m k (Some v) c)) k) = get m"
  by (auto simp: del_get ins_ok ins_get)

end

interpretation js: symbol_table js_get js_insert js_delete judy_ok
proof unfold_locales
  fix m :: "'v judySL" and k c
  assume ok: "judy_ok m"
  show "js_insert m k None c = (1, m)"
    by (simp add: js_insert_def jxx_insert_get[OF ok])
next
  fix m :: "'v judySL" and k c v
  assume ok: "judy_ok m" and free: "c \<or> js_get m k = None"
  then have "\<exists>m'. js_insert m k (Some v) c = (0, m') \<and> judy_ok m' \<and> map_of m' = (map_of m)(k \<mapsto> Some v)"
    using jxx_insert_get(2)[OF ok, of k v c] jxx_insert_get(3)[OF ok, of k v] map_of_js_get[OF ok, of k]
    unfolding js_insert_def by (cases "js_get m k") auto
  then show "\<exists>m'. js_insert m k (Some v) c = (0, m') \<and> judy_ok m' \<and> js_get m' = (js_get m)(k \<mapsto> v)"
    by (auto simp: js_get_def fun_eq_iff)
next
  fix m :: "'v judySL" and k v
  assume "judy_ok m" and "js_get m k \<noteq> None"
  then show "js_insert m k (Some v) False = (1, m)"
    by (simp add: js_insert_def jxx_insert_get map_of_js_get)
next
  fix m :: "'v judySL" and k
  show "js_get (js_delete m k) = (js_get m)(k := None)"
    by (simp add: js_get_def js_delete_def map_of_judy_del fun_eq_iff)
qed (simp add: js_delete_def judy_ok_del)

text \<open>
  A registry: a table that gives the address of the live object of each name. \<open>named\<close>
  says that every entry leads to an object which carries that name.
\<close>

locale registry = symbol_table get ins del ok
  for get :: "'m \<Rightarrow> string \<Rightarrow> addr option"
    and ins :: "'m \<Rightarrow> string \<Rightarrow> addr option \<Rightarrow> bool \<Rightarrow> nat \<times> 'm"
    and del :: "'m \<Rightarrow> string \<Rightarrow> 'm"
    and ok :: "'m \<Rightarrow> bool" +
  fixes nm_of :: "'ob \<Rightarrow> string option"
    and named :: "'m \<Rightarrow> (addr \<rightharpoonup> 'ob) \<Rightarrow> bool"
  assumes named_iff: "named m h \<longleftrightarrow>
    ok m \<and> (\<forall>n p. get m n = Some p \<longrightarrow> (\<exists>ob. h p = Some ob \<and> nm_of ob = Some n))"
begin

lemma named_ok: "named m h \<Longrightarrow> ok m"
  by (simp add: named_iff)

lemma named_get:
  assumes "named m h" and "get m n = Some p"
  obtains ob where "h p = Some ob" "nm_of ob = Some n"
  using assms by (auto simp: named_iff)

text \<open>Adding a fresh object under its name.\<close>

lemma named_add:
  assumes "named m h" and "nm_of ob = Some n" and "h p = None" and "c \<or> get m n = None"
  shows "named (snd (ins m n (Some p) c)) (h(p \<mapsto> ob))"
proof -
  from assms(1,3) have "get m n' \<noteq> Some p" for n'
    by (fastforce simp: named_iff)
  with assms show ?thesis by (auto simp: named_iff ins_ok ins_get)
qed

text \<open>A fresh object that no entry leads to yet, and its removal.\<close>

lemma named_fresh: "named m h \<Longrightarrow> h p = None \<Longrightarrow> named m (h(p \<mapsto> ob))"
  by (fastforce simp: named_iff)

lemma get_fresh: "named m h \<Longrightarrow> h p = None \<Longrightarrow> get m n \<noteq> Some p"
  by (fastforce simp: named_iff)

text \<open>An update that keeps the name.\<close>

lemma named_update:
  "named m h \<Longrightarrow> h p = Some ob \<Longrightarrow> nm_of ob' = nm_of ob \<Longrightarrow> named m (h(p \<mapsto> ob'))"
  by (fastforce simp: named_iff)

text \<open>Freeing an object, with its entry if the entry is its own.\<close>

lemma named_unlink:
  assumes "named m h" and "h p = Some ob" and "nm_of ob = Some n"
  shows "named (if get m n = Some p then del m n else m) (h(p := None))" (is "named ?m' _")
proof -
  have own: "n' = n" if "get m n' = Some p" for n'
    using named_get[OF assms(1) that] assms(2,3) by auto
  have ok: "ok m" using assms(1) by (rule named_ok)
  have okd: "ok (if get m n = Some p then del m n else m)"
    using ok by (simp add: del_ok)
  have ent: "\<exists>ob. (h(p := None)) q = Some ob \<and> nm_of ob = Some n'"
    if "get (if get m n = Some p then del m n else m) n' = Some q" for n' q
  proof -
    have q: "get m n' = Some q" and ne: "\<not> (n' = n \<and> get m n = Some p)"
      using that ok by (auto simp: del_get split: if_splits)
    then have "q \<noteq> p" using own[of n'] by blast
    with named_get[OF assms(1) q] show ?thesis by auto
  qed
  from okd ent have "ok ?m' \<and> (\<forall>n' q. get ?m' n' = Some q \<longrightarrow> (\<exists>ob. (h(p := None)) q = Some ob \<and> nm_of ob = Some n'))"
    by blast
  then show ?thesis by (rule iffD2[OF named_iff])
qed

end

definition registered ::
  "('ob \<Rightarrow> string option) \<Rightarrow> addr judySL \<Rightarrow> (addr \<rightharpoonup> 'ob) \<Rightarrow> bool" where
  "registered nm_of js h \<longleftrightarrow>
     judy_ok js \<and> (\<forall>n p. js_get js n = Some p \<longrightarrow> (\<exists>ob. h p = Some ob \<and> nm_of ob = Some n))"

interpretation reg: registry js_get js_insert js_delete judy_ok nm_of "registered nm_of"
  for nm_of :: "'ob \<Rightarrow> string option"
  by unfold_locales (simp add: registered_def)

subsection \<open>Queues\<close>

text \<open>The contract of a queue that is only ever filled: enqueuing appends at the tail.\<close>

locale fifo =
  fixes enq :: "'q \<Rightarrow> 'v option \<Rightarrow> nat \<times> 'q"
    and items :: "'q \<Rightarrow> 'v list"
    and ok :: "'q \<Rightarrow> bool"
    and empty :: 'q
  assumes empty_ok: "ok empty" and empty_items: "items empty = []"
    and enq_null: "ok q \<Longrightarrow> enq q None = (1, q)"
    and enq_items: "ok q \<Longrightarrow> \<exists>q'. enq q (Some v) = (0, q') \<and> ok q' \<and> items q' = items q @ [v]"
begin

lemma enq_ok: "ok q \<Longrightarrow> ok (snd (enq q v))"
  using enq_items[of q "the v"] by (cases v) (auto simp: enq_null)

lemma items_enq: "ok q \<Longrightarrow> items (snd (enq q v)) = items q @ (case v of None \<Rightarrow> [] | Some v \<Rightarrow> [v])"
  using enq_items[of q "the v"] by (cases v) (auto simp: enq_null)

lemma enq_fst: "ok q \<Longrightarrow> fst (enq q v) = (if v = None then 1 else 0)"
  using enq_items[of q "the v"] by (cases v) (auto simp: enq_null)

text \<open>Enqueuing a series of data stores the non-NULL ones in their order.\<close>

lemma enq_series:
  "ok q \<Longrightarrow> ok (fold (\<lambda>v q. snd (enq q v)) vs q) \<and>
     items (fold (\<lambda>v q. snd (enq q v)) vs q) = items q @ List.map_filter id vs"
  by (induction vs arbitrary: q) (auto simp: enq_ok items_enq map_filter_simps split: option.splits)

end

text \<open>The data of an array in order, and the arrays that enqueuing alone can build: no holes.\<close>

definition jl_vals :: "('k, 'v) judy \<Rightarrow> 'v list" where
  "jl_vals a = List.map_filter snd a"

definition jl_dense :: "'v judyL \<Rightarrow> bool" where
  "jl_dense a \<longleftrightarrow> map fst a = [0..<length a] \<and> None \<notin> snd ` set a"

lemma judy_first_empty_dense: "map fst a = [i..<i + length a] \<Longrightarrow> judy_first_empty a i = i + length a"
proof (induction a arbitrary: i)
  case (Cons x a)
  obtain k v where x: "x = (k, v)" by (cases x)
  from Cons.prems have "k = i" and "map fst a = [Suc i..<Suc i + length a]"
    by (simp_all add: x upt_rec)
  with Cons.IH[of "Suc i"] show ?case by (simp add: x)
qed simp

lemma judy_ins_last: "\<forall>k' \<in> fst ` set a. k' < k \<Longrightarrow> judy_ins a k = a @ [(k, None)]"
  by (induction a k rule: judy_ins.induct) auto

lemma judy_put_last: "k \<notin> fst ` set a \<Longrightarrow> judy_put (a @ [(k, w)]) k v = a @ [(k, v)]"
  by (induction a k v rule: judy_put.induct) auto

lemma jl_enqueue_dense:
  assumes "jl_dense a"
  shows "jl_enqueue a (Some v) = (0, a @ [(length a, Some v)])"
proof -
  have keys: "fst ` set a = {0..<length a}"
    using assms unfolding jl_dense_def by (metis list.set_map set_upt)
  have "judy_first_empty a 0 = length a"
    using judy_first_empty_dense[of a 0] assms by (simp add: jl_dense_def)
  moreover have "judy_ins a (length a) = a @ [(length a, None)]"
    by (rule judy_ins_last) (simp add: keys)
  moreover have "map_of a (length a) = None"
    by (simp add: map_of_eq_None_iff keys)
  ultimately show ?thesis
    using keys by (simp add: jl_enqueue_def jl_insert_def jxx_insert_def judy_put_last map_add_def)
qed

interpretation jq: fifo jl_enqueue jl_vals jl_dense "[]"
proof unfold_locales
  fix q :: "'v judyL" and v :: 'v
  assume "jl_dense q"
  then show "\<exists>q'. jl_enqueue q (Some v) = (0, q') \<and> jl_dense q' \<and> jl_vals q' = jl_vals q @ [v]"
    by (intro exI[of _ "q @ [(length q, Some v)]"])
      (auto simp: jl_enqueue_dense jl_dense_def jl_vals_def map_filter_def)
qed (simp_all add: jl_dense_def jl_vals_def map_filter_simps jl_enqueue_def jl_insert_def jxx_insert_def)

text \<open>A loop over a well-formed array is a loop over its data.\<close>

fun loop_vals :: "('v \<Rightarrow> 's \<Rightarrow> 's option) \<Rightarrow> 'v list \<Rightarrow> 's \<Rightarrow> 's option" where
  "loop_vals body [] s = Some s"
| "loop_vals body (v # vs) s = do { s \<leftarrow> body v s; loop_vals body vs s }"

lemma jl_loop_vals:
  "None \<notin> snd ` set a \<Longrightarrow> jl_loop body a s = loop_vals (\<lambda>v. body (Some v)) (jl_vals a) s"
proof (induction a arbitrary: s)
  case (Cons x a)
  obtain k v where x: "x = (k, Some v)"
    using Cons.prems by (cases x; cases "snd x") auto
  from Cons show ?case
    by (cases "body (Some v) s") (auto simp: x jl_vals_def map_filter_simps)
qed (simp add: jl_vals_def map_filter_simps)

lemma loop_vals_append:
  "loop_vals body (vs @ ws) s = Option.bind (loop_vals body vs s) (loop_vals body ws)"
proof (induction vs arbitrary: s)
  case (Cons v vs)
  then show ?case by (cases "body v s") auto
qed simp

text \<open>\<open>JS_LOOP\<close> over an array that its statement leaves alone is a loop over its data.\<close>

lemma find_append_None: "\<forall>x \<in> set xs. \<not> P x \<Longrightarrow> find P (xs @ ys) = find P ys"
  by (induction xs) auto

lemma js_loop_from_const:
  "sorted_wrt (<) (map fst a) \<Longrightarrow> a = pre @ post \<Longrightarrow>
     js_loop_from (\<lambda>_. a) body (case post of [] \<Rightarrow> None | kv # _ \<Rightarrow> Some kv) s = jl_loop body post s"
proof (induction post arbitrary: pre s)
  case Nil
  then show ?case by (simp add: js_loop_from.simps)
next
  case (Cons x post)
  obtain k v where x: "x = (k, v)" by (cases x)
  have "find (\<lambda>(k', _). k < k') ((pre @ [x]) @ post) = find (\<lambda>(k', _). k < k') post"
    using Cons.prems by (intro find_append_None) (force simp: sorted_wrt_append x)
  then have nxt: "judy_next a k = (case post of [] \<Rightarrow> None | kv # _ \<Rightarrow> Some kv)"
    using Cons.prems by (cases post) (auto simp: judy_next_def x sorted_wrt_append)
  have IH: "js_loop_from (\<lambda>_. a) body (case post of [] \<Rightarrow> None | kv # _ \<Rightarrow> Some kv) s' = jl_loop body post s'" for s'
    using Cons.IH[of "pre @ [x]"] Cons.prems by simp
  show ?case
    by (subst js_loop_from.simps, cases "body v s") (simp_all add: x nxt IH)
qed

lemma js_loop_const:
  assumes "judy_ok a"
  shows "js_loop (\<lambda>_. a) body s = loop_vals (\<lambda>v. body (Some v)) (jl_vals a) s"
proof -
  have "judy_first a '''' = (case a of [] \<Rightarrow> None | kv # _ \<Rightarrow> Some kv)"
    by (cases a) (auto simp: judy_first_def)
  with js_loop_from_const[of a "[]" a body s] assms show ?thesis
    by (simp add: js_loop_def judy_ok_def jl_loop_vals)
qed

subsection \<open>Loops that free what they visit\<close>

text \<open>
  A statement that deletes the entry it visits, and only that one, empties the array: the
  loop returns, and no index is left.
\<close>

lemma js_loop_from_frees:
  assumes body: "\<And>k v s. I s \<Longrightarrow> map_of (arr s) k = Some v \<Longrightarrow>
      \<exists>s'. body v s = Some s' \<and> I s' \<and> arr s' = judy_del (arr s) k"
    and ok: "\<And>s. I s \<Longrightarrow> judy_ok (arr s)"
  shows "I s \<Longrightarrow> arr s = a \<Longrightarrow>
     \<exists>s'. js_loop_from arr body (case a of [] \<Rightarrow> None | kv # _ \<Rightarrow> Some kv) s = Some s' \<and> I s' \<and> arr s' = []"
proof (induction a arbitrary: s)
  case Nil
  then show ?case by (simp add: js_loop_from.simps)
next
  case (Cons x a)
  obtain k v where x: "x = (k, v)" by (cases x)
  from Cons.prems ok[of s] have so: "sorted_wrt (<) (map fst ((k, v) # a))"
    by (simp add: judy_ok_def x)
  from Cons.prems x obtain s' where s': "body v s = Some s'" "I s'" "arr s' = judy_del (arr s) k"
    using body[of s k v] by auto
  from so have "k \<notin> fst ` set a" by auto
  then have "filter (\<lambda>(k', _). k' \<noteq> k) a = a" by (intro filter_True) force
  then have arr': "arr s' = a"
    using s'(3) Cons.prems(2) by (simp add: x judy_del_def)
  have nxt: "judy_next a k = (case a of [] \<Rightarrow> None | kv # _ \<Rightarrow> Some kv)"
    using so by (cases a) (auto simp: judy_next_def)
  from Cons.IH[OF s'(2) arr'] show ?case
    by (subst js_loop_from.simps) (simp add: x s'(1) arr' nxt)
qed

lemma js_loop_frees:
  assumes body: "\<And>k v s. I s \<Longrightarrow> map_of (arr s) k = Some v \<Longrightarrow>
      \<exists>s'. body v s = Some s' \<and> I s' \<and> arr s' = judy_del (arr s) k"
    and ok: "\<And>s. I s \<Longrightarrow> judy_ok (arr s)" and "I s"
  shows "\<exists>s'. js_loop arr body s = Some s' \<and> I s' \<and> arr s' = []"
proof -
  have "judy_first (arr s) '''' = (case arr s of [] \<Rightarrow> None | kv # _ \<Rightarrow> Some kv)"
    by (cases "arr s") (auto simp: judy_first_def)
  with js_loop_from_frees[of I arr body s "arr s"] assms show ?thesis
    by (simp add: js_loop_def)
qed

text \<open>A loop whose statement always goes through goes through.\<close>

lemma loop_vals_total:
  assumes "P s" and "\<And>v s. v \<in> set vs \<Longrightarrow> P s \<Longrightarrow> \<exists>s'. body v s = Some s' \<and> P s'"
  shows "\<exists>s'. loop_vals body vs s = Some s' \<and> P s'"
  using assms
proof (induction vs arbitrary: s)
  case (Cons v vs)
  obtain s1 where "body v s = Some s1" "P s1" using Cons.prems(2)[of v s] Cons.prems(1) by auto
  with Cons.IH[of s1] Cons.prems(2) show ?case by simp
qed simp

end
