(* ===== verification/Clib.thy ===== *)
theory Clib
  imports Prelude "HOL-Library.Char_ord"
begin

text \<open>
  What the program uses of the C library: reading and printing numbers (\<open>strtol\<close>,
  \<open>strtoll\<close>, the conversions \<open>%d\<close>, \<open>%u\<close>, \<open>%x\<close> and \<open>%hhx\<close>), extended regular
  expressions (\<open>regexec\<close>), address parsing (\<open>inet_pton\<close>), \<open>strnlen\<close> and \<open>strncmp\<close>,
  and GCC's \<open>__builtin_add_overflow(x, 0, &out)\<close>. A C string is the list of its
  characters without the terminating NUL.
\<close>

subsection \<open>Characters\<close>

definition isspace :: "char \<Rightarrow> bool" where
  "isspace c \<longleftrightarrow> (let n = (of_char c :: nat) in n = 32 \<or> (9 \<le> n \<and> n \<le> 13))"

definition byte_of_char :: "char \<Rightarrow> byte" where
  "byte_of_char c = of_nat (of_char c)"

lemma digit_value_hexdigit [simp]: "n < 16 \<Longrightarrow> digit_value (hexdigit n) = Some n"
  by (auto simp: digit_value_def hexdigit_def Let_def)

lemma digit_value_bound: "digit_value c = Some d \<Longrightarrow> d < 16"
  by (auto simp: digit_value_def Let_def split: if_splits)

lemma hexdigit_inj [simp]: "m < 16 \<Longrightarrow> n < 16 \<Longrightarrow> hexdigit m = hexdigit n \<longleftrightarrow> m = n"
  by (metis digit_value_hexdigit option.inject)

lemma hexdigit_0 [simp]: "hexdigit 0 = CHR ''0''"
  by code_simp

lemma not_digit [simp]:
  "digit_value (CHR ''-'') = None" "digit_value (CHR ''+'') = None" "digit_value (CHR ''x'') = None"
  "digit_value (CHR ''X'') = None"
  by (simp_all add: digit_value_def)

lemma not_space_digit: "digit_value c = Some d \<Longrightarrow> \<not> isspace c"
  by (auto simp: digit_value_def isspace_def Let_def split: if_splits)

subsection \<open>Reading numbers\<close>

text \<open>The value of the leading digits of a string in a base.\<close>

fun scan_num :: "nat \<Rightarrow> nat \<Rightarrow> string \<Rightarrow> nat" where
  "scan_num b acc [] = acc"
| "scan_num b acc (c # cs) =
     (case digit_value c of
        Some d \<Rightarrow> if d < b then scan_num b (acc * b + d) cs else acc
      | None \<Rightarrow> acc)"

text \<open>Base 0: hexadecimal after \<open>0x\<close>, octal after \<open>0\<close>, else decimal.\<close>

definition scan_base0 :: "string \<Rightarrow> nat" where
  "scan_base0 s =
     (case s of
        c0 # c1 # c2 # cs \<Rightarrow>
          if c0 = CHR ''0'' \<and> (c1 = CHR ''x'' \<or> c1 = CHR ''X'') \<and> digit_value c2 \<noteq> None
          then scan_num 16 0 (c2 # cs)
          else if c0 = CHR ''0'' then scan_num 8 0 s
          else scan_num 10 0 s
      | c0 # cs \<Rightarrow> if c0 = CHR ''0'' then scan_num 8 0 s else scan_num 10 0 s
      | [] \<Rightarrow> 0)"

definition scan_sign :: "string \<Rightarrow> bool \<times> string" where
  "scan_sign s =
     (case s of
        c # cs \<Rightarrow> if c = CHR ''-'' then (True, cs)
                  else if c = CHR ''+'' then (False, cs) else (False, s)
      | [] \<Rightarrow> (False, []))"

text \<open>The number that \<open>strtol(s, NULL, 0)\<close> reads, before it is made to fit.\<close>

definition strtoz :: "string \<Rightarrow> int" where
  "strtoz s =
     (let (neg, s) = scan_sign (dropWhile isspace s); n = int (scan_base0 s)
      in if neg then - n else n)"

text \<open>
  \<open>long\<close> and \<open>long long\<close> have 64 bits. Out of range the result is the nearest limit and
  errno is ERANGE; a string with no digits gives 0 and leaves errno alone.
\<close>

definition LONG_MAX :: int where
  "LONG_MAX = 2 ^ 63 - 1"

definition LONG_MIN :: int where
  "LONG_MIN = - (2 ^ 63)"

definition strtol :: "string \<Rightarrow> int \<times> errno" where
  "strtol s =
     (let v = strtoz s
      in if LONG_MAX < v then (LONG_MAX, ERANGE)
         else if v < LONG_MIN then (LONG_MIN, ERANGE)
         else (v, E_OK))"

definition strtoll :: "string \<Rightarrow> int \<times> errno" where
  "strtoll = strtol"

text \<open>
  \<open>__builtin_add_overflow(x, 0, &out)\<close> reports whether \<open>x\<close> is outside of the range of
  the type of \<open>out\<close>.
\<close>

definition overflows_u :: "nat \<Rightarrow> int \<Rightarrow> bool" where
  "overflows_u w x \<longleftrightarrow> \<not> (0 \<le> x \<and> x < 2 ^ w)"

definition overflows_s :: "nat \<Rightarrow> int \<Rightarrow> bool" where
  "overflows_s w x \<longleftrightarrow> \<not> (- (2 ^ (w - 1)) \<le> x \<and> x < 2 ^ (w - 1))"

subsection \<open>Printing numbers\<close>

fun show_base :: "nat \<Rightarrow> nat \<Rightarrow> string" where
  "show_base b n =
     (if b < 2 \<or> n < b then [hexdigit n] else show_base b (n div b) @ [hexdigit (n mod b)])"

declare show_base.simps [simp del]

text \<open>The conversions \<open>%u\<close>, \<open>%d\<close> and \<open>%x\<close>.\<close>

definition fmt_u :: "nat \<Rightarrow> string" where
  "fmt_u n = show_base 10 n"

definition fmt_d :: "int \<Rightarrow> string" where
  "fmt_d i = (if i < 0 then CHR ''-'' # show_base 10 (nat (- i)) else show_base 10 (nat i))"

definition fmt_x :: "nat \<Rightarrow> string" where
  "fmt_x n = show_base 16 n"

subsection \<open>What is printed is read back\<close>

lemma show_base_digits:
  assumes "2 \<le> b" and "b \<le> 16"
  shows "\<forall>c \<in> set (show_base b n). \<exists>d < b. c = hexdigit d"
  using assms
proof (induction b n rule: show_base.induct)
  case (1 b n)
  show ?case
  proof (cases "n < b")
    case True
    then show ?thesis by (subst show_base.simps) auto
  next
    case False
    with 1 have "\<forall>c \<in> set (show_base b (n div b)). \<exists>d < b. c = hexdigit d" by simp
    moreover have "n mod b < b" using 1(2) by simp
    ultimately show ?thesis using False 1(2)
      by (subst show_base.simps) (auto intro!: exI[of _ "n mod b"])
  qed
qed

lemma show_base_nonempty [simp]: "show_base b n \<noteq> []"
  by (subst show_base.simps) simp

lemma show_base_hd_0:
  assumes "2 \<le> b" and "b \<le> 16" and "0 < n"
  shows "hd (show_base b n) \<noteq> CHR ''0''"
  using assms
proof (induction b n rule: show_base.induct)
  case (1 b n)
  show ?case
  proof (cases "n < b")
    case True
    then have "hexdigit n \<noteq> hexdigit 0"
      using 1(3,4) by (subst hexdigit_inj) auto
    with True show ?thesis by (subst show_base.simps) simp
  next
    case False
    then have "0 < n div b" using 1(2) by (simp add: div_greater_zero_iff)
    with 1 False have "hd (show_base b (n div b)) \<noteq> CHR ''0''" by simp
    with False 1(2) show ?thesis by (subst show_base.simps) simp
  qed
qed

lemma scan_show_base:
  assumes "2 \<le> b" and "b \<le> 16"
  shows "scan_num b acc (show_base b n @ cs) =
    scan_num b (acc * b ^ length (show_base b n) + n) cs"
  using assms
proof (induction b n arbitrary: acc cs rule: show_base.induct)
  case (1 b n)
  show ?case
  proof (cases "n < b")
    case True
    with 1 show ?thesis by (simp add: show_base.simps[of b n])
  next
    case False
    let ?xs = "show_base b (n div b)"
    have "n mod b < b" using 1(2) by simp
    moreover have "n mod b < 16" using 1(2,3) \<open>n mod b < b\<close> by linarith
    ultimately have "scan_num b acc (show_base b n @ cs) =
        scan_num b ((acc * b ^ length ?xs + n div b) * b + n mod b) cs"
      using 1 False by (simp add: show_base.simps[of b n])
    also have "(acc * b ^ length ?xs + n div b) * b + n mod b = acc * b ^ Suc (length ?xs) + n"
      by (simp add: algebra_simps)
    also have "Suc (length ?xs) = length (show_base b n)"
      using False 1(2) by (simp add: show_base.simps[of b n])
    finally show ?thesis .
  qed
qed

lemma scan_base0_dec: "scan_base0 (show_base 10 n) = n"
proof (cases "n = 0")
  case True
  then show ?thesis by (simp add: show_base.simps scan_base0_def digit_value_def)
next
  case False
  obtain c cs where s: "show_base 10 n = c # cs"
    by (cases "show_base 10 n") auto
  with show_base_hd_0[of 10 n] False have "c \<noteq> CHR ''0''" by simp
  then have "scan_base0 (show_base 10 n) = scan_num 10 0 (show_base 10 n)"
    by (auto simp: scan_base0_def s split: list.splits)
  also have "\<dots> = n" using scan_show_base[of 10 0 n "[]"] by simp
  finally show ?thesis .
qed

lemma scan_base0_hex: "scan_base0 (CHR ''0'' # CHR ''x'' # show_base 16 n) = n"
proof -
  obtain c cs where s: "show_base 16 n = c # cs"
    by (cases "show_base 16 n") auto
  with show_base_digits[of 16 n] have "digit_value c \<noteq> None" by auto
  then have "scan_base0 (CHR ''0'' # CHR ''x'' # show_base 16 n) = scan_num 16 0 (show_base 16 n)"
    by (simp add: scan_base0_def s)
  also have "\<dots> = n" using scan_show_base[of 16 0 n "[]"] by simp
  finally show ?thesis .
qed

lemma scan_sign_digits:
  assumes "s \<noteq> []" and "digit_value (hd s) \<noteq> None"
  shows "scan_sign (dropWhile isspace s) = (False, s)"
proof -
  obtain c cs where s: "s = c # cs" using assms(1) by (cases s) auto
  with assms(2) obtain d where d: "digit_value c = Some d" by auto
  then have "\<not> isspace c" by (rule not_space_digit)
  moreover from d have "c \<noteq> CHR ''-''" "c \<noteq> CHR ''+''" by auto
  ultimately show ?thesis by (simp add: scan_sign_def s)
qed

lemma hd_show_base: "2 \<le> b \<Longrightarrow> b \<le> 16 \<Longrightarrow> digit_value (hd (show_base b n)) \<noteq> None"
  using show_base_digits[of b n] by (cases "show_base b n") auto

lemma strtoz_fmt_u: "strtoz (fmt_u n) = int n"
  using scan_sign_digits[of "show_base 10 n"] hd_show_base[of 10 n]
  by (simp add: strtoz_def fmt_u_def scan_base0_dec)

lemma strtoz_fmt_d: "strtoz (fmt_d i) = i"
proof (cases "i < 0")
  case True
  have "scan_sign (dropWhile isspace (CHR ''-'' # xs)) = (True, xs)" for xs
    by (simp add: scan_sign_def isspace_def)
  with True show ?thesis by (simp add: strtoz_def fmt_d_def scan_base0_dec)
next
  case False
  with strtoz_fmt_u[of "nat i"] show ?thesis by (simp add: fmt_d_def fmt_u_def)
qed

lemma strtoz_hex: "strtoz (''0x'' @ fmt_x n) = int n"
  using scan_sign_digits[of "''0x'' @ show_base 16 n"]
  by (simp add: strtoz_def fmt_x_def scan_base0_hex digit_value_def)

lemma strtol_in_range: "LONG_MIN \<le> strtoz s \<Longrightarrow> strtoz s \<le> LONG_MAX \<Longrightarrow> strtol s = (strtoz s, E_OK)"
  by (auto simp: strtol_def Let_def)

lemma strtol_range: "LONG_MIN \<le> fst (strtol s) \<and> fst (strtol s) \<le> LONG_MAX"
  by (auto simp: strtol_def Let_def LONG_MIN_def LONG_MAX_def)

lemma length_show_base:
  assumes "2 \<le> b" and "n < b ^ k" and "0 < k"
  shows "length (show_base b n) \<le> k"
  using assms
proof (induction k arbitrary: n)
  case 0
  then show ?case by simp
next
  case (Suc k)
  show ?case
  proof (cases "n < b")
    case True
    then show ?thesis by (simp add: show_base.simps[of b n])
  next
    case False
    with Suc.prems have "0 < k" by (cases k) auto
    moreover have "n div b < b ^ k"
      using Suc.prems by (simp add: less_mult_imp_div_less mult.commute)
    ultimately have "length (show_base b (n div b)) \<le> k" using Suc by simp
    with False Suc.prems(1) show ?thesis by (simp add: show_base.simps[of b n])
  qed
qed

text \<open>A 32-bit signed and a 16-bit unsigned integer, printed through a buffer and read back.\<close>

lemma strtol_fmt_d:
  assumes "- (2 ^ 31) \<le> i" and "i < 2 ^ 31"
  shows "strtol (take (MAXLINELEN - 1) (fmt_d i)) = (i, E_OK)"
proof -
  have "length (show_base 10 (nat j)) \<le> 10" if "j \<le> 2 ^ 31" for j :: int
    using that by (intro length_show_base) auto
  from this[of "- i"] this[of i] have "length (fmt_d i) \<le> 11"
    using assms by (auto simp: fmt_d_def)
  then have "take (MAXLINELEN - 1) (fmt_d i) = fmt_d i"
    by (simp add: MAXLINELEN_def)
  with assms show ?thesis
    by (simp add: strtol_in_range strtoz_fmt_d LONG_MIN_def LONG_MAX_def)
qed

lemma strtol_fmt_u:
  assumes "n < 2 ^ 16"
  shows "strtol (take (MAXLINELEN - 1) (fmt_u n)) = (int n, E_OK)"
proof -
  have "length (fmt_u n) \<le> 5"
    using assms unfolding fmt_u_def by (intro length_show_base) auto
  then have "take (MAXLINELEN - 1) (fmt_u n) = fmt_u n"
    by (simp add: MAXLINELEN_def)
  with assms show ?thesis
    by (simp add: strtol_in_range strtoz_fmt_u LONG_MIN_def LONG_MAX_def)
qed

lemma strtol_hex:
  assumes "n < 2 ^ 8"
  shows "strtol (take (MAXLINELEN - 1) (''0x'' @ fmt_x n)) = (int n, E_OK)"
proof -
  have "length (fmt_x n) \<le> 2"
    using assms unfolding fmt_x_def by (intro length_show_base) auto
  then have "take (MAXLINELEN - 1) (''0x'' @ fmt_x n) = ''0x'' @ fmt_x n"
    by (simp add: MAXLINELEN_def)
  with assms show ?thesis
    by (simp add: strtol_in_range strtoz_hex LONG_MIN_def LONG_MAX_def del: append.simps)
qed

end
