(* ===== verification/Yaml.thy ===== *)
theory Yaml
  imports Clib
begin

text \<open>
  The YAML documents that the parsers read and write, and include/yamlutils.h with
  src/yamlutils.c. A node is a tree: libyaml's document is an array of nodes that refer to
  each other by index, which \<open>yaml_document_get_node\<close> follows, and the program only ever
  follows it downwards. The text of a YAML document becomes such a tree in libyaml, which is
  not part of the repository.

  In the output document a mapping under construction is the list of its pairs, and a
  sequence the list of its items. libyaml's insertions fail only when memory runs out; that
  they succeed is part of the model.
\<close>

datatype ynode =
    YScalar string
  | YSeq "ynode list"
  | YMap "(ynode \<times> ynode) list"
  | YNone

text \<open>
  \<open>data.scalar.value\<close> of a node: the text of a scalar. On any other node this reads the
  wrong member of a union.
\<close>

fun scalar_value :: "ynode \<Rightarrow> string option" where
  "scalar_value (YScalar t) = Some t"
| "scalar_value _ = None"

text \<open>The variable \<open>txt\<close> of \<open>Y_FOR_TYPE_\<close>: NULL unless the node is a scalar.\<close>

fun y_txt :: "ynode \<Rightarrow> string option" where
  "y_txt (YScalar t) = Some t"
| "y_txt _ = None"

subsection \<open>The iteration macros\<close>

text \<open>
  \<open>Y_FOR_MAP\<close> runs a statement on every pair of a mapping. The statement sees the key's
  text and the value, the error count \<open>e\<close> and its own state; it returns whether it jumped
  to \<open>die\<close>, the error count and the state. A value of no known type counts as an error and
  is skipped. The key is read as a scalar, whatever it is.
\<close>

fun y_for_map ::
  "(string \<Rightarrow> ynode \<Rightarrow> nat \<Rightarrow> 's \<Rightarrow> (bool \<times> nat \<times> 's) option) \<Rightarrow>
   (ynode \<times> ynode) list \<Rightarrow> nat \<Rightarrow> 's \<Rightarrow> (bool \<times> nat \<times> 's) option"
where
  "y_for_map body [] e s = Some (False, e, s)"
| "y_for_map body ((key, val) # ps) e s =
     do { keyname \<leftarrow> scalar_value key;
          if val = YNone then y_for_map body ps (e + 1) s
          else do { (died, e, s) \<leftarrow> body keyname val e s;
                    if died then Some (True, e, s) else y_for_map body ps e s } }"

fun y_for_seq ::
  "(ynode \<Rightarrow> nat \<Rightarrow> 's \<Rightarrow> (bool \<times> nat \<times> 's) option) \<Rightarrow>
   ynode list \<Rightarrow> nat \<Rightarrow> 's \<Rightarrow> (bool \<times> nat \<times> 's) option"
where
  "y_for_seq body [] e s = Some (False, e, s)"
| "y_for_seq body (val # vs) e s =
     (if val = YNone then y_for_seq body vs (e + 1) s
      else do { (died, e, s) \<leftarrow> body val e s;
                if died then Some (True, e, s) else y_for_seq body vs e s })"

definition y_seq_empty :: "ynode list \<Rightarrow> bool" where
  "y_seq_empty items \<longleftrightarrow> items = []"

subsection \<open>Building the output\<close>

definition y_pair_insert :: "(ynode \<times> ynode) list \<Rightarrow> string \<Rightarrow> string \<Rightarrow> (ynode \<times> ynode) list" where
  "y_pair_insert mapping key val = mapping @ [(YScalar key, YScalar val)]"

text \<open>The formatted value is cut to the buffer of \<open>MAXLINELEN\<close> bytes.\<close>

definition y_pair_insert_nf :: "(ynode \<times> ynode) list \<Rightarrow> string \<Rightarrow> string \<Rightarrow> (ynode \<times> ynode) list" where
  "y_pair_insert_nf mapping key val = y_pair_insert mapping key (take (MAXLINELEN - 1) val)"

definition y_pair_insert_obj :: "(ynode \<times> ynode) list \<Rightarrow> string \<Rightarrow> ynode \<Rightarrow> (ynode \<times> ynode) list" where
  "y_pair_insert_obj mapping key val = mapping @ [(YScalar key, val)]"

text \<open>
  The reply list a parser appends to: \<open>None\<close> where the caller gives no output document
  (the tests do), else the items so far.
\<close>

type_synonym yout = "ynode list option"

definition y_reply :: "yout \<Rightarrow> ynode \<Rightarrow> yout" where
  "y_reply out n = map_option (\<lambda>ys. ys @ [n]) out"

subsection \<open>Modes (include/parse2.h)\<close>

datatype parse_mode = PARSE_INVALID | PARSE_ADD | PARSE_DEL | PARSE_PRN

definition parse_mode_prn :: "parse_mode \<Rightarrow> string" where
  "parse_mode_prn mode =
     (case mode of
        PARSE_INVALID \<Rightarrow> ''PARSE_INVALID''
      | PARSE_ADD \<Rightarrow> ''PARSE_ADD''
      | PARSE_DEL \<Rightarrow> ''PARSE_DEL''
      | PARSE_PRN \<Rightarrow> ''PARSE_PRN'')"

subsection \<open>The loops over a document\<close>

text \<open>An invariant of the statement is an invariant of the loop.\<close>

lemma y_for_map_inv:
  assumes "y_for_map body ps e s = Some (died, e', s')" and "P e s"
    and step: "\<And>k v e s died e' s'. P e s \<Longrightarrow> body k v e s = Some (died, e', s') \<Longrightarrow> P e' s'"
    and err: "\<And>e s. P e s \<Longrightarrow> P (e + 1) s"
  shows "P e' s'"
  using assms(1,2)
proof (induction ps arbitrary: e s)
  case Nil
  then show ?case by simp
next
  case (Cons p ps)
  obtain key val where p: "p = (key, val)" by (cases p)
  show ?case
  proof (cases "val = YNone")
    case True
    with Cons.prems have "y_for_map body ps (e + 1) s = Some (died, e', s')"
      by (auto simp: p bind_eq_Some_conv)
    then show ?thesis using Cons.IH err[OF Cons.prems(2)] by blast
  next
    case False
    with Cons.prems(1) obtain kn d1 e1 s1 where b: "body kn val e s = Some (d1, e1, s1)"
      and rest: "if d1 then (died, e', s') = (True, e1, s1)
        else y_for_map body ps e1 s1 = Some (died, e', s')"
      by (auto simp: p bind_eq_Some_conv split: if_splits)
    have "P e1 s1" using step[OF Cons.prems(2) b] .
    then show ?thesis using rest Cons.IH by (cases d1) auto
  qed
qed

lemma y_for_seq_inv:
  assumes "y_for_seq body vs e s = Some (died, e', s')" and "P e s"
    and step: "\<And>v e s died e' s'. P e s \<Longrightarrow> body v e s = Some (died, e', s') \<Longrightarrow> P e' s'"
    and err: "\<And>e s. P e s \<Longrightarrow> P (e + 1) s"
  shows "P e' s'"
  using assms(1,2)
proof (induction vs arbitrary: e s)
  case Nil
  then show ?case by simp
next
  case (Cons val vs)
  show ?case
  proof (cases "val = YNone")
    case True
    with Cons.prems have "y_for_seq body vs (e + 1) s = Some (died, e', s')" by simp
    then show ?thesis using Cons.IH err[OF Cons.prems(2)] by blast
  next
    case False
    with Cons.prems(1) obtain d1 e1 s1 where b: "body val e s = Some (d1, e1, s1)"
      and rest: "if d1 then (died, e', s') = (True, e1, s1)
        else y_for_seq body vs e1 s1 = Some (died, e', s')"
      by (auto simp: bind_eq_Some_conv split: if_splits)
    have "P e1 s1" using step[OF Cons.prems(2) b] .
    then show ?thesis using rest Cons.IH by (cases d1) auto
  qed
qed

text \<open>The loops count errors upwards.\<close>

lemma y_for_map_errs:
  assumes "y_for_map body ps e s = Some (died, e', s')"
    and "\<And>k v e s died e' s'. body k v e s = Some (died, e', s') \<Longrightarrow> e \<le> e'"
  shows "e \<le> e'"
  by (rule y_for_map_inv[OF assms(1), of "\<lambda>e'' _. e \<le> e''"]) (auto dest: assms(2))

text \<open>
  A document whose keys are all scalars. libyaml accepts others, and the macros then read a
  key through the wrong member of a union.
\<close>

fun ynode_ok :: "ynode \<Rightarrow> bool" and yseq_ok :: "ynode list \<Rightarrow> bool"
  and ymap_ok :: "(ynode \<times> ynode) list \<Rightarrow> bool" where
  "ynode_ok (YScalar t) = True"
| "ynode_ok YNone = True"
| "ynode_ok (YSeq vs) = yseq_ok vs"
| "ynode_ok (YMap ps) = ymap_ok ps"
| "yseq_ok [] = True"
| "yseq_ok (v # vs) = (ynode_ok v \<and> yseq_ok vs)"
| "ymap_ok [] = True"
| "ymap_ok ((k, v) # ps) = (scalar_value k \<noteq> None \<and> ynode_ok v \<and> ymap_ok ps)"

text \<open>A statement that never fails under an invariant makes a loop that never fails.\<close>

lemma y_for_map_total:
  assumes "ymap_ok ps" and "P s"
    and step: "\<And>k v e s. ynode_ok v \<Longrightarrow> v \<noteq> YNone \<Longrightarrow> P s \<Longrightarrow>
      \<exists>died e' s'. body k v e s = Some (died, e', s') \<and> P s'"
  shows "\<exists>died e' s'. y_for_map body ps e s = Some (died, e', s') \<and> P s'"
  using assms(1,2)
proof (induction ps arbitrary: e s)
  case (Cons p ps)
  obtain key val where p: "p = (key, val)" by (cases p)
  with Cons.prems obtain kn where kn: "scalar_value key = Some kn" "ynode_ok val" "ymap_ok ps" by auto
  show ?case
  proof (cases "val = YNone")
    case True
    with Cons.IH[OF kn(3) Cons.prems(2)] kn(1) show ?thesis by (simp add: p)
  next
    case False
    from step[OF kn(2) False Cons.prems(2), of kn e] obtain died e' s' where
      b: "body kn val e s = Some (died, e', s')" "P s'" by blast
    with Cons.IH[OF kn(3) b(2)] kn(1) False show ?thesis
      by (cases died) (auto simp: p intro: exI[of _ True])
  qed
qed (simp add: exI[of _ False])

lemma y_for_seq_total:
  assumes "yseq_ok vs" and "P s"
    and step: "\<And>v e s. ynode_ok v \<Longrightarrow> P s \<Longrightarrow> \<exists>died e' s'. body v e s = Some (died, e', s') \<and> P s'"
  shows "\<exists>died e' s'. y_for_seq body vs e s = Some (died, e', s') \<and> P s'"
  using assms(1,2)
proof (induction vs arbitrary: e s)
  case (Cons v vs)
  show ?case
  proof (cases "v = YNone")
    case True
    with Cons show ?thesis by simp
  next
    case False
    from step[of v s e] Cons.prems obtain died e' s' where b: "body v e s = Some (died, e', s')" "P s'" by auto
    with Cons False show ?thesis by (cases died) (auto intro: exI[of _ True])
  qed
qed (simp add: exI[of _ False])

text \<open>A statement that never jumps to \<open>die\<close> on the values of a document runs over all of it.\<close>

lemma y_for_map_lives:
  assumes "y_for_map body ps e s = Some (died, e', s')"
    and "\<And>key v k e s d e' s'. (key, v) \<in> set ps \<Longrightarrow> v \<noteq> YNone \<Longrightarrow> body k v e s = Some (d, e', s') \<Longrightarrow> \<not> d"
  shows "\<not> died"
  using assms
proof (induction ps arbitrary: e s)
  case (Cons p ps)
  obtain key val where p: "p = (key, val)" by (cases p)
  have IH: "\<not> died" if "y_for_map body ps e s = Some (died, e', s')" for e s
    by (rule Cons.IH[OF that], rule Cons.prems(2), rule list.set_intros(2), assumption+)
  obtain kn where kn: "scalar_value key = Some kn" using Cons.prems(1) p by (cases "scalar_value key") auto
  show ?case
  proof (cases "val = YNone")
    case True
    with Cons.prems(1) kn IH show ?thesis by (simp add: p)
  next
    case False
    with Cons.prems(1) kn obtain d e1 s1 where b: "body kn val e s = Some (d, e1, s1)"
      by (cases "body kn val e s") (auto simp: p)
    have "\<not> d" by (rule Cons.prems(2)[OF _ False b, of key]) (simp add: p)
    with b Cons.prems(1) kn False have "y_for_map body ps e1 s1 = Some (died, e', s')" by (simp add: p)
    then show ?thesis by (rule IH)
  qed
qed simp

lemma y_for_seq_lives:
  assumes "y_for_seq body vs e s = Some (died, e', s')"
    and "\<And>v e s d e' s'. v \<in> set vs \<Longrightarrow> body v e s = Some (d, e', s') \<Longrightarrow> \<not> d"
  shows "\<not> died"
  using assms
proof (induction vs arbitrary: e s)
  case (Cons v vs)
  have IH: "\<not> died" if "y_for_seq body vs e s = Some (died, e', s')" for e s
    by (rule Cons.IH[OF that], rule Cons.prems(2), rule list.set_intros(2))
  show ?case
  proof (cases "v = YNone")
    case True
    with Cons.prems(1) IH show ?thesis by simp
  next
    case False
    with Cons.prems(1) obtain d e1 s1 where b: "body v e s = Some (d, e1, s1)"
      by (cases "body v e s") auto
    have "\<not> d" by (rule Cons.prems(2)[OF _ b]) simp
    with b Cons.prems(1) False have "y_for_seq body vs e1 s1 = Some (died, e', s')" by simp
    then show ?thesis by (rule IH)
  qed
qed simp

end
