(* ===== verification/Field.thy ===== *)
theory Field
  imports Judy Yaml
begin

text \<open>
  include/field.h and src/field.c: the named descriptors of bytes of a packet. The state of
  the component is the heap of fields and the table \<open>field_JS\<close> of their names. The first
  half follows the code; the second half shows the invariant \<open>field_inv\<close> (every live field
  is in the table under its own name), what creating, looking up, releasing and freeing a
  field do on every path, and that the printed form of a field, parsed again, is that field.
\<close>

subsection \<open>Data\<close>

text \<open>The extent of a field. \<open>fs_offt\<close> is an \<open>int32_t\<close> and is read with \<open>sint\<close>.\<close>

record field_set =
  fs_offt :: u32
  fs_len :: u16
  fs_mask :: u8
  fs_flags :: u8

record field =
  fl_name :: "string option"
  fl_set :: field_set
  fl_refcnt :: u32

record field_state = heap_state +
  field_heap :: "addr \<rightharpoonup> field"
  field_JS :: "addr judySL"

text \<open>What \<open>calloc\<close> returns: every member is zero.\<close>

definition set_zero :: field_set where
  "set_zero = \<lparr>fs_offt = 0, fs_len = 0, fs_mask = 0, fs_flags = 0\<rparr>"

definition field_zero :: field where
  "field_zero = \<lparr>fl_name = None, fl_set = set_zero, fl_refcnt = 0\<rparr>"

subsection \<open>Life cycle\<close>

definition field_free :: "ptr \<Rightarrow> 'a field_state_scheme \<Rightarrow> 'a field_state_scheme option" where
  "field_free arg s =
     (case arg of
        None \<Rightarrow> Some s
      | Some p \<Rightarrow>
          do { fl \<leftarrow> field_heap s p;
               if fl_refcnt fl \<noteq> 0 then Some s
               else do { nm \<leftarrow> fl_name fl;
                         let s = (if js_get (field_JS s) nm = Some p
                                  then s\<lparr>field_JS := js_delete (field_JS s) nm\<rparr> else s);
                         Some (s\<lparr>field_heap := (field_heap s)(p := None)\<rparr>) } })"

definition field_free_all :: "'a field_state_scheme \<Rightarrow> 'a field_state_scheme option" where
  "field_free_all s = js_loop field_JS field_free s"

text \<open>The label \<open>die\<close> of \<open>field_new\<close>.\<close>

definition field_new_die :: "ptr \<Rightarrow> 'a field_state_scheme \<Rightarrow> (ptr \<times> 'a field_state_scheme) option" where
  "field_new_die ret s = do { s \<leftarrow> field_free ret s; Some (None, s) }"

definition field_new ::
  "env \<Rightarrow> string option \<Rightarrow> int \<Rightarrow> int \<Rightarrow> int \<Rightarrow> 'a field_state_scheme \<Rightarrow> (ptr \<times> 'a field_state_scheme) option"
where
  "field_new E name offt len msk s =
     (case name of
        None \<Rightarrow> field_new_die None s
      | Some nm \<Rightarrow>
          if js_get (field_JS s) nm \<noteq> None then field_new_die None s
          else let msk = (if msk = 0 then 0xff else msk); (ret, s) = calloc E s
          in case ret of
               None \<Rightarrow> field_new_die None s
             | Some p \<Rightarrow>
                 (let (copy, err) = nstralloc E nm MAXLINELEN;
                      fl = field_zero\<lparr>fl_name := copy\<rparr>;
                      s = s\<lparr>field_heap := (field_heap s)(p \<mapsto> fl)\<rparr>
                  in case copy of
                       None \<Rightarrow> field_new_die ret s
                     | Some nm' \<Rightarrow>
                         if err = E2BIG then field_new_die ret s
                         else if overflows_s 32 offt then field_new_die ret s
                         else if overflows_u 16 len then field_new_die ret s
                         else if overflows_u 8 msk then field_new_die ret s
                         else
                           let fs = \<lparr>fs_offt = word_of_int offt, fs_len = word_of_int len,
                                      fs_mask = word_of_int msk, fs_flags = 0\<rparr>;
                               s = s\<lparr>field_heap := (field_heap s)(p \<mapsto> fl\<lparr>fl_set := fs\<rparr>)\<rparr>;
                               (rc, js) = js_insert (field_JS s) nm' ret True;
                               s = s\<lparr>field_JS := js\<rparr>
                           in if rc \<noteq> 0 then field_new_die ret s else Some (ret, s)))"

definition field_release :: "ptr \<Rightarrow> 'a field_state_scheme \<Rightarrow> 'a field_state_scheme option" where
  "field_release fp s =
     (case fp of
        None \<Rightarrow> Some s
      | Some p \<Rightarrow>
          do { fl \<leftarrow> field_heap s p;
               Some (s\<lparr>field_heap := (field_heap s)(p \<mapsto> fl\<lparr>fl_refcnt := refcnt_release (fl_refcnt fl)\<rparr>)\<rparr>) })"

definition field_get :: "string \<Rightarrow> 'a field_state_scheme \<Rightarrow> (ptr \<times> 'a field_state_scheme) option" where
  "field_get nm s =
     (case js_get (field_JS s) nm of
        None \<Rightarrow> Some (None, s)
      | Some p \<Rightarrow>
          do { fl \<leftarrow> field_heap s p;
               Some (Some p, s\<lparr>field_heap := (field_heap s)(p \<mapsto> fl\<lparr>fl_refcnt := refcnt_take (fl_refcnt fl)\<rparr>)\<rparr>) })"

subsection \<open>Hashing a field of a packet\<close>

text \<open>
  \<open>FIELD_PACKET_INDEXING\<close>: where the field starts in the packet and its length, or
  \<open>None\<close> where the macro returns 1. A pointer into the packet is its distance from the
  start of the packet.
\<close>

definition field_packet_indexing :: "byte list option \<Rightarrow> nat \<Rightarrow> field_set \<Rightarrow> (nat \<times> nat) option" where
  "field_packet_indexing pkt plen fs =
     (if pkt = None \<or> plen = 0 then None
      else let start = sint (fs_offt fs);
               start = (if sint (fs_offt fs) < 0 then start + int plen else start)
           in if start < 0 then None
              else let flen = unat (fs_len fs)
                   in if start + int flen > int plen then None else Some (nat start, flen))"

text \<open>The 8 bytes of a \<open>struct field_set\<close> in memory.\<close>

definition field_set_bytes :: "endian \<Rightarrow> field_set \<Rightarrow> byte list" where
  "field_set_bytes e fs =
     host32 e (fs_offt fs) @ host16 e (fs_len fs) @ [fs_mask fs, fs_flags fs]"

text \<open>\<open>FIELD_PACKET_HASHING\<close>. Reading outside of the packet's buffer is undefined.\<close>

definition field_packet_hashing ::
  "env \<Rightarrow> endian \<Rightarrow> byte list \<Rightarrow> field_set \<Rightarrow> nat \<Rightarrow> nat \<Rightarrow> u64 \<Rightarrow> u64 option"
where
  "field_packet_hashing E e pkt fs start flen h =
     (let h = fnv_hash64 E h (field_set_bytes e (fs\<lparr>fs_flags := 0\<rparr>))
      in if flen = 0 then Some h
         else if length pkt < start + flen then None
         else let h = fnv_hash64 E h (read_at pkt start (flen - 1));
                  trailing = pkt ! (start + (flen - 1)) AND fs_mask fs
              in Some (fnv_hash64 E h [trailing]))"

definition field_hash ::
  "env \<Rightarrow> endian \<Rightarrow> field_set \<Rightarrow> byte list option \<Rightarrow> nat \<Rightarrow> u64 \<Rightarrow> (nat \<times> u64) option"
where
  "field_hash E e fs pkt plen outhash =
     (case field_packet_indexing pkt plen fs of
        None \<Rightarrow> Some (1, outhash)
      | Some (start, flen) \<Rightarrow>
          do { h \<leftarrow> field_packet_hashing E e (the pkt) fs start flen outhash; Some (0, h) })"

subsection \<open>Printing and parsing\<close>

definition field_emit_pairs :: "string \<Rightarrow> field_set \<Rightarrow> (ynode \<times> ynode) list" where
  "field_emit_pairs nm fs =
     (let reply = y_pair_insert [] ''field'' nm;
          reply = y_pair_insert_nf reply ''offt'' (fmt_d (sint (fs_offt fs)));
          reply = y_pair_insert_nf reply ''len'' (fmt_u (unat (fs_len fs)))
      in if fs_mask fs \<noteq> 0xff
         then y_pair_insert_nf reply ''mask'' (''0x'' @ fmt_x (unat (fs_mask fs)))
         else reply)"

definition field_emit :: "field \<Rightarrow> yout \<Rightarrow> yout option" where
  "field_emit fl out =
     (if out = None then Some out
      else do { nm \<leftarrow> fl_name fl;
                Some (y_reply out (YMap (field_emit_pairs nm (fl_set fl)))) })"

definition field_emit_all :: "'a field_state_scheme \<Rightarrow> yout \<Rightarrow> yout option" where
  "field_emit_all s out =
     js_loop (\<lambda>_. field_JS s) (\<lambda>v out. do { p \<leftarrow> v; fl \<leftarrow> field_heap s p; field_emit fl out }) out"

text \<open>The local variables of \<open>field_parse\<close>, and what it does with one pair.\<close>

record field_locals =
  lc_name :: "string option"
  lc_offt :: int
  lc_len :: int
  lc_mask :: int

definition field_parse_pair ::
  "string \<Rightarrow> ynode \<Rightarrow> nat \<Rightarrow> field_locals \<Rightarrow> (bool \<times> nat \<times> field_locals) option"
where
  "field_parse_pair keyname val e l =
     (let txt = y_txt val in
      if keyname = ''field'' \<or> keyname = ''f'' then Some (False, e, l\<lparr>lc_name := txt\<rparr>)
      else if keyname = ''offt'' \<or> keyname = ''o'' then
        do { t \<leftarrow> txt; let (v, er) = strtol t;
             if er \<noteq> E_OK then Some (True, e + 1, l\<lparr>lc_offt := v\<rparr>)
             else Some (False, e, l\<lparr>lc_offt := v\<rparr>) }
      else if keyname = ''len'' \<or> keyname = ''l'' then
        do { t \<leftarrow> txt; let (v, er) = strtol t;
             if er \<noteq> E_OK then Some (True, e + 1, l\<lparr>lc_len := v\<rparr>)
             else Some (False, e, l\<lparr>lc_len := v\<rparr>) }
      else if keyname = ''mask'' \<or> keyname = ''m'' then
        do { t \<leftarrow> txt; let (v, er) = strtol t;
             if er \<noteq> E_OK then Some (True, e + 1, l\<lparr>lc_mask := v\<rparr>)
             else Some (False, e, l\<lparr>lc_mask := v\<rparr>) }
      else Some (False, e + 1, l))"

definition field_parse ::
  "env \<Rightarrow> parse_mode \<Rightarrow> (ynode \<times> ynode) list \<Rightarrow> yout \<Rightarrow> 'a field_state_scheme \<Rightarrow>
   (nat \<times> yout \<times> 'a field_state_scheme) option"
where
  "field_parse E mode mapping out s =
     do { (died, e, l) \<leftarrow> y_for_map field_parse_pair mapping 0
            \<lparr>lc_name = Some '''', lc_offt = 0, lc_len = 0, lc_mask = 0\<rparr>;
          if died then Some (e, out, s)
          else case mode of
            PARSE_ADD \<Rightarrow>
              do { (fp, s) \<leftarrow> field_new E (lc_name l) (lc_offt l) (lc_len l) (lc_mask l) s;
                   case fp of
                     None \<Rightarrow> Some (e + 1, out, s)
                   | Some p \<Rightarrow>
                       do { fl \<leftarrow> field_heap s p; out \<leftarrow> field_emit fl out; Some (e, out, s) } }
          | PARSE_DEL \<Rightarrow>
              do { nm \<leftarrow> lc_name l;
                   case js_get (field_JS s) nm of
                     None \<Rightarrow> Some (e + 1, out, s)
                   | Some p \<Rightarrow>
                       do { fl \<leftarrow> field_heap s p;
                            if fl_refcnt fl \<noteq> 0 then Some (e + 1, out, s)
                            else do { out \<leftarrow> field_emit fl out;
                                      s \<leftarrow> field_free (Some p) s;
                                      Some (e, out, s) } } }
          | PARSE_PRN \<Rightarrow>
              do { nm \<leftarrow> lc_name l;
                   if nm = '''' then do { out \<leftarrow> field_emit_all s out; Some (e, out, s) }
                   else case js_get (field_JS s) nm of
                          None \<Rightarrow> Some (e, out, s)
                        | Some p \<Rightarrow>
                            do { fl \<leftarrow> field_heap s p; out \<leftarrow> field_emit fl out; Some (e, out, s) } }
          | PARSE_INVALID \<Rightarrow> Some (e + 1, out, s) }"

subsection \<open>The invariant of the component\<close>

text \<open>
  Every live field has an address that was handed out, carries no flags, and is what the
  table gives for its name; every entry of the table leads to a live field of that name.
\<close>

definition field_inv :: "'a field_state_scheme \<Rightarrow> bool" where
  "field_inv s \<longleftrightarrow>
     registered fl_name (field_JS s) (field_heap s) \<and>
     (\<forall>p fl. field_heap s p = Some fl \<longrightarrow>
        p < next_addr s \<and> fs_flags (fl_set fl) = 0 \<and>
        (\<exists>n. fl_name fl = Some n \<and> js_get (field_JS s) n = Some p))"

lemma field_inv_registered: "field_inv s \<Longrightarrow> registered fl_name (field_JS s) (field_heap s)"
  by (simp add: field_inv_def)

lemma field_inv_live:
  assumes "field_inv s" and "field_heap s p = Some fl"
  obtains n where "fl_name fl = Some n" "js_get (field_JS s) n = Some p" "p < next_addr s"
    "fs_flags (fl_set fl) = 0"
  using assms by (auto simp: field_inv_def)

lemma field_inv_get:
  assumes "field_inv s" and "js_get (field_JS s) n = Some p"
  obtains fl where "field_heap s p = Some fl" "fl_name fl = Some n"
  using reg.named_get[OF field_inv_registered[OF assms(1)] assms(2)] by auto

lemma field_inv_fresh [simp]: "field_inv s \<Longrightarrow> field_heap s (next_addr s) = None"
  by (cases "field_heap s (next_addr s)") (auto simp: field_inv_def)

lemma field_inv_next: "field_inv s \<Longrightarrow> field_inv (s\<lparr>next_addr := next_addr s + 1\<rparr>)"
  by (fastforce simp: field_inv_def)

text \<open>An update of a live field that keeps its name and its extent: taking and releasing.\<close>

lemma field_inv_refcnt:
  assumes "field_inv s" and "field_heap s p = Some fl"
  shows "field_inv (s\<lparr>field_heap := (field_heap s)(p \<mapsto> fl\<lparr>fl_refcnt := r\<rparr>)\<rparr>)"
  using assms reg.named_update[OF field_inv_registered[OF assms(1)] assms(2), of "fl\<lparr>fl_refcnt := r\<rparr>"]
  by (auto simp: field_inv_def)

subsection \<open>Creating a field\<close>

text \<open>Freeing the object under construction gives the state before it back.\<close>

lemma field_new_die_fresh:
  assumes "field_inv s" and "fl_name fl = Some n" and "fl_refcnt fl = 0"
    and "field_heap s p = None"
  shows "field_new_die (Some p) (s\<lparr>field_heap := (field_heap s)(p \<mapsto> fl)\<rparr>) = Some (None, s)"
proof -
  have "js_get (field_JS s) n \<noteq> Some p"
    using reg.get_fresh[OF field_inv_registered[OF assms(1)] assms(4)] .
  moreover have "(field_heap s)(p := None) = field_heap s"
    using assms(4) by auto
  ultimately show ?thesis
    using assms by (simp add: field_new_die_def field_free_def)
qed

text \<open>The arguments that \<open>field_new\<close> accepts, and the extent that it stores.\<close>

definition field_args_ok :: "env \<Rightarrow> string \<Rightarrow> int \<Rightarrow> int \<Rightarrow> int \<Rightarrow> bool" where
  "field_args_ok E nm offt len msk \<longleftrightarrow>
     snd (nstralloc E nm MAXLINELEN) \<noteq> E2BIG \<and>
     - (2 ^ 31) \<le> offt \<and> offt < 2 ^ 31 \<and> 0 \<le> len \<and> len < 2 ^ 16 \<and> 0 \<le> msk \<and> msk < 2 ^ 8"

definition field_set_of :: "int \<Rightarrow> int \<Rightarrow> int \<Rightarrow> field_set" where
  "field_set_of offt len msk =
     \<lparr>fs_offt = word_of_int offt, fs_len = word_of_int len,
      fs_mask = word_of_int (if msk = 0 then 255 else msk), fs_flags = 0\<rparr>"

lemma overflows_iff:
  "overflows_s 32 x \<longleftrightarrow> \<not> (- (2 ^ 31) \<le> x \<and> x < 2 ^ 31)"
  "overflows_u 16 x \<longleftrightarrow> \<not> (0 \<le> x \<and> x < 2 ^ 16)"
  "overflows_u 8 (if m = 0 then 255 else m) \<longleftrightarrow> \<not> (0 \<le> m \<and> m < 2 ^ 8)"
  by (auto simp: overflows_s_def overflows_u_def)

lemma field_new_eq:
  assumes E: "nstralloc_ok E" and I: "field_inv s"
  shows "field_new E name offt len msk s =
    (case name of
       None \<Rightarrow> Some (None, s)
     | Some nm \<Rightarrow>
         if js_get (field_JS s) nm \<noteq> None then Some (None, s)
         else if calloc_ok E (next_addr s) \<and> field_args_ok E nm offt len msk
         then Some (Some (next_addr s),
                s\<lparr>next_addr := next_addr s + 1,
                  field_heap := (field_heap s)(next_addr s \<mapsto>
                    \<lparr>fl_name = Some nm, fl_set = field_set_of offt len msk, fl_refcnt = 0\<rparr>),
                  field_JS := snd (js_insert (field_JS s) nm (Some (next_addr s)) True)\<rparr>)
         else Some (None, s\<lparr>next_addr := next_addr s + 1\<rparr>))"
proof (cases name)
  case None
  then show ?thesis by (simp add: field_new_def field_new_die_def field_free_def)
next
  case (Some nm)
  let ?p = "next_addr s" and ?s1 = "s\<lparr>next_addr := next_addr s + 1\<rparr>"
  have I1: "field_inv ?s1" using I by (rule field_inv_next)
  have fresh: "field_heap ?s1 ?p = None" using I by simp
  note die = field_new_die_fresh[OF I1 _ _ fresh, simplified]
  have die0: "field_new_die None t = Some (None, t)" for t :: "'a field_state_scheme"
    by (simp add: field_new_die_def field_free_def)
  show ?thesis
  proof (cases "js_get (field_JS s) nm = None \<and> calloc_ok E ?p")
    case False
    then show ?thesis
      by (auto simp: Some field_new_def die0 calloc_def Let_def)
  next
    case True
    show ?thesis
    proof (rule nstralloc_cases[OF E, of nm MAXLINELEN])
      fix t
      assume "nstralloc E nm MAXLINELEN = (Some t, E2BIG)"
      with True show ?thesis
        by (simp add: Some field_new_def calloc_def die field_zero_def field_args_ok_def)
    next
      fix e
      assume cp: "nstralloc E nm MAXLINELEN = (Some nm, e)" and e: "e \<noteq> E2BIG"
      have rc: "fst (js_insert (field_JS s) nm (Some ?p) True) = 0"
        using I by (simp add: js.ins_fst_0 field_inv_def registered_def)
      then obtain js' where ins: "js_insert (field_JS s) nm (Some ?p) True = (0, js')"
        by (metis prod.collapse)
      consider (r1) "overflows_s 32 offt" | (r2) "\<not> overflows_s 32 offt" "overflows_u 16 len"
        | (r3) "\<not> overflows_s 32 offt" "\<not> overflows_u 16 len" "overflows_u 8 (if msk = 0 then 255 else msk)"
        | (ok) "\<not> overflows_s 32 offt" "\<not> overflows_u 16 len" "\<not> overflows_u 8 (if msk = 0 then 255 else msk)"
        by blast
      then show ?thesis
        using True cp e ins
        by cases (auto simp: Some field_new_def calloc_def die field_zero_def Let_def
             field_args_ok_def field_set_of_def overflows_iff)
    qed
  qed
qed

lemma field_new_inv:
  assumes E: "nstralloc_ok E" and I: "field_inv s"
    and new: "field_new E name offt len msk s = Some (r, s')"
  shows "field_inv s'"
proof (cases r)
  case None
  with new field_inv_next[OF I] I show ?thesis
    by (auto simp: field_new_eq[OF E I] split: option.splits if_splits)
next
  case (Some p)
  let ?p = "next_addr s"
  from new Some obtain nm where nm: "name = Some nm" "js_get (field_JS s) nm = None"
    and s': "s' = s\<lparr>next_addr := ?p + 1,
                  field_heap := (field_heap s)(?p \<mapsto>
                    \<lparr>fl_name = Some nm, fl_set = field_set_of offt len msk, fl_refcnt = 0\<rparr>),
                  field_JS := snd (js_insert (field_JS s) nm (Some ?p) True)\<rparr>"
    by (auto simp: field_new_eq[OF E I] split: option.splits if_splits)
  let ?fl = "\<lparr>fl_name = Some nm, fl_set = field_set_of offt len msk, fl_refcnt = 0\<rparr>"
  have "registered fl_name (field_JS s') (field_heap s')"
    unfolding s' using reg.named_add[OF field_inv_registered[OF I], of ?fl nm ?p True] nm I by simp
  moreover have "js_get (field_JS s') = (js_get (field_JS s))(nm \<mapsto> ?p)"
    using I by (simp add: s' js.ins_get field_inv_def registered_def)
  moreover have "fs_flags (fl_set ?fl) = 0" by (simp add: field_set_of_def)
  moreover have "q < next_addr s' \<and> fs_flags (fl_set fl) = 0 \<and>
      (\<exists>n. fl_name fl = Some n \<and> ((js_get (field_JS s))(nm \<mapsto> ?p)) n = Some q)"
    if q: "field_heap s q = Some fl" "q \<noteq> ?p" for q fl
  proof -
    obtain n where "fl_name fl = Some n" "js_get (field_JS s) n = Some q" "q < ?p" "fs_flags (fl_set fl) = 0"
      using field_inv_live[OF I q(1)] .
    with nm(2) show ?thesis by (intro conjI exI[of _ n]) (auto simp: s')
  qed
  ultimately show ?thesis
    by (auto simp: field_inv_def s')
qed

subsection \<open>Taking, releasing and freeing\<close>

lemma field_get_eq:
  assumes "field_inv s"
  shows "field_get nm s =
    (case js_get (field_JS s) nm of
       None \<Rightarrow> Some (None, s)
     | Some p \<Rightarrow> Some (Some p, s\<lparr>field_heap := (field_heap s)(p \<mapsto>
         (the (field_heap s p))\<lparr>fl_refcnt := refcnt_take (fl_refcnt (the (field_heap s p)))\<rparr>)\<rparr>))"
  using assms by (auto simp: field_get_def split: option.splits elim: field_inv_get)

lemma field_get_inv: "field_inv s \<Longrightarrow> field_get nm s = Some (r, s') \<Longrightarrow> field_inv s'"
  by (auto simp: field_get_def bind_eq_Some_conv intro: field_inv_refcnt split: option.splits)

lemma field_release_inv: "field_inv s \<Longrightarrow> field_release fp s = Some s' \<Longrightarrow> field_inv s'"
  by (auto simp: field_release_def bind_eq_Some_conv intro: field_inv_refcnt split: option.splits)

text \<open>A field is freed only when no reference to it is left; then its name is free again.\<close>

lemma field_free_eq:
  assumes "field_inv s" and "field_heap s p = Some fl"
  shows "field_free (Some p) s =
    (if fl_refcnt fl \<noteq> 0 then Some s
     else Some (s\<lparr>field_JS := js_delete (field_JS s) (the (fl_name fl)),
                 field_heap := (field_heap s)(p := None)\<rparr>))"
  using assms by (auto simp: field_free_def elim: field_inv_live)

lemma field_free_inv:
  assumes I: "field_inv s" and "field_free fp s = Some s'"
  shows "field_inv s'"
proof (cases fp)
  case None
  with assms show ?thesis by (simp add: field_free_def)
next
  case (Some p)
  with assms(2) obtain fl where fl: "field_heap s p = Some fl"
    by (auto simp: field_free_def bind_eq_Some_conv)
  obtain n where n: "fl_name fl = Some n" "js_get (field_JS s) n = Some p"
    using field_inv_live[OF I fl] by metis
  show ?thesis
  proof (cases "fl_refcnt fl = 0")
    case False
    with assms Some fl show ?thesis by (simp add: field_free_eq)
  next
    case True
    then have s': "s' = s\<lparr>field_JS := js_delete (field_JS s) n, field_heap := (field_heap s)(p := None)\<rparr>"
      using assms(2) Some n by (simp add: field_free_eq[OF I fl])
    have "registered fl_name (field_JS s') (field_heap s')"
      using reg.named_unlink[OF field_inv_registered[OF I] fl n(1)] n(2) by (simp add: s')
    moreover have "js_get (js_delete (field_JS s) n) = (js_get (field_JS s))(n := None)"
      using I by (simp add: js.del_get field_inv_def registered_def)
    moreover have "q < next_addr s \<and> fs_flags (fl_set fl') = 0 \<and>
        (\<exists>n'. fl_name fl' = Some n' \<and> ((js_get (field_JS s))(n := None)) n' = Some q)"
      if q: "field_heap s q = Some fl'" "q \<noteq> p" for q fl'
    proof -
      obtain n' where "fl_name fl' = Some n'" "js_get (field_JS s) n' = Some q" "q < next_addr s"
          "fs_flags (fl_set fl') = 0"
        using field_inv_live[OF I q(1)] .
      with n(2) q(2) show ?thesis by (intro conjI exI[of _ n']) auto
    qed
    ultimately show ?thesis
      by (auto simp: field_inv_def s')
  qed
qed

subsection \<open>What the operations do\<close>

text \<open>Without memory for its name a field cannot be given up: \<open>field_free\<close> looks up the name NULL.\<close>

definition field_name_lost :: "env \<Rightarrow> string option \<Rightarrow> 'a field_state_scheme \<Rightarrow> bool" where
  "field_name_lost E name s \<longleftrightarrow>
     (\<exists>nm. name = Some nm \<and> js_get (field_JS s) nm = None \<and> calloc_ok E (next_addr s) \<and> \<not> copied E nm MAXLINELEN)"

lemma field_new_lost: "field_name_lost E name s \<Longrightarrow> field_new E name offt len msk s = None"
  by (auto simp: field_name_lost_def copied_def field_new_def calloc_def field_new_die_def field_free_def field_zero_def
      Let_def split: prod.splits)

lemma field_new_granting:
  assumes "\<not> field_name_lost E name s"
  shows "field_new (granting E) name offt len msk s = field_new E name offt len msk s"
proof (cases "\<exists>nm. name = Some nm \<and> js_get (field_JS s) nm = None \<and> calloc_ok E (next_addr s)")
  case True
  with assms obtain nm where "name = Some nm" "copied E nm MAXLINELEN" by (auto simp: field_name_lost_def)
  then show ?thesis by (simp add: field_new_def calloc_def)
next
  case False
  then show ?thesis by (auto simp: field_new_def calloc_def split: option.split)
qed

text \<open>
  C26: creating a field. For every name and all numbers, when \<open>nstralloc\<close> has memory for the name,
  \<open>field_new\<close> returns. It makes a field
  exactly when a name is given that is not taken, memory is granted, the name is short enough
  and the numbers fit their types; the new field then has the extent asked for (a mask of 0
  meaning 0xff), no references, and its name leads to it. Otherwise it returns NULL and no
  field and no name has changed. The remaining path, that \<open>nstralloc\<close> is reached and returns
  NULL, is not survived: \<open>field_free\<close> then looks up a name that is NULL.
\<close>

theorem field_new_correct:
  assumes "nstralloc_spec E" and "field_inv s"
  shows "if field_name_lost E name s then field_new E name offt len msk s = None
   else \<exists>r s'. field_new E name offt len msk s = Some (r, s') \<and> field_inv s' \<and>
    (r \<noteq> None \<longleftrightarrow> (\<exists>nm. name = Some nm \<and> js_get (field_JS s) nm = None \<and>
                        calloc_ok E (next_addr s) \<and> field_args_ok E nm offt len msk)) \<and>
    (case r of
       None \<Rightarrow> field_heap s' = field_heap s \<and> field_JS s' = field_JS s
     | Some p \<Rightarrow> p = next_addr s \<and>
         field_heap s' = (field_heap s)(p \<mapsto>
           \<lparr>fl_name = name, fl_set = field_set_of offt len msk, fl_refcnt = 0\<rparr>) \<and>
         js_get (field_JS s') = (js_get (field_JS s))(the name \<mapsto> p))"
proof (cases "field_name_lost E name s")
  case True
  then show ?thesis by (simp add: field_new_lost)
next
  case False
  note G = nstralloc_ok_granting[OF assms(1)]
  note eq = field_new_eq[OF G assms(2), of name offt len msk, unfolded field_new_granting[OF False]]
  have args: "field_args_ok (granting E) nm offt len msk = field_args_ok E nm offt len msk"
    if "name = Some nm" "js_get (field_JS s) nm = None" "calloc_ok E (next_addr s)" for nm
    using False that by (simp add: field_name_lost_def field_args_ok_def)
  have "\<exists>x. field_new E name offt len msk s = Some x"
    by (simp add: eq split: option.split)
  then obtain r s' where rs: "field_new E name offt len msk s = Some (r, s')" by auto
  moreover have "field_inv s'"
    using field_new_inv[OF G assms(2), of name offt len msk r s'] rs unfolding field_new_granting[OF False] by blast
  moreover have "judy_ok (field_JS s)"
    using assms(2) by (simp add: field_inv_def registered_def)
  ultimately show ?thesis
    using rs False args by (auto simp: eq js.ins_get split: option.splits if_splits)
qed

definition field_state0 :: field_state where
  "field_state0 = \<lparr>next_addr = 1, field_heap = Map.empty, field_JS = []\<rparr>"

lemma field_inv0 [simp]: "field_inv field_state0"
  by (simp add: field_state0_def field_inv_def registered_def js_get_def)

theorem field_new_correct_witness:
  "\<exists>r s'. field_new env0 (Some ''ttl'') 22 1 0 field_state0 = Some (r, s') \<and> r \<noteq> None"
proof -
  have "field_args_ok env0 ''ttl'' 22 1 0"
    by (simp add: field_args_ok_def nstralloc_ref_def MAXLINELEN_def)
  moreover have "js_get (field_JS field_state0) ''ttl'' = None"
    by (simp add: field_state0_def js_get_def)
  moreover have "calloc_ok env0 (next_addr field_state0)" by (simp add: field_state0_def)
  moreover have "\<exists>r s'. field_new env0 (Some ''ttl'') 22 1 0 field_state0 = Some (r, s') \<and>
      (r \<noteq> None \<longleftrightarrow> (\<exists>nm. Some ''ttl'' = Some nm \<and> js_get (field_JS field_state0) nm = None \<and>
        calloc_ok env0 (next_addr field_state0) \<and> field_args_ok env0 nm 22 1 0))"
    using field_new_correct[OF nstralloc_env0(1) field_inv0, of "Some ''ttl''" 22 1 0]
    by (simp only: field_name_lost_def nstralloc_env0 simp_thms if_False) blast
  ultimately show ?thesis by blast
qed

lemma field_set_of_parts:
  "fs_flags fs = 0 \<Longrightarrow> fs_mask fs \<noteq> 0 \<Longrightarrow>
     field_set_of (sint (fs_offt fs)) (uint (fs_len fs)) (if fs_mask fs = 255 then 0 else uint (fs_mask fs)) = fs"
  by (cases fs) (auto simp: field_set_of_def uint_0_iff)

lemma field_args_ok_parts:
  "nstralloc_ok E \<Longrightarrow> length nm < MAXLINELEN \<Longrightarrow>
     field_args_ok E nm (sint (o32 :: u32)) (uint (l16 :: u16)) (if m8 = 255 then 0 else uint (m8 :: u8))"
  using sint_lt[of o32] sint_ge[of o32] uint_lt2p[of l16] uint_lt2p[of m8]
  by (simp add: field_args_ok_def nstralloc_fits)

lemma field_parse_emitted:
  "y_for_map field_parse_pair (field_emit_pairs nm fs) 0 \<lparr>lc_name = x, lc_offt = 0, lc_len = 0, lc_mask = 0\<rparr> =
     Some (False, 0, \<lparr>lc_name = Some nm, lc_offt = sint (fs_offt fs), lc_len = uint (fs_len fs),
       lc_mask = (if fs_mask fs = 255 then 0 else uint (fs_mask fs))\<rparr>)"
proof -
  have "strtol (take (MAXLINELEN - 1) (fmt_d (sint (fs_offt fs)))) = (sint (fs_offt fs), E_OK)"
    using sint_lt[of "fs_offt fs"] sint_ge[of "fs_offt fs"] by (intro strtol_fmt_d) simp_all
  moreover have "strtol (take (MAXLINELEN - 1) (fmt_u (unat (fs_len fs)))) = (uint (fs_len fs), E_OK)"
    using unsigned_less[of "fs_len fs", where 'a = nat] by (subst strtol_fmt_u) simp_all
  moreover have "strtol (take (MAXLINELEN - 1) (''0x'' @ fmt_x (unat (fs_mask fs)))) = (uint (fs_mask fs), E_OK)"
    using unsigned_less[of "fs_mask fs", where 'a = nat] by (subst strtol_hex) simp_all
  ultimately show ?thesis
    by (auto simp: field_emit_pairs_def y_pair_insert_def y_pair_insert_nf_def field_parse_pair_def Let_def)
qed

text \<open>
  C27: a printed field is valid input that means the same field. Parsing, in \<open>add\<close> mode, the
  mapping that \<open>field_emit\<close> writes for a field with any offset, length and non-zero mask
  counts no error, makes a field with exactly that extent under that name, and replies with
  the same mapping again.
\<close>

theorem field_emit_parse:
  assumes "nstralloc_ok E" and "field_inv s" and "calloc_ok E (next_addr s)"
    and "js_get (field_JS s) nm = None" and "length nm < MAXLINELEN"
    and "fs_flags fs = 0" and "fs_mask fs \<noteq> 0"
  shows "\<exists>s'. field_parse E PARSE_ADD (field_emit_pairs nm fs) out s =
      Some (0, y_reply out (YMap (field_emit_pairs nm fs)), s') \<and>
    js_get (field_JS s') nm = Some (next_addr s) \<and>
    field_heap s' (next_addr s) = Some \<lparr>fl_name = Some nm, fl_set = fs, fl_refcnt = 0\<rparr>"
proof -
  have "judy_ok (field_JS s)"
    using assms(2) by (simp add: field_inv_def registered_def)
  then show ?thesis
    using assms
    by (simp add: field_parse_def field_parse_emitted field_new_eq field_args_ok_parts
        field_set_of_parts field_emit_def y_reply_def js.ins_get)
qed

theorem field_emit_parse_witness:
  "\<exists>s'. field_parse env0 PARSE_ADD (field_emit_pairs ''end match'' (field_set_of (-4) 4 64)) (Some []) field_state0 =
      Some (0, Some [YMap (field_emit_pairs ''end match'' (field_set_of (-4) 4 64))], s') \<and>
    js_get (field_JS s') ''end match'' = Some 1"
proof -
  have "js_get (field_JS field_state0) ''end match'' = None" "next_addr field_state0 = 1"
    by (simp_all add: field_state0_def js_get_def)
  then show ?thesis
    using field_emit_parse[of env0 field_state0 "''end match''" "field_set_of (-4) 4 64" "Some []"]
    by (auto simp: MAXLINELEN_def field_set_of_def y_reply_def)
qed

end
