(* ===== verification/Textlib.thy ===== *)
theory Textlib
  imports Clib
begin

text \<open>
  The text matching of the C library that src/value.c uses: \<open>regexec\<close> on patterns that are
  anchored at both ends and compiled with \<open>REG_ICASE\<close> (so it decides membership of the
  whole string), \<open>inet_pton\<close> for IPv4 and IPv6, and the \<open>%hhx\<close> conversions of
  \<open>sscanf\<close>. The matcher works by derivatives; \<open>rx_match_iff\<close> states that it decides the
  language of the expression.
\<close>

subsection \<open>Regular expressions\<close>

datatype rx =
    Rx_none
  | Rx_eps
  | Rx_set "char list"
  | Rx_seq rx rx
  | Rx_alt rx rx
  | Rx_star rx

definition tolower :: "char \<Rightarrow> char" where
  "tolower c = (let n = (of_char c :: int) in if 65 \<le> n \<and> n \<le> 90 then char_of (n + 32) else c)"

text \<open>A bracket expression under \<open>REG_ICASE\<close>.\<close>

definition rx_in :: "char \<Rightarrow> char list \<Rightarrow> bool" where
  "rx_in c cs \<longleftrightarrow> tolower c \<in> set (map tolower cs)"

fun rx_nullable :: "rx \<Rightarrow> bool" where
  "rx_nullable Rx_none = False"
| "rx_nullable Rx_eps = True"
| "rx_nullable (Rx_set cs) = False"
| "rx_nullable (Rx_seq r s) = (rx_nullable r \<and> rx_nullable s)"
| "rx_nullable (Rx_alt r s) = (rx_nullable r \<or> rx_nullable s)"
| "rx_nullable (Rx_star r) = True"

text \<open>
  Sequences and alternatives, dropping the parts that can match nothing. Alternatives are lists
  without repetitions, and never the first part of a sequence, so that derivatives stay small.
\<close>

fun rx_has :: "rx \<Rightarrow> rx \<Rightarrow> bool" where
  "rx_has r (Rx_alt a b) = (r = a \<or> rx_has r b)"
| "rx_has r s = (r = s)"

fun rx_alt :: "rx \<Rightarrow> rx \<Rightarrow> rx" where
  "rx_alt Rx_none s = s"
| "rx_alt (Rx_alt a b) s = rx_alt a (rx_alt b s)"
| "rx_alt r s = (if s = Rx_none then r else if rx_has r s then s else Rx_alt r s)"

fun rx_seq :: "rx \<Rightarrow> rx \<Rightarrow> rx" where
  "rx_seq Rx_none s = Rx_none"
| "rx_seq Rx_eps s = s"
| "rx_seq (Rx_alt a b) s = rx_alt (rx_seq a s) (rx_seq b s)"
| "rx_seq r s = Rx_seq r s"

fun rx_deriv :: "rx \<Rightarrow> char \<Rightarrow> rx" where
  "rx_deriv Rx_none c = Rx_none"
| "rx_deriv Rx_eps c = Rx_none"
| "rx_deriv (Rx_set cs) c = (if rx_in c cs then Rx_eps else Rx_none)"
| "rx_deriv (Rx_seq r s) c =
     (let d = rx_seq (rx_deriv r c) s
      in if rx_nullable r then rx_alt d (rx_deriv s c) else d)"
| "rx_deriv (Rx_alt r s) c = rx_alt (rx_deriv r c) (rx_deriv s c)"
| "rx_deriv (Rx_star r) c = rx_seq (rx_deriv r c) (Rx_star r)"

definition rx_match :: "rx \<Rightarrow> string \<Rightarrow> bool" where
  "rx_match r s = rx_nullable (foldl rx_deriv r s)"

text \<open>\<open>r?\<close>, \<open>r+\<close>, \<open>r{n}\<close> and \<open>r{n,m}\<close>.\<close>

definition rx_opt :: "rx \<Rightarrow> rx" where
  "rx_opt r = Rx_alt Rx_eps r"

definition rx_plus :: "rx \<Rightarrow> rx" where
  "rx_plus r = Rx_seq r (Rx_star r)"

fun rx_times :: "nat \<Rightarrow> rx \<Rightarrow> rx" where
  "rx_times 0 r = Rx_eps"
| "rx_times (Suc n) r = Rx_seq r (rx_times n r)"

fun rx_upto :: "nat \<Rightarrow> rx \<Rightarrow> rx" where
  "rx_upto 0 r = Rx_eps"
| "rx_upto (Suc n) r = Rx_alt Rx_eps (Rx_seq r (rx_upto n r))"

definition rx_rep :: "nat \<Rightarrow> nat \<Rightarrow> rx \<Rightarrow> rx" where
  "rx_rep n m r = Rx_seq (rx_times n r) (rx_upto (m - n) r)"

text \<open>The language of an expression.\<close>

inductive_set star_lang :: "string set \<Rightarrow> string set" for L where
  star_Nil: "[] \<in> star_lang L"
| star_app: "u \<in> L \<Longrightarrow> v \<in> star_lang L \<Longrightarrow> u @ v \<in> star_lang L"

fun rx_lang :: "rx \<Rightarrow> string set" where
  "rx_lang Rx_none = {}"
| "rx_lang Rx_eps = {[]}"
| "rx_lang (Rx_set cs) = {[c] | c. rx_in c cs}"
| "rx_lang (Rx_seq r s) = {u @ v | u v. u \<in> rx_lang r \<and> v \<in> rx_lang s}"
| "rx_lang (Rx_alt r s) = rx_lang r \<union> rx_lang s"
| "rx_lang (Rx_star r) = star_lang (rx_lang r)"

lemma rx_has_lang: "rx_has r s \<Longrightarrow> rx_lang r \<subseteq> rx_lang s"
  by (induction r s rule: rx_has.induct) auto

lemma rx_lang_add:
  "rx_lang (if s = Rx_none then r else if rx_has r s then s else Rx_alt r s) = rx_lang r \<union> rx_lang s"
  using rx_has_lang[of r s] by auto

lemma rx_lang_alt [simp]: "rx_lang (rx_alt r s) = rx_lang (Rx_alt r s)"
proof (induction r s rule: rx_alt.induct)
  case (2 a b s)
  then show ?case by (simp add: Un_assoc)
qed (simp_all only: rx_alt.simps rx_lang_add rx_lang.simps(1,5) Un_empty_left)

lemma rx_lang_seq [simp]: "rx_lang (rx_seq r s) = rx_lang (Rx_seq r s)"
  by (induction r s rule: rx_seq.induct) auto

lemma rx_nullable_iff: "rx_nullable r \<longleftrightarrow> [] \<in> rx_lang r"
  by (induction r) (auto intro: star_Nil)

lemma star_lang_Cons:
  "c # w \<in> star_lang L \<longleftrightarrow> (\<exists>u v. w = u @ v \<and> c # u \<in> L \<and> v \<in> star_lang L)" (is "?l = ?r")
proof
  have "x \<in> star_lang L \<Longrightarrow> x = c # w \<Longrightarrow> ?r" for x
    by (induction rule: star_lang.induct) (auto simp: append_eq_Cons_conv)
  then show "?l \<Longrightarrow> ?r" by blast
  show "?r \<Longrightarrow> ?l"
    using star_app[of "c # u" L v for u v] by auto
qed

lemma rx_deriv_iff: "w \<in> rx_lang (rx_deriv r c) \<longleftrightarrow> c # w \<in> rx_lang r"
proof (induction r arbitrary: w)
  case (Rx_seq r s)
  have "c # w \<in> rx_lang (Rx_seq r s) \<longleftrightarrow>
      (\<exists>u v. w = u @ v \<and> c # u \<in> rx_lang r \<and> v \<in> rx_lang s) \<or>
      [] \<in> rx_lang r \<and> c # w \<in> rx_lang s"
    by (auto simp: Cons_eq_append_conv)
  with Rx_seq show ?case by (auto simp: rx_nullable_iff Let_def)
next
  case (Rx_star r)
  then show ?case by (auto simp: star_lang_Cons)
qed auto

lemma rx_match_iff: "rx_match r s \<longleftrightarrow> s \<in> rx_lang r"
  unfolding rx_match_def
  by (induction s arbitrary: r) (auto simp: rx_nullable_iff rx_deriv_iff)

text \<open>Strings of characters of one class.\<close>

lemma rx_seqI: "u \<in> rx_lang r \<Longrightarrow> v \<in> rx_lang s \<Longrightarrow> u @ v \<in> rx_lang (Rx_seq r s)"
  by auto

lemma rx_seq_ConsI: "rx_in c cs \<Longrightarrow> v \<in> rx_lang s \<Longrightarrow> c # v \<in> rx_lang (Rx_seq (Rx_set cs) s)"
  using rx_seqI[of "[c]" "Rx_set cs" v s] by simp

lemma star_lang_all: "(\<forall>c \<in> set s. rx_in c cs) \<Longrightarrow> s \<in> star_lang (rx_lang (Rx_set cs))"
proof (induction s)
  case (Cons c s)
  then show ?case using star_app[of "[c]" "rx_lang (Rx_set cs)" s] by simp
qed (simp add: star_Nil)

lemma rx_plus_all:
  assumes "s \<noteq> []" and "\<forall>c \<in> set s. rx_in c cs"
  shows "s \<in> rx_lang (rx_plus (Rx_set cs))"
proof (cases s)
  case (Cons c u)
  with assms have "rx_in c cs" "u \<in> rx_lang (Rx_star (Rx_set cs))"
    using star_lang_all[of u cs] by simp_all
  then show ?thesis unfolding Cons rx_plus_def by (rule rx_seq_ConsI)
qed (use assms in simp)

lemma rx_upto_all:
  assumes "length s \<le> n" and "\<forall>c \<in> set s. rx_in c cs"
  shows "s \<in> rx_lang (rx_upto n (Rx_set cs))"
  using assms
proof (induction n arbitrary: s)
  case (Suc n)
  show ?case
  proof (cases s)
    case (Cons c u)
    with Suc have "rx_in c cs" "u \<in> rx_lang (rx_upto n (Rx_set cs))" by simp_all
    then have "c # u \<in> rx_lang (Rx_seq (Rx_set cs) (rx_upto n (Rx_set cs)))" by (rule rx_seq_ConsI)
    then show ?thesis unfolding Cons rx_upto.simps rx_lang.simps(5) by (rule UnI2)
  qed simp
qed simp

lemma rx_rep1_all:
  assumes "s \<noteq> []" and "length s \<le> n" and "\<forall>c \<in> set s. rx_in c cs"
  shows "s \<in> rx_lang (rx_rep 1 n (Rx_set cs))"
proof (cases s)
  case (Cons c u)
  with assms have "[c] \<in> rx_lang (rx_times 1 (Rx_set cs))" "u \<in> rx_lang (rx_upto (n - 1) (Rx_set cs))"
    using rx_upto_all[of u "n - 1" cs] by simp_all
  then have "[c] @ u \<in> rx_lang (rx_rep 1 n (Rx_set cs))" unfolding rx_rep_def by (rule rx_seqI)
  then show ?thesis by (simp add: Cons)
qed (use assms in simp)

subsection \<open>inet_pton\<close>

text \<open>
  glibc's IPv4 parser: four decimal numbers up to 255 with single dots between them and no
  leading zeros. \<open>done\<close> are the octets finished, \<open>cur\<close> is the one being read.
\<close>

fun pton4 :: "byte list \<Rightarrow> nat option \<Rightarrow> string \<Rightarrow> byte list option" where
  "pton4 octs cur [] =
     (case cur of
        None \<Rightarrow> None
      | Some v \<Rightarrow> if length octs = 3 then Some (octs @ [of_nat v]) else None)"
| "pton4 octs cur (c # cs) =
     (let d = digit_value c
      in if d \<noteq> None \<and> the d < 10
         then case cur of
                None \<Rightarrow> if 4 \<le> length octs then None else pton4 octs (Some (the d)) cs
              | Some v \<Rightarrow> if v = 0 \<or> 255 < v * 10 + the d then None
                          else pton4 octs (Some (v * 10 + the d)) cs
         else if c = CHR ''.''
         then case cur of
                None \<Rightarrow> None
              | Some v \<Rightarrow> if length octs = 3 then None else pton4 (octs @ [of_nat v]) None cs
         else None)"

definition inet_pton4 :: "string \<Rightarrow> byte list option" where
  "inet_pton4 = pton4 [] None"

text \<open>
  glibc's IPv6 parser. \<open>out\<close> are the bytes written, \<open>colonp\<close> the place of a double colon
  among them, \<open>val\<close> the value of the digits of the current group and \<open>seen\<close> how many there
  were. The form that ends in a dotted IPv4 address is left out: a string with a dot never
  reaches this function in the program.
\<close>

definition pton6_put :: "byte list \<Rightarrow> nat \<Rightarrow> byte list option" where
  "pton6_put out val =
     (if 16 < length out + 2 then None else Some (out @ [of_nat (val div 256), of_nat (val mod 256)]))"

definition pton6_end :: "byte list \<Rightarrow> nat option \<Rightarrow> byte list option" where
  "pton6_end out colonp =
     (case colonp of
        Some i \<Rightarrow> if length out = 16 then None
                  else Some (take i out @ replicate (16 - length out) 0 @ drop i out)
      | None \<Rightarrow> if length out = 16 then Some out else None)"

fun pton6 :: "byte list \<Rightarrow> nat option \<Rightarrow> nat \<Rightarrow> nat \<Rightarrow> string \<Rightarrow> byte list option" where
  "pton6 out colonp val seen [] =
     (if 0 < seen then do { out \<leftarrow> pton6_put out val; pton6_end out colonp } else pton6_end out colonp)"
| "pton6 out colonp val seen (c # cs) =
     (case digit_value c of
        Some d \<Rightarrow> if seen = 4 then None else pton6 out colonp (val * 16 + d) (seen + 1) cs
      | None \<Rightarrow>
          if c = CHR '':''
          then if seen = 0
               then if colonp \<noteq> None then None else pton6 out (Some (length out)) val seen cs
               else if cs = [] then None
               else do { out \<leftarrow> pton6_put out val; pton6 out colonp 0 0 cs }
          else None)"

definition inet_pton6 :: "string \<Rightarrow> byte list option" where
  "inet_pton6 s =
     (case s of
        [] \<Rightarrow> None
      | c # cs \<Rightarrow>
          if c = CHR '':''
          then (case cs of [] \<Rightarrow> None | d # _ \<Rightarrow> if d \<noteq> CHR '':'' then None else pton6 [] None 0 0 cs)
          else pton6 [] None 0 0 s)"

lemma length_pton6:
  "pton6 out colonp val seen s = Some bs \<Longrightarrow> length out \<le> 16 \<Longrightarrow>
     (\<forall>i. colonp = Some i \<longrightarrow> i \<le> length out) \<Longrightarrow> length bs = 16"
proof (induction out colonp val seen s rule: pton6.induct)
  case (1 out colonp val seen)
  then show ?case
    by (fastforce simp: pton6_end_def pton6_put_def bind_eq_Some_conv split: if_splits option.splits)
next
  case (2 out colonp val seen c cs)
  show ?case
  proof (cases "digit_value c")
    case None
    with 2 show ?thesis
      by (fastforce simp: pton6_put_def bind_eq_Some_conv split: if_splits)
  next
    case (Some d)
    with 2 show ?thesis by (auto split: if_splits)
  qed
qed

lemma length_inet_pton6: "inet_pton6 s = Some bs \<Longrightarrow> length bs = 16"
  unfolding inet_pton6_def
  by (auto simp del: pton6.simps dest!: length_pton6 split: list.splits if_splits)

lemma length_pton4: "pton4 octs cur s = Some bs \<Longrightarrow> length octs \<le> 3 \<or> cur = None \<Longrightarrow> length bs = 4"
proof (induction octs cur s rule: pton4.induct)
  case (1 octs cur)
  then show ?case by (auto split: if_splits option.splits)
next
  case (2 octs cur c cs)
  consider (dig) d where "digit_value c = Some d" "d < 10" | (dot) "c = CHR ''.''" "digit_value c = None"
    | (other) "c \<noteq> CHR ''.''" "\<not> (\<exists>d. digit_value c = Some d \<and> d < 10)"
    by (cases "c = CHR ''.''") (auto simp: digit_value_def)
  then show ?case
  proof cases
    case dig
    with 2 show ?thesis by (cases cur) (auto split: if_splits)
  next
    case dot
    with 2(3,4,5) show ?thesis by (cases cur) (auto split: if_splits)
  next
    case other
    with 2(4) show ?thesis by (auto simp: Let_def split: if_splits)
  qed
qed

lemma length_inet_pton4: "inet_pton4 s = Some bs \<Longrightarrow> length bs = 4"
  unfolding inet_pton4_def by (rule length_pton4) auto

subsection \<open>sscanf\<close>

text \<open>
  One conversion \<open>%hhx\<close>: white space, a sign and \<open>0x\<close> may come first, at least one digit
  must follow; the value is cut to 8 bits.
\<close>

definition scan_hhx :: "string \<Rightarrow> (byte \<times> string) option" where
  "scan_hhx s =
     (let (neg, s) = scan_sign (dropWhile isspace s);
          s = (if take 2 s = ''0x'' \<or> take 2 s = ''0X'' then drop 2 s else s);
          ds = takeWhile (\<lambda>c. digit_value c \<noteq> None) s;
          v = (of_nat (scan_num 16 0 ds) :: byte)
      in if ds = [] then None else Some (if neg then - v else v, drop (length ds) s))"

text \<open>\<open>%hhx:%hhx:...\<close> with \<open>n\<close> conversions: the bytes of those that succeed.\<close>

fun scan_hhx_colons :: "nat \<Rightarrow> string \<Rightarrow> byte list" where
  "scan_hhx_colons 0 s = []"
| "scan_hhx_colons (Suc n) s =
     (case scan_hhx s of
        None \<Rightarrow> []
      | Some (b, s) \<Rightarrow>
          b # (case s of
                 c # s' \<Rightarrow> if c = CHR '':'' then scan_hhx_colons n s' else []
               | [] \<Rightarrow> []))"

lemma length_scan_hhx_colons: "length (scan_hhx_colons n s) \<le> n"
  by (induction n s rule: scan_hhx_colons.induct) (auto split: option.splits list.splits)

end
