(* ===== verification/Regcomp.thy ===== *)
theory Regcomp
  imports Textlib
begin

text \<open>
  \<open>regcomp\<close> of the C library for extended regular expressions: the text of a pattern is cut into
  tokens, which a parser with a stack of open groups turns into an expression. Patterns that
  are not anchored at both ends, \<open>[^...]\<close>, anchors inside of a pattern and back references are
  outside of the model; \<open>regcomp\<close> is \<open>None\<close> on them, as it is on texts that are no pattern.
\<close>

subsection \<open>Tokens\<close>

datatype ere_tok =
    Tk_set "char list"
  | Tk_open
  | Tk_close
  | Tk_bar
  | Tk_rep nat "nat option"

text \<open>The characters of a bracket expression.\<close>

fun ere_class :: "string \<Rightarrow> char list" where
  "ere_class (a # d # b # cs) =
     (if d = CHR ''-'' then map char_of [of_char a ..< Suc (of_char b)] @ ere_class cs
      else a # ere_class (d # b # cs))"
| "ere_class cs = cs"

definition is_dec :: "char \<Rightarrow> bool" where
  "is_dec c \<longleftrightarrow> (case digit_value c of None \<Rightarrow> False | Some d \<Rightarrow> d < 10)"

text \<open>The bounds between braces: \<open>n\<close>, \<open>n,\<close> or \<open>n,m\<close>.\<close>

definition ere_bounds :: "string \<Rightarrow> ere_tok option" where
  "ere_bounds b =
     (let lo = takeWhile (\<lambda>c. c \<noteq> CHR '','') b; rest = drop (length lo) b; n = scan_num 10 0 lo
      in if lo = [] \<or> \<not> list_all is_dec lo then None
         else case rest of
           [] \<Rightarrow> Some (Tk_rep n (Some n))
         | c # hi \<Rightarrow>
             if hi = [] then Some (Tk_rep n None)
             else if \<not> list_all is_dec hi \<or> scan_num 10 0 hi < n then None
             else Some (Tk_rep n (Some (scan_num 10 0 hi))))"

definition white :: "char list" where
  "white = [CHR '' '', CHR 0x09, CHR 0x0A, CHR 0x0B, CHR 0x0C, CHR 0x0D]"

text \<open>
  A backslash before a letter or digit has a meaning of its own, of which only \<open>s\<close> is modelled;
  before another character it takes away that character's meaning.
\<close>

definition ere_escape :: "char \<Rightarrow> ere_tok option" where
  "ere_escape d =
     (if d = CHR ''s'' then Some (Tk_set white)
      else let n = (of_char d :: nat) in
        if is_dec d \<or> 65 \<le> n \<and> n \<le> 90 \<or> 97 \<le> n \<and> n \<le> 122 then None else Some (Tk_set [d]))"

fun ere_lex :: "string \<Rightarrow> ere_tok list option" where
  "ere_lex [] = Some []"
| "ere_lex (c # cs) =
     (if c = CHR ''('' then map_option (Cons Tk_open) (ere_lex cs)
      else if c = CHR '')'' then map_option (Cons Tk_close) (ere_lex cs)
      else if c = CHR ''|'' then map_option (Cons Tk_bar) (ere_lex cs)
      else if c = CHR ''*'' then map_option (Cons (Tk_rep 0 None)) (ere_lex cs)
      else if c = CHR ''+'' then map_option (Cons (Tk_rep 1 None)) (ere_lex cs)
      else if c = CHR ''?'' then map_option (Cons (Tk_rep 0 (Some 1))) (ere_lex cs)
      else if c = CHR ''.'' then map_option (Cons (Tk_set (map char_of [1..<256::nat]))) (ere_lex cs)
      else if c = CHR ''['' then
        (let b = takeWhile (\<lambda>d. d \<noteq> CHR '']'') cs; rest = drop (length b) cs
         in if rest = [] \<or> b = [] \<or> hd b = CHR ''^'' then None
            else map_option (Cons (Tk_set (ere_class b))) (ere_lex (drop 1 rest)))
      else if c = CHR ''{'' then
        (let b = takeWhile (\<lambda>d. d \<noteq> CHR ''}'') cs; rest = drop (length b) cs
         in if rest = [] then None
            else do { t \<leftarrow> ere_bounds b; map_option (Cons t) (ere_lex (drop 1 rest)) })
      else if c = CHR 0x5C then
        (if cs = [] then None
         else do { t \<leftarrow> ere_escape (hd cs); map_option (Cons t) (ere_lex (drop 1 cs)) })
      else if c = CHR ''^'' \<or> c = CHR ''$'' then None
      else map_option (Cons (Tk_set [c])) (ere_lex cs))"

subsection \<open>The parser\<close>

fun rx_concat :: "rx list \<Rightarrow> rx" where
  "rx_concat [] = Rx_eps"
| "rx_concat [r] = r"
| "rx_concat (r # rs) = Rx_seq r (rx_concat rs)"

fun rx_union :: "rx list \<Rightarrow> rx" where
  "rx_union [] = Rx_none"
| "rx_union [r] = r"
| "rx_union (r # rs) = Rx_alt r (rx_union rs)"

fun rx_repeat :: "nat \<Rightarrow> nat option \<Rightarrow> rx \<Rightarrow> rx" where
  "rx_repeat n None r =
     (if n = 0 then Rx_star r else if n = 1 then rx_plus r else Rx_seq (rx_times n r) (Rx_star r))"
| "rx_repeat n (Some m) r =
     (if n = 0 \<and> m = 1 then rx_opt r else if m = n then rx_times n r else rx_rep n m r)"

text \<open>A group that is open: the alternatives before the last bar, and the parts after it, both reversed.\<close>

type_synonym ere_group = "rx list \<times> rx list"

definition ere_close :: "ere_group \<Rightarrow> rx" where
  "ere_close g = rx_union (rev (rx_concat (rev (snd g)) # fst g))"

fun ere_parse :: "ere_group \<Rightarrow> ere_group list \<Rightarrow> ere_tok list \<Rightarrow> rx option" where
  "ere_parse g gs [] = (if gs = [] then Some (ere_close g) else None)"
| "ere_parse (as, ps) gs (Tk_set cs # ts) = ere_parse (as, Rx_set cs # ps) gs ts"
| "ere_parse g gs (Tk_open # ts) = ere_parse ([], []) (g # gs) ts"
| "ere_parse g gs (Tk_close # ts) =
     (case gs of [] \<Rightarrow> None | (as, ps) # gs \<Rightarrow> ere_parse (as, ere_close g # ps) gs ts)"
| "ere_parse (as, ps) gs (Tk_bar # ts) = ere_parse (rx_concat (rev ps) # as, []) gs ts"
| "ere_parse (as, ps) gs (Tk_rep n m # ts) =
     (case ps of [] \<Rightarrow> None | r # ps \<Rightarrow> ere_parse (as, rx_repeat n m r # ps) gs ts)"

definition regcomp :: "string \<Rightarrow> rx option" where
  "regcomp txt =
     (let inner = butlast (drop 1 txt)
      in if length txt < 2 \<or> hd txt \<noteq> CHR ''^'' \<or> last txt \<noteq> CHR ''$'' \<or> (inner \<noteq> [] \<and> last inner = CHR 0x5C)
         then None else do { ts \<leftarrow> ere_lex inner; ere_parse ([], []) [] ts })"

subsection \<open>What is compiled\<close>

text \<open>The languages of the parts that the parser puts together.\<close>

lemma rx_lang_concat:
  "rx_lang (rx_concat rs) = {concat us | us. list_all2 (\<lambda>u r. u \<in> rx_lang r) us rs}"
proof (induction rs rule: rx_concat.induct)
  case (2 r)
  show ?case by (auto simp: list_all2_Cons2) (metis concat.simps append_Nil2 list.rel_intros)
next
  case (3 r s rs)
  then show ?case
    by (auto simp: list_all2_Cons2) (metis concat.simps(2))+
qed simp

lemma rx_lang_union: "rx_lang (rx_union rs) = (\<Union>r \<in> set rs. rx_lang r)"
  by (induction rs rule: rx_union.induct) auto

text \<open>\<open>{n}\<close> and \<open>{n,m}\<close> repeat a part the given number of times.\<close>

lemma rx_lang_times: "rx_lang (rx_times n r) = {concat us | us. length us = n \<and> set us \<subseteq> rx_lang r}"
proof (induction n)
  case (Suc n)
  have "(\<exists>us. w = concat us \<and> length us = Suc n \<and> set us \<subseteq> rx_lang r) \<longleftrightarrow>
      (\<exists>u us. w = u @ concat us \<and> u \<in> rx_lang r \<and> length us = n \<and> set us \<subseteq> rx_lang r)" (is "?l \<longleftrightarrow> ?r") for w
  proof
    assume ?r
    then obtain u us where "w = u @ concat us" "u \<in> rx_lang r" "length us = n" "set us \<subseteq> rx_lang r" by blast
    then show ?l by (intro exI[of _ "u # us"]) simp
  next
    assume ?l
    then show ?r by (auto simp: length_Suc_conv) blast
  qed
  with Suc show ?case by auto
qed auto

lemma rx_lang_upto: "rx_lang (rx_upto n r) = {concat us | us. length us \<le> n \<and> set us \<subseteq> rx_lang r}"
proof (induction n)
  case (Suc n)
  have "(\<exists>us. w = concat us \<and> length us \<le> Suc n \<and> set us \<subseteq> rx_lang r) \<longleftrightarrow>
      w = [] \<or> (\<exists>u us. w = u @ concat us \<and> u \<in> rx_lang r \<and> length us \<le> n \<and> set us \<subseteq> rx_lang r)" (is "?l \<longleftrightarrow> ?r") for w
  proof
    assume ?l
    then obtain us where us: "w = concat us" "length us \<le> Suc n" "set us \<subseteq> rx_lang r" by blast
    then show ?r by (cases us) auto
  next
    assume ?r
    then show ?l
    proof
      assume "w = []"
      then show ?l by (intro exI[of _ "[]"]) simp
    next
      assume "\<exists>u us. w = u @ concat us \<and> u \<in> rx_lang r \<and> length us \<le> n \<and> set us \<subseteq> rx_lang r"
      then obtain u us where "w = u @ concat us" "u \<in> rx_lang r" "length us \<le> n" "set us \<subseteq> rx_lang r" by blast
      then show ?l by (intro exI[of _ "u # us"]) simp
    qed
  qed
  with Suc show ?case by auto
qed auto

end
