(* ===== verification/Value.thy ===== *)
theory Value
  imports Regcomp
begin

text \<open>
  src/value.c: the text that a user gives for a value, as the bytes it stands for. The
  expressions \<open>re_ipv4\<close> etc. are the compiled patterns of the file; \<open>value_parse\<close> and
  \<open>value_render\<close> follow the functions of the same name. The lemmas show that parsing always
  returns, yields exactly \<open>len\<close> bytes and zeroes them on failure; which integers a field of
  each length takes; and that dotted quads are read back.
\<close>

subsection \<open>The patterns\<close>

definition dec_digits :: "char list" where
  "dec_digits = ''0123456789''"

definition hex_digits :: "char list" where
  "hex_digits = ''0123456789abcdef''"

definition rx_colons :: rx where
  "rx_colons = Rx_seq (Rx_set '':'') (Rx_set '':'')"

definition re_ipv4 :: rx where
  "re_ipv4 = Rx_seq (rx_times 3 (Rx_seq (rx_rep 1 3 (Rx_set dec_digits)) (Rx_set ''.'')))
                    (rx_plus (Rx_set dec_digits))"

definition re_mac :: rx where
  "re_mac = Rx_seq (rx_times 5 (Rx_seq (rx_times 2 (Rx_set (hex_digits @ ''ABCDEF''))) (Rx_set '':'')))
                   (rx_times 2 (Rx_set (hex_digits @ ''ABCDEF'')))"

definition re_int :: rx where
  "re_int = Rx_seq (Rx_star (Rx_set white)) (Rx_seq (rx_opt (Rx_set ''+-''))
     (Rx_alt (rx_plus (Rx_set dec_digits))
             (Rx_seq (Rx_set ''0'') (Rx_seq (Rx_set ''xX'') (rx_plus (Rx_set hex_digits))))))"

definition re_ipv6 :: rx where
  "re_ipv6 = Rx_alt
     (Rx_seq (rx_rep 1 7 (Rx_seq (rx_rep 1 4 (Rx_set hex_digits)) (Rx_alt (Rx_set '':'') rx_colons)))
             (rx_rep 1 4 (Rx_set hex_digits)))
     (Rx_alt rx_colons (Rx_seq (Rx_set '':'') (Rx_seq (Rx_set '':'') (Rx_set ''1''))))"

definition re_hex :: rx where
  "re_hex = Rx_seq (Rx_star (Rx_set white))
     (Rx_seq (Rx_set ''0'') (Rx_seq (Rx_set ''xX'') (rx_plus (Rx_set hex_digits))))"

text \<open>Their texts, with the backslashes that are left after the compiler has read the literals.\<close>

definition txt_ipv4 :: string where
  "txt_ipv4 = ''^([0-9]{1,3}'' @ [CHR 0x5C] @ ''.){3}([0-9]+)$''"

definition txt_mac :: string where
  "txt_mac = ''^([0-9a-fA-F]{2}:){5}([0-9a-fA-F]{2})$''"

definition txt_int :: string where
  "txt_int = ''^'' @ [CHR 0x5C] @ ''s*[+-]?([0-9]+|0[xX][0-9a-f]+)$''"

definition txt_ipv6 :: string where
  "txt_ipv6 = ''^((([0-9a-f]{1,4}(:|::)){1,7}([0-9a-f]{1,4}))|::|::1)$''"

definition txt_hex :: string where
  "txt_hex = ''^'' @ [CHR 0x5C] @ ''s*0[xX][0-9a-f]+$''"

text \<open>The compiled patterns of the file; \<open>None\<close> is one that is not compiled, or freed.\<close>

record value_patterns =
  vp_ipv4 :: "rx option"
  vp_mac :: "rx option"
  vp_int :: "rx option"
  vp_ipv6 :: "rx option"
  vp_hex :: "rx option"

definition value_set_init :: "value_patterns \<Rightarrow> value_patterns" where
  "value_set_init vp = vp\<lparr>vp_ipv4 := regcomp txt_ipv4, vp_mac := regcomp txt_mac, vp_int := regcomp txt_int,
     vp_ipv6 := regcomp txt_ipv6, vp_hex := regcomp txt_hex\<rparr>"

definition value_set_cleanup :: "value_patterns \<Rightarrow> value_patterns" where
  "value_set_cleanup vp = vp\<lparr>vp_ipv4 := None, vp_mac := None, vp_int := None, vp_ipv6 := None, vp_hex := None\<rparr>"

text \<open>All of them compile; \<open>value_parse\<close> matches the results, which do not change while the program runs.\<close>

lemma value_set_init_compiles:
  "value_set_init vp = \<lparr>vp_ipv4 = Some re_ipv4, vp_mac = Some re_mac, vp_int = Some re_int,
     vp_ipv6 = Some re_ipv6, vp_hex = Some re_hex, \<dots> = value_patterns.more vp\<rparr>"
proof -
  have "regcomp txt_ipv4 = Some re_ipv4" by code_simp
  moreover have "regcomp txt_mac = Some re_mac" by code_simp
  moreover have "regcomp txt_int = Some re_int" by code_simp
  moreover have "regcomp txt_ipv6 = Some re_ipv6" by code_simp
  moreover have "regcomp txt_hex = Some re_hex" by code_simp
  ultimately show ?thesis by (simp add: value_set_init_def)
qed

subsection \<open>Parsing\<close>

text \<open>The \<open>n\<close> bytes of an integer in network order: what \<open>*out = htobe(*out)\<close> leaves in memory.\<close>

definition be_bytes :: "nat \<Rightarrow> int \<Rightarrow> byte list" where
  "be_bytes n i = map (\<lambda>k. word_of_int (i div 256 ^ (n - 1 - k))) [0..<n]"

text \<open>
  The branch for integers: the bounds for each length, or \<open>None\<close> for \<open>NB_die\<close>. Note that
  for length 8 the code has \<open>int64_t\<close> and \<open>uint64_t\<close> the other way round.
\<close>

definition value_parse_int :: "string \<Rightarrow> nat \<Rightarrow> byte list option" where
  "value_parse_int value len =
     (let (tt, er) = strtoll value
      in if er \<noteq> E_OK then None
         else if len = 1 \<and> 0 \<le> tt then (if overflows_u 8 tt then None else Some (be_bytes 1 tt))
         else if len = 1 then (if overflows_s 8 tt then None else Some (be_bytes 1 tt))
         else if len = 2 \<and> 0 \<le> tt then (if overflows_u 16 tt then None else Some (be_bytes 2 tt))
         else if len = 2 then (if overflows_s 16 tt then None else Some (be_bytes 2 tt))
         else if len = 4 \<and> 0 \<le> tt then (if overflows_u 32 tt then None else Some (be_bytes 4 tt))
         else if len = 4 then (if overflows_s 32 tt then None else Some (be_bytes 4 tt))
         else if len = 8 \<and> 0 \<le> tt then (if overflows_s 64 tt then None else Some (be_bytes 8 tt))
         else if len = 8 then (if overflows_u 64 tt then None else Some (be_bytes 8 tt))
         else None)"

text \<open>The labels: \<open>die\<close> counts an error and zeroes the bytes.\<close>

definition value_parse_die :: "nat \<Rightarrow> nat \<times> byte list" where
  "value_parse_die len = (1, replicate len 0)"

definition value_parse_done :: "nat \<Rightarrow> byte list option \<Rightarrow> nat \<times> byte list" where
  "value_parse_done len parsed =
     (case parsed of Some bs \<Rightarrow> (0, take len bs) | None \<Rightarrow> value_parse_die len)"

definition value_parse :: "env \<Rightarrow> string option \<Rightarrow> nat \<Rightarrow> (nat \<times> byte list) option" where
  "value_parse E value len =
     (if len = 0 then Some (0, [])
      else do { v \<leftarrow> value;
        Some (
          if len \<le> 4 \<and> rx_match re_ipv4 v then value_parse_done len (inet_pton4 v)
          else if len \<le> 6 \<and> rx_match re_mac v then
            (let by = scan_hhx_colons 6 v
             in value_parse_done len (if length by \<noteq> 6 then None else Some by))
          else if len \<le> 8 \<and> rx_match re_int v then value_parse_done len (value_parse_int v len)
          else if len \<le> 16 \<and> rx_match re_ipv6 v \<and> inet_pton6 v \<noteq> None then
            value_parse_done len (inet_pton6 v)
          else if rx_match re_hex v then
            (let (n, bs) = hx2b_BE E v len
             in if n = 0 then value_parse_die len else (0, bs))
          else
            (let value_len = min (length v) (len + 1);
                 value_len = (if len < value_len then len else value_len)
             in if value_len \<noteq> len then value_parse_die len
                else (0, map byte_of_char (take value_len v)))) })"

text \<open>\<open>value_render\<close>: the request for memory may fail.\<close>

definition value_render :: "env \<Rightarrow> byte list \<Rightarrow> nat \<Rightarrow> 'a heap_state_scheme \<Rightarrow> string option \<times> 'a heap_state_scheme"
where
  "value_render E parsed len s =
     (case calloc E s of
        (None, s) \<Rightarrow> (None, s)
      | (Some _, s) \<Rightarrow>
          (if len \<noteq> 0 then Some (''0x'' @ b2hx_BE E (take len parsed)) else Some '''', s))"

subsection \<open>What parsing yields\<close>

text \<open>What the code relies on of nonlibc's hex parser: it fills the whole buffer.\<close>

definition hx2b_ok :: "env \<Rightarrow> bool" where
  "hx2b_ok E \<longleftrightarrow> (\<forall>v n. length (snd (hx2b_BE E v n)) = n)"

lemma hx2b_ok_env0 [simp]: "hx2b_ok env0"
  by (simp add: hx2b_ok_def hx2b_ref_def Let_def)

lemma length_be_bytes [simp]: "length (be_bytes n i) = n"
  by (simp add: be_bytes_def)

lemma value_parse_int_length: "value_parse_int v len = Some bs \<Longrightarrow> length bs = len"
  by (auto simp: value_parse_int_def Let_def split: prod.splits if_splits)

lemma value_parse_returns:
  assumes "hx2b_ok E"
  shows "\<exists>err bs. value_parse E (Some v) len = Some (err, bs) \<and> length bs = len \<and> err \<le> 1 \<and>
    (err \<noteq> 0 \<longrightarrow> bs = replicate len 0)"
proof -
  have done_ok: "length (snd (value_parse_done len x)) = len \<and> fst (value_parse_done len x) \<le> 1 \<and>
      (fst (value_parse_done len x) \<noteq> 0 \<longrightarrow> snd (value_parse_done len x) = replicate len 0)"
    if "\<And>bs. x = Some bs \<Longrightarrow> len \<le> length bs" for x
    using that by (cases x) (auto simp: value_parse_done_def value_parse_die_def)
  let ?by = "scan_hhx_colons 6 v"
  consider "len = 0" | "len \<noteq> 0" "len \<le> 4 \<and> rx_match re_ipv4 v"
    | "len \<noteq> 0" "\<not> (len \<le> 4 \<and> rx_match re_ipv4 v)" "len \<le> 6 \<and> rx_match re_mac v"
    | "len \<noteq> 0" "\<not> (len \<le> 4 \<and> rx_match re_ipv4 v)" "\<not> (len \<le> 6 \<and> rx_match re_mac v)"
      "len \<le> 8 \<and> rx_match re_int v"
    | "len \<noteq> 0" "\<not> (len \<le> 4 \<and> rx_match re_ipv4 v)" "\<not> (len \<le> 6 \<and> rx_match re_mac v)"
      "\<not> (len \<le> 8 \<and> rx_match re_int v)" "len \<le> 16 \<and> rx_match re_ipv6 v \<and> inet_pton6 v \<noteq> None"
    | "len \<noteq> 0" "\<not> (len \<le> 4 \<and> rx_match re_ipv4 v)" "\<not> (len \<le> 6 \<and> rx_match re_mac v)"
      "\<not> (len \<le> 8 \<and> rx_match re_int v)" "\<not> (len \<le> 16 \<and> rx_match re_ipv6 v \<and> inet_pton6 v \<noteq> None)"
    by blast
  then show ?thesis
  proof cases
    case 2
    then have "len \<le> length bs" if "inet_pton4 v = Some bs" for bs
      using length_inet_pton4[OF that] by simp
    with 2 done_ok[of "inet_pton4 v"] show ?thesis
      by (cases "value_parse_done len (inet_pton4 v)") (auto simp: value_parse_def)
  next
    case 3
    then have "len \<le> length bs" if "(if length ?by \<noteq> 6 then None else Some ?by) = Some bs" for bs
      using that by (auto split: if_splits)
    with 3 done_ok[of "if length ?by \<noteq> 6 then None else Some ?by"] show ?thesis
      by (cases "value_parse_done len (if length ?by \<noteq> 6 then None else Some ?by)")
        (auto simp: value_parse_def)
  next
    case 4
    then have "len \<le> length bs" if "value_parse_int v len = Some bs" for bs
      using value_parse_int_length[OF that] by simp
    with 4 done_ok[of "value_parse_int v len"] show ?thesis
      by (cases "value_parse_done len (value_parse_int v len)") (auto simp: value_parse_def)
  next
    case 5
    then have "len \<le> length bs" if "inet_pton6 v = Some bs" for bs
      using length_inet_pton6[OF that] by simp
    with 5 done_ok[of "inet_pton6 v"] show ?thesis
      by (cases "value_parse_done len (inet_pton6 v)") (auto simp: value_parse_def)
  next
    case 6
    moreover obtain n bs where hx: "hx2b_BE E v len = (n, bs)" by (cases "hx2b_BE E v len")
    moreover have "length bs = len" using assms hx by (metis hx2b_ok_def snd_conv)
    ultimately show ?thesis
      by (auto simp: value_parse_def value_parse_die_def Let_def)
  qed (simp add: value_parse_def)
qed

text \<open>
  C28: parsing a value text always returns, for every text and every length. It yields exactly
  as many bytes as the field has; it counts at most one error, and if it counts one the bytes
  are all zero.
\<close>

theorem value_parse_total:
  assumes "hx2b_ok E"
  shows "\<exists>err bs. value_parse E (Some v) len = Some (err, bs) \<and> length bs = len \<and> err \<le> 1 \<and>
    (err \<noteq> 0 \<longrightarrow> bs = replicate len 0)"
  using assms by (rule value_parse_returns)

theorem value_parse_total_witness:
  "\<exists>err bs. value_parse env0 (Some ''abc'') 5 = Some (err, bs) \<and> length bs = 5 \<and> err \<le> 1 \<and>
     (err \<noteq> 0 \<longrightarrow> bs = replicate 5 0)"
  using value_parse_total[of env0 "''abc''" 5] by simp

subsection \<open>Integers\<close>

text \<open>A string of digits with an optional sign is none of the earlier patterns.\<close>

lemma rx_lang_has:
  assumes "s \<in> rx_lang (Rx_seq (rx_times (Suc n) (Rx_seq r (Rx_set [c]))) q)"
  obtains d where "d \<in> set s" "tolower d = tolower c"
proof -
  from assms obtain u v w where "s = u @ v @ w" "v \<in> rx_lang (Rx_set [c])"
    unfolding rx_times.simps rx_lang.simps(4) by force
  then show ?thesis using that[of "hd v"] by (auto simp: rx_in_def)
qed

lemma hexdigit_dec: "d < 10 \<Longrightarrow> hexdigit d \<in> set ''0123456789''"
proof -
  have "map hexdigit [0, 1, 2, 3, 4, 5, 6, 7, 8, 9] = ''0123456789''" by code_simp
  moreover assume "d < 10"
  then have "d \<in> {0, 1, 2, 3, 4, 5, 6, 7, 8, 9}" by auto
  ultimately show ?thesis by auto
qed

lemma fmt_d_chars: "c \<in> set (fmt_d i) \<Longrightarrow> c = CHR ''-'' \<or> (\<exists>d < 10. c = hexdigit d)"
  using show_base_digits[of 10 "nat i"] show_base_digits[of 10 "nat (- i)"]
  by (auto simp: fmt_d_def split: if_splits)

lemma fmt_d_not: "c \<in> set (fmt_d i) \<Longrightarrow> tolower c \<noteq> CHR ''.'' \<and> tolower c \<noteq> CHR '':''"
proof (drule fmt_d_chars)
  assume "c = CHR ''-'' \<or> (\<exists>d < 10. c = hexdigit d)"
  then have "c \<in> set (CHR ''-'' # ''0123456789'')"
    using hexdigit_dec by auto
  then show ?thesis by (auto simp: tolower_def)
qed

lemma fmt_d_ipv4 [simp]: "\<not> rx_match re_ipv4 (fmt_d i)"
proof
  assume "rx_match re_ipv4 (fmt_d i)"
  then have "fmt_d i \<in> rx_lang re_ipv4" by (simp only: rx_match_iff)
  then obtain d where "d \<in> set (fmt_d i)" "tolower d = tolower (CHR ''.'')"
    unfolding re_ipv4_def numeral_3_eq_3 by (rule rx_lang_has)
  then show False using fmt_d_not[of d i] by (simp add: tolower_def)
qed

lemma fmt_d_mac [simp]: "\<not> rx_match re_mac (fmt_d i)"
proof
  assume "rx_match re_mac (fmt_d i)"
  then have "fmt_d i \<in> rx_lang re_mac" by (simp only: rx_match_iff)
  have five: "(5 :: nat) = Suc 4" by simp
  from \<open>fmt_d i \<in> rx_lang re_mac\<close>
  obtain d where "d \<in> set (fmt_d i)" "tolower d = tolower (CHR '':'')"
    unfolding re_mac_def five by (rule rx_lang_has)
  then show False using fmt_d_not[of d i] by (simp add: tolower_def)
qed

lemma rx_dec_digit: "d < 10 \<Longrightarrow> rx_in (hexdigit d) dec_digits"
  using hexdigit_dec[of d] by (force simp: rx_in_def dec_digits_def)

lemma fmt_d_int [simp]: "rx_match re_int (fmt_d i)"
proof -
  have digits: "show_base 10 n \<in> rx_lang (rx_plus (Rx_set dec_digits))" for n
    using show_base_digits[of 10 n] by (intro rx_plus_all) (auto intro: rx_dec_digit)
  define alt where "alt = Rx_alt (rx_plus (Rx_set dec_digits))
             (Rx_seq (Rx_set ''0'') (Rx_seq (Rx_set ''xX'') (rx_plus (Rx_set hex_digits))))"
  have alt: "show_base 10 n \<in> rx_lang alt" for n
    unfolding alt_def rx_lang.simps(5) by (intro UnI1 digits)
  have sgn: "[] \<in> rx_lang (rx_opt (Rx_set ''+-''))" "[CHR ''-''] \<in> rx_lang (rx_opt (Rx_set ''+-''))"
    by (simp_all add: rx_opt_def rx_in_def)
  have sgn': "[] \<in> rx_lang (Rx_star (Rx_set white))" by (simp add: star_Nil)
  have "fmt_d i \<in> rx_lang (Rx_seq (rx_opt (Rx_set ''+-'')) alt)"
    using rx_seqI[OF sgn(1) alt] rx_seqI[OF sgn(2) alt] by (simp add: fmt_d_def del: rx_lang.simps)
  then have "[] @ fmt_d i \<in> rx_lang re_int"
    unfolding re_int_def alt_def by (rule rx_seqI[OF sgn'])
  then show ?thesis by (simp add: rx_match_iff)
qed

text \<open>
  C29: which integers fit a field. A decimal integer, written as the code prints integers, is
  accepted for a field of 1, 2 or 4 bytes exactly when it is representable in that many bytes,
  signed or unsigned; for a field of 8 bytes exactly when it lies between 0 and 2^63 - 1; for
  a field of 3, 5, 6 or 7 bytes never. When accepted, the bytes are the integer in network
  order, and when refused the bytes are zero.
\<close>

theorem value_parse_integer:
  assumes "0 < len" and "len \<le> 8"
  shows "value_parse E (Some (fmt_d i)) len =
    (if (len \<in> {1, 2, 4} \<and> - (2 ^ (8 * len - 1)) \<le> i \<and> i < 2 ^ (8 * len)) \<or>
        (len = 8 \<and> 0 \<le> i \<and> i < 2 ^ 63)
     then Some (0, be_bytes len i) else Some (1, replicate len 0))"
proof -
  have *: "value_parse E (Some (fmt_d i)) len = Some (value_parse_done len (value_parse_int (fmt_d i) len))"
    using assms by (simp add: value_parse_def)
  consider "len = 1" | "len = 2" | "len = 4" | "len = 8" | "len \<in> {3, 5, 6, 7}"
    using assms by force
  then show ?thesis
    unfolding *
    by cases (auto simp: value_parse_int_def strtoll_def strtol_def Let_def strtoz_fmt_d value_parse_done_def
        value_parse_die_def overflows_u_def overflows_s_def LONG_MAX_def LONG_MIN_def)
qed

theorem value_parse_integer_witness:
  "value_parse env0 (Some (fmt_d (-1))) 8 = Some (1, replicate 8 0) \<and>
   value_parse env0 (Some (fmt_d (-2))) 4 = Some (0, [255, 255, 255, 254])"
proof -
  have "be_bytes 4 (-2) = [255, 255, 255, 254]" by code_simp
  then show ?thesis
    using value_parse_integer[of 8 env0 "-1"] value_parse_integer[of 4 env0 "-2"] by simp
qed

subsection \<open>Dotted quads\<close>

definition dotted :: "byte \<Rightarrow> byte \<Rightarrow> byte \<Rightarrow> byte \<Rightarrow> string" where
  "dotted a b c d = (fmt_u (unat a) @ ''.'') @ (fmt_u (unat b) @ ''.'') @ (fmt_u (unat c) @ ''.'') @ fmt_u (unat d)"

text \<open>The parser reads an octet that is printed without leading zeros.\<close>

lemma pton4_digit:
  assumes "d < 10"
  shows "length octs < 4 \<Longrightarrow> pton4 octs None (hexdigit d # cs) = pton4 octs (Some d) cs"
    and "v \<noteq> 0 \<Longrightarrow> v * 10 + d < 256 \<Longrightarrow> pton4 octs (Some v) (hexdigit d # cs) = pton4 octs (Some (v * 10 + d)) cs"
proof -
  have dv: "digit_value (hexdigit d) = Some d" using assms by simp
  show "length octs < 4 \<Longrightarrow> pton4 octs None (hexdigit d # cs) = pton4 octs (Some d) cs"
    using assms by (simp add: dv)
  assume v: "v \<noteq> 0" and "v * 10 + d < 256"
  then have "\<not> 255 < v * 10 + d" by presburger
  with v assms show "pton4 octs (Some v) (hexdigit d # cs) = pton4 octs (Some (v * 10 + d)) cs"
    by (simp only: pton4.simps dv option.case option.sel Let_def option.distinct if_True if_False simp_thms)
qed

lemma show_octet:
  assumes "n < 256"
  obtains x where "x < 10" "n = x" "show_base 10 n = [hexdigit x]"
  | x y where "x < 10" "x \<noteq> 0" "y < 10" "n = x * 10 + y" "show_base 10 n = [hexdigit x, hexdigit y]"
  | x y z where "x < 10" "x \<noteq> 0" "y < 10" "z < 10" "n = (x * 10 + y) * 10 + z"
      "show_base 10 n = [hexdigit x, hexdigit y, hexdigit z]"
proof -
  define m where "m = n div 10"
  define x where "x = m div 10"
  have n: "n = m * 10 + n mod 10" and m: "m = x * 10 + m mod 10" by (simp_all add: m_def x_def)
  show ?thesis
  proof (cases "n < 10")
    case True
    then show ?thesis using that(1)[of n] by (simp add: show_base.simps)
  next
    case big: False
    then have s: "show_base 10 n = show_base 10 m @ [hexdigit (n mod 10)]"
      by (simp add: show_base.simps[of 10 n] m_def)
    show ?thesis
    proof (cases "m < 10")
      case True
      moreover have "m \<noteq> 0" using big n by linarith
      ultimately show ?thesis
        using that(2)[OF _ _ _ n] s by (simp add: show_base.simps[of 10 m])
    next
      case False
      have "m < 26" using assms n by linarith
      then have x: "x < 10" "x \<noteq> 0" using False by (simp_all add: x_def)
      from \<open>x < 10\<close> have "show_base 10 x = [hexdigit x]" by (simp add: show_base.simps)
      with False have "show_base 10 m = [hexdigit x, hexdigit (m mod 10)]"
        by (simp add: show_base.simps[of 10 m] x_def)
      with s have "show_base 10 n = [hexdigit x, hexdigit (m mod 10), hexdigit (n mod 10)]" by simp
      moreover have "n = (x * 10 + m mod 10) * 10 + n mod 10" using n m by presburger
      moreover have "m mod 10 < 10" "n mod 10 < 10" by simp_all
      ultimately show ?thesis using that(3) x by blast
    qed
  qed
qed

lemma pton4_octet:
  assumes "n < 256" and "length octs < 4"
  shows "pton4 octs None (show_base 10 n @ rest) = pton4 octs (Some n) rest"
proof (rule show_octet[OF assms(1)])
  fix x y z
  assume x: "x < 10" "x \<noteq> 0" and y: "y < 10" and z: "z < 10" and n: "n = (x * 10 + y) * 10 + z"
    and s: "show_base 10 n = [hexdigit x, hexdigit y, hexdigit z]"
  have "x * 10 + y \<le> n" by (simp add: n)
  with assms(1) have "x * 10 + y < 256" by (rule le_less_trans[rotated])
  moreover have "x * 10 + y \<noteq> 0" using x(2) by simp
  ultimately show ?thesis using n assms(1)
    unfolding s append.simps pton4_digit(1)[OF x(1) assms(2)]
    by (simp only: pton4_digit(2)[OF y x(2)] pton4_digit(2)[OF z] simp_thms not_False_eq_True)
next
  fix x y
  assume x: "x < 10" "x \<noteq> 0" and y: "y < 10" and n: "n = x * 10 + y"
    and s: "show_base 10 n = [hexdigit x, hexdigit y]"
  show ?thesis
    using assms(1) unfolding s append.simps pton4_digit(1)[OF x(1) assms(2)]
    by (simp only: pton4_digit(2)[OF y x(2)] n)
next
  fix x
  assume x: "x < 10" "n = x" and s: "show_base 10 n = [hexdigit x]"
  show ?thesis
    unfolding s append.simps pton4_digit(1)[OF x(1) assms(2)] by (simp only: x(2))
qed

lemma inet_pton4_dotted [simp]: "inet_pton4 (dotted a b c d) = Some [a, b, c, d]"
  using unsigned_less[of a, where 'a = nat] unsigned_less[of b, where 'a = nat]
    unsigned_less[of c, where 'a = nat] unsigned_less[of d, where 'a = nat]
    pton4_octet[of "unat d" "[a, b, c]" "[]"]
  by (simp add: inet_pton4_def dotted_def fmt_u_def pton4_octet digit_value_def)

lemma octet_rx: "fmt_u (unat (b :: byte)) \<in> rx_lang (rx_rep 1 3 (Rx_set dec_digits))"
proof (rule rx_rep1_all)
  show "length (fmt_u (unat b)) \<le> 3"
    unfolding fmt_u_def using unsigned_less[of b, where 'a = nat] by (intro length_show_base) auto
  show "\<forall>c \<in> set (fmt_u (unat b)). rx_in c dec_digits"
    unfolding fmt_u_def using show_base_digits[of 10 "unat b"] by (auto intro: rx_dec_digit)
qed (simp add: fmt_u_def)

lemma dotted_rx [simp]: "rx_match re_ipv4 (dotted a b c d)"
proof -
  let ?q = "Rx_seq (rx_rep 1 3 (Rx_set dec_digits)) (Rx_set ''.'')"
  have dot: "fmt_u (unat b) @ ''.'' \<in> rx_lang ?q" for b :: byte
    by (rule rx_seqI[OF octet_rx]) (simp add: rx_in_def)
  have "fmt_u (unat d) \<in> rx_lang (rx_plus (Rx_set dec_digits))"
    unfolding fmt_u_def using show_base_digits[of 10 "unat d"]
    by (intro rx_plus_all) (auto intro: rx_dec_digit)
  moreover have more: "(fmt_u (unat b) @ ''.'') @ v \<in> rx_lang (rx_times (Suc n) ?q)"
    if "v \<in> rx_lang (rx_times n ?q)" for b :: byte and v n
    unfolding rx_times.simps(2) using dot that by (rule rx_seqI)
  have "[] \<in> rx_lang (rx_times 0 ?q)" by simp
  from more[OF more[OF more[OF this]], of a b c]
  have "(fmt_u (unat a) @ ''.'') @ (fmt_u (unat b) @ ''.'') @ (fmt_u (unat c) @ ''.'') @ []
      \<in> rx_lang (rx_times 3 ?q)"
    by (simp only: numeral_3_eq_3)
  ultimately have "((fmt_u (unat a) @ ''.'') @ (fmt_u (unat b) @ ''.'') @ (fmt_u (unat c) @ ''.'') @ [])
      @ fmt_u (unat d) \<in> rx_lang re_ipv4"
    unfolding re_ipv4_def by (intro rx_seqI)
  then show ?thesis by (simp add: rx_match_iff dotted_def)
qed

text \<open>
  C30: every IPv4 address, written as a dotted quad, is parsed into its bytes in network order;
  a field shorter than 4 bytes takes the leading ones (the network part of the address).
\<close>

theorem value_parse_ipv4:
  assumes "len \<le> 4"
  shows "value_parse E (Some (dotted a b c d)) len = Some (0, take len [a, b, c, d])"
  using assms by (simp add: value_parse_def value_parse_done_def)

theorem value_parse_ipv4_witness:
  "value_parse env0 (Some (dotted 192 168 1 7)) 3 = Some (0, [192, 168, 1])"
  using value_parse_ipv4[of 3 env0 192 168 1 7] by simp

subsection \<open>Ethernet addresses\<close>

definition hex2 :: "byte \<Rightarrow> string" where
  "hex2 b = [hexdigit (unat b div 16), hexdigit (unat b mod 16)]"

text \<open>What \<open>XDPK_MAC_PROTO\<close> of src/iface.c prints.\<close>

fun mac_text :: "byte list \<Rightarrow> string" where
  "mac_text [] = []"
| "mac_text [b] = hex2 b"
| "mac_text (b # bs) = (hex2 b @ '':'') @ mac_text bs"

lemma nibbles: "unat (b :: byte) div 16 < 16" "unat (b :: byte) mod 16 < 16"
  using unsigned_less[of b, where 'a = nat] by simp_all

lemma hexdigit_plain:
  assumes "d < 16"
  shows "hexdigit d \<in> set (hex_digits @ ''ABCDEF'')" and "\<not> isspace (hexdigit d)"
    and "hexdigit d \<notin> {CHR ''-'', CHR ''+'', CHR ''x'', CHR ''X'', CHR ''.'', CHR '':''}"
proof -
  have "\<forall>d \<in> set [0..<16]. hexdigit d \<in> set (hex_digits @ ''ABCDEF'') \<and> \<not> isspace (hexdigit d) \<and>
      hexdigit d \<notin> {CHR ''-'', CHR ''+'', CHR ''x'', CHR ''X'', CHR ''.'', CHR '':''}"
    by code_simp
  moreover have "d \<in> set [0..<16]" using assms by simp
  ultimately have "hexdigit d \<in> set (hex_digits @ ''ABCDEF'') \<and> \<not> isspace (hexdigit d) \<and>
      hexdigit d \<notin> {CHR ''-'', CHR ''+'', CHR ''x'', CHR ''X'', CHR ''.'', CHR '':''}" by (rule bspec)
  then show "hexdigit d \<in> set (hex_digits @ ''ABCDEF'')" "\<not> isspace (hexdigit d)"
    "hexdigit d \<notin> {CHR ''-'', CHR ''+'', CHR ''x'', CHR ''X'', CHR ''.'', CHR '':''}" by blast+
qed

lemma scan_hhx_hex2:
  assumes "cs = [] \<or> hd cs = CHR '':''"
  shows "scan_hhx (hex2 b @ cs) = Some (b, cs)"
proof -
  let ?h = "unat b div 16" and ?l = "unat b mod 16"
  note h = nibbles(1)[of b] and l = nibbles(2)[of b]
  have "digit_value (CHR '':'') = None" by code_simp
  with assms h l have "takeWhile (\<lambda>c. digit_value c \<noteq> None) (hex2 b @ cs) = hex2 b"
    by (cases cs) (auto simp: hex2_def)
  moreover have "dropWhile isspace (hex2 b @ cs) = hex2 b @ cs"
    using hexdigit_plain(2)[OF h] by (simp add: hex2_def)
  moreover have "scan_sign (hex2 b @ cs) = (False, hex2 b @ cs)"
    using hexdigit_plain(3)[OF h] by (auto simp: hex2_def scan_sign_def)
  moreover have "take 2 (hex2 b @ cs) = [hexdigit ?h, hexdigit ?l]" by (simp add: hex2_def)
  moreover have "scan_num 16 0 (hex2 b) = unat b" using h l by (simp add: hex2_def)
  ultimately show ?thesis
    using hexdigit_plain(3)[OF l] by (auto simp: scan_hhx_def hex2_def)
qed

lemma scan_mac: "bs \<noteq> [] \<Longrightarrow> scan_hhx_colons (length bs) (mac_text bs) = bs"
  by (induction bs rule: mac_text.induct)
    (use scan_hhx_hex2[of "[]"] in \<open>simp_all add: scan_hhx_hex2\<close>)

lemma mac_rx: "mac_text bs \<in> rx_lang re_mac" if "length bs = 6"
proof -
  let ?H = "rx_times 2 (Rx_set (hex_digits @ ''ABCDEF''))"
  let ?Q = "Rx_seq ?H (Rx_set '':'')"
  have dig: "rx_in (hexdigit d) (hex_digits @ ''ABCDEF'')" if "d < 16" for d
    unfolding rx_in_def set_map using hexdigit_plain(1)[OF that] by (rule imageI)
  have two: "hex2 b \<in> rx_lang ?H" for b
    unfolding hex2_def numeral_2_eq_2 rx_times.simps using nibbles dig
    by (intro rx_seq_ConsI) simp_all
  have one: "hex2 b @ '':'' \<in> rx_lang ?Q" for b by (rule rx_seqI[OF two]) (simp add: rx_in_def)
  have "bs \<noteq> [] \<Longrightarrow> mac_text bs \<in> rx_lang (Rx_seq (rx_times (length bs - 1) ?Q) ?H)" for bs
  proof (induction bs rule: mac_text.induct)
    case (2 b)
    from rx_seqI[of "[]" "rx_times 0 ?Q", OF _ two[of b]] show ?case by simp
  next
    case (3 b c cs)
    then obtain u v where uv: "mac_text (c # cs) = u @ v" "u \<in> rx_lang (rx_times (length cs) ?Q)" "v \<in> rx_lang ?H" by auto
    from rx_seqI[OF rx_seqI[OF one[of b] uv(2)] uv(3)] show ?case by (simp add: uv(1))
  qed simp
  moreover from that have "bs \<noteq> []" "length bs - 1 = 5" by auto
  ultimately have "mac_text bs \<in> rx_lang (Rx_seq (rx_times 5 ?Q) ?H)" by metis
  then show ?thesis unfolding re_mac_def .
qed

lemma mac_not_ipv4: "\<not> rx_match re_ipv4 (mac_text bs)"
proof
  have chars: "c \<in> set (mac_text bs) \<Longrightarrow> c = CHR '':'' \<or> (\<exists>d < 16. c = hexdigit d)" for c
    by (induction bs rule: mac_text.induct) (use nibbles in \<open>fastforce simp: hex2_def\<close>)+
  assume "rx_match re_ipv4 (mac_text bs)"
  then have "mac_text bs \<in> rx_lang re_ipv4" by (simp only: rx_match_iff)
  then obtain d where d: "d \<in> set (mac_text bs)" "tolower d = tolower (CHR ''.'')"
    unfolding re_ipv4_def numeral_3_eq_3 by (rule rx_lang_has)
  have "tolower (CHR '':'') \<noteq> tolower (CHR ''.'')" by code_simp
  moreover have "\<forall>d \<in> set [0..<16]. tolower (hexdigit d) \<noteq> tolower (CHR ''.'')" by code_simp
  then have "tolower (hexdigit n) \<noteq> tolower (CHR ''.'')" if "n < 16" for n using that by simp
  ultimately show False using chars[OF d(1)] d(2) by auto
qed

text \<open>
  C31: every Ethernet address, written as six bytes of two hexadecimal digits with colons between
  them, is parsed into its bytes; a shorter field takes the leading ones (of three bytes, the
  vendor).
\<close>

theorem value_parse_mac:
  assumes "length bs = 6" and "len \<le> 6"
  shows "value_parse E (Some (mac_text bs)) len = Some (0, take len bs)"
proof -
  from assms(1) have "bs \<noteq> []" by auto
  from scan_mac[OF this] have "scan_hhx_colons 6 (mac_text bs) = bs" by (simp only: assms(1))
  moreover have "rx_match re_mac (mac_text bs)" using mac_rx[OF assms(1)] by (simp only: rx_match_iff)
  ultimately show ?thesis
    using assms mac_not_ipv4[of bs] by (simp add: value_parse_def value_parse_done_def)
qed

theorem value_parse_mac_witness:
  "value_parse env0 (Some (mac_text [0, 17, 170, 187, 204, 221])) 3 = Some (0, [0, 17, 170])"
  using value_parse_mac[of "[0, 17, 170, 187, 204, 221]" 3 env0] by simp

end
