(* ===== verification/Memref.thy ===== *)
theory Memref
  imports Field Value
begin

text \<open>
  include/memref.h and src/memref.c: memory that operations refer to, either a named piece of
  global state that several operations share and count their references to, or a literal
  value that belongs to one operation. The table \<open>state_JS\<close> holds the named ones. The
  invariant is \<open>memref_inv\<close>; the lemmas give the effect of creating, taking and releasing.
\<close>

subsection \<open>Data\<close>

definition MEMREF_FLAG_STATIC :: u8 where
  "MEMREF_FLAG_STATIC = 1"

text \<open>
  \<open>mr_name\<close> is the member \<open>name\<close> of a state and \<open>input\<close> of a value, which share their
  place in a union; \<open>refcnt\<close> and \<open>rendered\<close> share another place there, and each is used by
  one of the two kinds only. \<open>mr_bytes\<close> is the memory itself.
\<close>

record memref =
  mr_name :: "string option"
  mr_refcnt :: u32
  mr_rendered :: "string option"
  mr_set :: field_set
  mr_bytes :: "byte list"

record memref_state = field_state +
  memref_heap :: "addr \<rightharpoonup> memref"
  state_JS :: "addr judySL"

definition memref_is_value :: "memref \<Rightarrow> bool" where
  "memref_is_value m \<longleftrightarrow> fs_flags (mr_set m) AND MEMREF_FLAG_STATIC \<noteq> 0"

subsection \<open>Life cycle\<close>

definition memref_release :: "ptr \<Rightarrow> 'a memref_state_scheme \<Rightarrow> 'a memref_state_scheme option" where
  "memref_release arg s =
     (case arg of
        None \<Rightarrow> Some s
      | Some p \<Rightarrow>
          do { m \<leftarrow> memref_heap s p;
               if memref_is_value m then Some (s\<lparr>memref_heap := (memref_heap s)(p := None)\<rparr>)
               else
                 let r = (if mr_refcnt m \<noteq> 0 then refcnt_release (mr_refcnt m) else mr_refcnt m);
                     s = s\<lparr>memref_heap := (memref_heap s)(p \<mapsto> m\<lparr>mr_refcnt := r\<rparr>)\<rparr>
                 in if r \<noteq> 0 then Some s
                    else do { nm \<leftarrow> mr_name m;
                              let s = (if js_get (state_JS s) nm = Some p
                                       then s\<lparr>state_JS := js_delete (state_JS s) nm\<rparr> else s);
                              Some (s\<lparr>memref_heap := (memref_heap s)(p := None)\<rparr>) } })"

text \<open>The label \<open>die\<close> of the two constructors.\<close>

definition memref_die :: "ptr \<Rightarrow> 'a memref_state_scheme \<Rightarrow> (ptr \<times> 'a memref_state_scheme) option" where
  "memref_die ret s = do { s \<leftarrow> memref_release ret s; Some (None, s) }"

text \<open>\<open>MEMREF_ALLOC_COMMON\<close>, for a field that is there.\<close>

definition memref_alloc_common ::
  "env \<Rightarrow> field \<Rightarrow> 'a memref_state_scheme \<Rightarrow> ptr \<times> 'a memref_state_scheme" where
  "memref_alloc_common E fl s =
     (case calloc E s of
        (None, s) \<Rightarrow> (None, s)
      | (Some p, s) \<Rightarrow>
          (Some p, s\<lparr>memref_heap := (memref_heap s)(p \<mapsto>
             \<lparr>mr_name = None, mr_refcnt = 0, mr_rendered = None, mr_set = fl_set fl,
              mr_bytes = replicate (unat (fs_len (fl_set fl))) 0\<rparr>)\<rparr>))"

definition memref_value_new ::
  "env \<Rightarrow> ptr \<Rightarrow> string option \<Rightarrow> 'a memref_state_scheme \<Rightarrow> (ptr \<times> 'a memref_state_scheme) option"
where
  "memref_value_new E fieldp value s =
     (case (fieldp, value) of
        (Some f, Some v) \<Rightarrow>
          do { fl \<leftarrow> field_heap s f;
               case memref_alloc_common E fl s of
                 (None, s) \<Rightarrow> memref_die None s
               | (Some p, s) \<Rightarrow>
                   do { m \<leftarrow> memref_heap s p;
                        let fs = mr_set m;
                        let m = m\<lparr>mr_set := fs\<lparr>fs_flags := fs_flags fs OR MEMREF_FLAG_STATIC\<rparr>\<rparr>;
                        let len = unat (fs_len fs);
                        let (input, err) = nstralloc E v MAXVALUELEN;
                        let m = m\<lparr>mr_name := input\<rparr>;
                        let s = s\<lparr>memref_heap := (memref_heap s)(p \<mapsto> m)\<rparr>;
                        if err = EINVAL then memref_die (Some p) s
                        else if err = E2BIG then memref_die (Some p) s
                        else do { (bad, bytes) \<leftarrow> value_parse E input len;
                                  let m = m\<lparr>mr_bytes := bytes\<rparr>;
                                  let s = s\<lparr>memref_heap := (memref_heap s)(p \<mapsto> m)\<rparr>;
                                  if bad \<noteq> 0 then memref_die (Some p) s
                                  else (let (rendered, s) = value_render E bytes len s
                                        in case rendered of
                                             None \<Rightarrow> memref_die (Some p) s
                                           | Some t \<Rightarrow>
                                               Some (Some p, s\<lparr>memref_heap := (memref_heap s)(p \<mapsto>
                                                 m\<lparr>mr_rendered := Some t\<rparr>)\<rparr>)) } } }
      | _ \<Rightarrow> memref_die None s)"

definition memref_state_eq :: "field_set \<Rightarrow> field_set \<Rightarrow> bool" where
  "memref_state_eq a b \<longleftrightarrow> fs_len a = fs_len b \<and> fs_mask a = fs_mask b"

text \<open>The common end of \<open>memref_state_get\<close>.\<close>

definition memref_take :: "addr \<Rightarrow> 'a memref_state_scheme \<Rightarrow> (ptr \<times> 'a memref_state_scheme) option" where
  "memref_take p s =
     do { m \<leftarrow> memref_heap s p;
          Some (Some p, s\<lparr>memref_heap := (memref_heap s)(p \<mapsto> m\<lparr>mr_refcnt := refcnt_take (mr_refcnt m)\<rparr>)\<rparr>) }"

definition memref_state_get ::
  "env \<Rightarrow> ptr \<Rightarrow> string option \<Rightarrow> 'a memref_state_scheme \<Rightarrow> (ptr \<times> 'a memref_state_scheme) option"
where
  "memref_state_get E fieldp state_name s =
     (case (fieldp, state_name) of
        (Some f, Some nm) \<Rightarrow>
          (case js_get (state_JS s) nm of
             Some p \<Rightarrow>
               do { m \<leftarrow> memref_heap s p;
                    fl \<leftarrow> field_heap s f;
                    if \<not> memref_state_eq (mr_set m) (fl_set fl) then memref_die None s
                    else memref_take p s }
           | None \<Rightarrow>
               do { fl \<leftarrow> field_heap s f;
                    case memref_alloc_common E fl s of
                      (None, s) \<Rightarrow> memref_die None s
                    | (Some p, s) \<Rightarrow>
                        do { m \<leftarrow> memref_heap s p;
                             let fs = mr_set m;
                             let m = m\<lparr>mr_set := fs\<lparr>fs_flags := fs_flags fs AND NOT MEMREF_FLAG_STATIC\<rparr>\<rparr>;
                             let (copy, err) = nstralloc E nm MAXLINELEN;
                             let s = s\<lparr>memref_heap := (memref_heap s)(p \<mapsto> m\<lparr>mr_name := copy\<rparr>)\<rparr>;
                             case copy of
                               None \<Rightarrow> memref_die (Some p) s
                             | Some nm' \<Rightarrow>
                                 if err = E2BIG then memref_die (Some p) s
                                 else (let (rc, js) = js_insert (state_JS s) nm' (Some p) False;
                                           s = s\<lparr>state_JS := js\<rparr>
                                       in if rc \<noteq> 0 then memref_die (Some p) s
                                          else memref_take p s) } })
      | _ \<Rightarrow> memref_die None s)"

subsection \<open>Printing\<close>

definition memref_emit :: "memref \<Rightarrow> (ynode \<times> ynode) list \<Rightarrow> (ynode \<times> ynode) list option" where
  "memref_emit m mapping =
     (if memref_is_value m then
        do { input \<leftarrow> mr_name m; rendered \<leftarrow> mr_rendered m;
             Some (y_pair_insert (y_pair_insert mapping ''value'' input) ''bytes'' rendered) }
      else do { nm \<leftarrow> mr_name m; Some (y_pair_insert mapping ''state'' nm) })"

subsection \<open>The invariant of the component\<close>

text \<open>
  The table of states leads to live states of the name; every live state is in it and has a
  reference; every live value has its text and its rendering; and every memref has as much
  memory as its length says.
\<close>

definition state_name :: "memref \<Rightarrow> string option" where
  "state_name m = (if memref_is_value m then None else mr_name m)"

definition memref_ok :: "addr judySL \<Rightarrow> addr \<Rightarrow> addr \<Rightarrow> memref \<Rightarrow> bool" where
  "memref_ok js next p m \<longleftrightarrow>
     p < next \<and> length (mr_bytes m) = unat (fs_len (mr_set m)) \<and>
     (if memref_is_value m then mr_name m \<noteq> None \<and> mr_rendered m \<noteq> None
      else mr_refcnt m \<noteq> 0 \<and> (\<exists>n. mr_name m = Some n \<and> js_get js n = Some p))"

definition memref_inv :: "'a memref_state_scheme \<Rightarrow> bool" where
  "memref_inv s \<longleftrightarrow> registered state_name (state_JS s) (memref_heap s) \<and>
     (\<forall>p m. memref_heap s p = Some m \<longrightarrow> memref_ok (state_JS s) (next_addr s) p m)"

lemma memref_inv_registered: "memref_inv s \<Longrightarrow> registered state_name (state_JS s) (memref_heap s)"
  by (simp add: memref_inv_def)

lemma memref_inv_judy: "memref_inv s \<Longrightarrow> judy_ok (state_JS s)"
  by (simp add: memref_inv_def registered_def)

lemma memref_inv_live: "memref_inv s \<Longrightarrow> memref_heap s p = Some m \<Longrightarrow> memref_ok (state_JS s) (next_addr s) p m"
  by (simp add: memref_inv_def)

lemma memref_inv_get:
  assumes "memref_inv s" and "js_get (state_JS s) n = Some p"
  obtains m where "memref_heap s p = Some m" "\<not> memref_is_value m" "mr_name m = Some n" "mr_refcnt m \<noteq> 0"
proof -
  obtain m where m: "memref_heap s p = Some m" "state_name m = Some n"
    using reg.named_get[OF memref_inv_registered[OF assms(1)] assms(2)] by auto
  then show ?thesis
    using that memref_inv_live[OF assms(1) m(1)]
    by (auto simp: state_name_def memref_ok_def split: if_splits)
qed

lemma memref_inv_fresh [simp]: "memref_inv s \<Longrightarrow> next_addr s \<le> p \<Longrightarrow> memref_heap s p = None"
  using memref_inv_live[of s p] by (cases "memref_heap s p") (auto simp: memref_ok_def)

lemma memref_ok_mono: "memref_ok js n p m \<Longrightarrow> n \<le> n' \<Longrightarrow> memref_ok js n' p m"
  by (simp add: memref_ok_def split: if_splits)

lemma memref_ok_table:
  assumes "memref_ok js n p m" and "\<And>k. js_get js k = Some p \<Longrightarrow> js_get js' k = Some p"
  shows "memref_ok js' n p m"
proof (cases "memref_is_value m")
  case False
  with assms(1) obtain k where "mr_name m = Some k" "js_get js k = Some p"
    by (auto simp: memref_ok_def)
  with False assms show ?thesis by (simp add: memref_ok_def)
qed (use assms(1) in \<open>simp add: memref_ok_def\<close>)

lemma memref_invI:
  assumes "registered state_name (state_JS s) (memref_heap s)"
    and "\<And>p m. memref_heap s p = Some m \<Longrightarrow> memref_ok (state_JS s) (next_addr s) p m"
  shows "memref_inv s"
  using assms unfolding memref_inv_def by blast

lemma memref_inv_next:
  assumes "memref_inv s" and "next_addr s \<le> n"
  shows "memref_inv (s\<lparr>next_addr := n\<rparr>)"
proof (rule memref_invI)
  show "memref_ok (state_JS (s\<lparr>next_addr := n\<rparr>)) (next_addr (s\<lparr>next_addr := n\<rparr>)) p m"
    if "memref_heap (s\<lparr>next_addr := n\<rparr>) p = Some m" for p m
    using memref_ok_mono[OF memref_inv_live[OF assms(1)] assms(2), of p m] that by simp
qed (simp add: memref_inv_registered[OF assms(1)])

text \<open>A change of a live memref that keeps what identifies it.\<close>

lemma memref_inv_update:
  assumes I: "memref_inv s" and p: "memref_heap s p = Some m"
    and m': "mr_name m' = mr_name m" "mr_rendered m' = mr_rendered m" "mr_set m' = mr_set m"
      "length (mr_bytes m') = length (mr_bytes m)" "mr_refcnt m' \<noteq> 0 \<or> memref_is_value m"
  shows "memref_inv (s\<lparr>memref_heap := (memref_heap s)(p \<mapsto> m')\<rparr>)"
proof -
  have v: "memref_is_value m' = memref_is_value m" using m' by (simp add: memref_is_value_def)
  show ?thesis
  proof (rule memref_invI)
    show "registered state_name (state_JS (s\<lparr>memref_heap := (memref_heap s)(p \<mapsto> m')\<rparr>))
       (memref_heap (s\<lparr>memref_heap := (memref_heap s)(p \<mapsto> m')\<rparr>))"
      using reg.named_update[OF memref_inv_registered[OF I] p, of m'] v m'(1) by (simp add: state_name_def)
    show "memref_ok (state_JS (s\<lparr>memref_heap := (memref_heap s)(p \<mapsto> m')\<rparr>))
       (next_addr (s\<lparr>memref_heap := (memref_heap s)(p \<mapsto> m')\<rparr>)) q k"
      if "memref_heap (s\<lparr>memref_heap := (memref_heap s)(p \<mapsto> m')\<rparr>) q = Some k" for q k
      using memref_inv_live[OF I, of q] memref_inv_live[OF I p] that v m'
      by (cases "q = p"; cases "memref_is_value m") (auto simp: memref_ok_def)
  qed
qed

text \<open>A new memref, and a removed one.\<close>

lemma memref_inv_add_value:
  assumes "memref_inv s" and "next_addr s \<le> p" and "p < n"
    and "memref_is_value m" "mr_name m \<noteq> None" "mr_rendered m \<noteq> None"
      "length (mr_bytes m) = unat (fs_len (mr_set m))"
  shows "memref_inv (s\<lparr>next_addr := n, memref_heap := (memref_heap s)(p \<mapsto> m)\<rparr>)" (is "memref_inv ?s'")
proof (rule memref_invI)
  show "registered state_name (state_JS ?s') (memref_heap ?s')"
    using assms(1,2) reg.named_fresh[OF memref_inv_registered[OF assms(1)], of p m] by simp
  show "memref_ok (state_JS ?s') (next_addr ?s') q k" if "memref_heap ?s' q = Some k" for q k
  proof (cases "q = p")
    case True
    with that assms show ?thesis by (simp add: memref_ok_def)
  next
    case False
    with that assms(2,3) memref_ok_mono[OF memref_inv_live[OF assms(1), of q k], of n] show ?thesis by simp
  qed
qed

lemma memref_inv_add_state:
  assumes I: "memref_inv s" and free: "js_get (state_JS s) nm = None"
    and m: "\<not> memref_is_value m" "mr_name m = Some nm" "mr_refcnt m \<noteq> 0"
      "length (mr_bytes m) = unat (fs_len (mr_set m))"
  shows "memref_inv (s\<lparr>next_addr := next_addr s + 1, memref_heap := (memref_heap s)(next_addr s \<mapsto> m),
     state_JS := snd (js_insert (state_JS s) nm (Some (next_addr s)) False)\<rparr>)" (is "memref_inv ?s'")
proof -
  let ?p = "next_addr s"
  have get: "js_get (state_JS ?s') = (js_get (state_JS s))(nm \<mapsto> ?p)"
    using free memref_inv_judy[OF I] by (simp add: js.ins_get)
  have "registered state_name (state_JS ?s') (memref_heap ?s')"
    using reg.named_add[OF memref_inv_registered[OF I], of m nm ?p False] free m I
    by (simp add: state_name_def)
  moreover have "memref_ok (state_JS ?s') (next_addr ?s') q m'" if "memref_heap ?s' q = Some m'" for q m'
  proof (cases "q = ?p")
    case True
    with that m get show ?thesis by (auto simp: memref_ok_def)
  next
    case False
    with that have ok: "memref_ok (state_JS s) ?p q m'" using memref_inv_live[OF I] by simp
    have "js_get (state_JS ?s') k = Some q" if "js_get (state_JS s) k = Some q" for k
      using that free unfolding get by auto
    from memref_ok_mono[OF memref_ok_table[OF ok this], of "?p + 1"] show ?thesis by simp
  qed
  ultimately show ?thesis unfolding memref_inv_def by blast
qed

lemma memref_inv_remove:
  assumes I: "memref_inv s" and p: "memref_heap s p = Some m"
  shows "memref_inv (s\<lparr>memref_heap := (memref_heap s)(p := None),
     state_JS := (if memref_is_value m then state_JS s else js_delete (state_JS s) (the (mr_name m)))\<rparr>)"
    (is "memref_inv ?s'")
proof -
  have jok: "judy_ok (state_JS s)" using memref_inv_judy[OF I] .
  have own: "js_get (state_JS ?s') n = Some q \<longleftrightarrow> js_get (state_JS s) n = Some q \<and> q \<noteq> p" for n q
  proof (cases "memref_is_value m")
    case True
    have "js_get (state_JS s) n \<noteq> Some p"
    proof
      assume "js_get (state_JS s) n = Some p"
      from memref_inv_get[OF I this] p True show False by auto
    qed
    with True show ?thesis by auto
  next
    case False
    then obtain n' where n': "mr_name m = Some n'" "js_get (state_JS s) n' = Some p"
      using memref_inv_live[OF I p] by (auto simp: memref_ok_def)
    have del: "js_get (state_JS ?s') = (js_get (state_JS s))(n' := None)"
      using False n'(1) jok by (simp add: js.del_get)
    show ?thesis
    proof (cases "n = n'")
      case True
      with n'(2) show ?thesis unfolding del by simp
    next
      case ne: False
      have "js_get (state_JS s) n \<noteq> Some p"
      proof
        assume "js_get (state_JS s) n = Some p"
        from memref_inv_get[OF I this] p n'(1) ne show False by auto
      qed
      with ne show ?thesis unfolding del by auto
    qed
  qed
  have "judy_ok (state_JS ?s')" using jok by (simp add: js.del_ok)
  moreover have "\<exists>ob. memref_heap ?s' q = Some ob \<and> state_name ob = Some n"
    if "js_get (state_JS ?s') n = Some q" for n q
    using that own memref_inv_registered[OF I] by (auto simp: registered_def)
  moreover have "memref_ok (state_JS ?s') (next_addr ?s') q m'" if "memref_heap ?s' q = Some m'" for q m'
  proof -
    have "q \<noteq> p" "memref_heap s q = Some m'" using that by (auto split: if_splits)
    then have ok: "memref_ok (state_JS s) (next_addr s) q m'" using memref_inv_live[OF I] by simp
    have "js_get (state_JS ?s') n = Some q" if "js_get (state_JS s) n = Some q" for n
      using own \<open>q \<noteq> p\<close> that by blast
    with memref_ok_table[OF ok] show ?thesis by simp
  qed
  ultimately show ?thesis unfolding memref_inv_def registered_def by blast
qed

subsection \<open>The operations under the invariant\<close>

lemma is_value_flags:
  "fs_flags (mr_set m) = MEMREF_FLAG_STATIC \<Longrightarrow> memref_is_value m"
  "fs_flags (mr_set m) = 0 \<Longrightarrow> \<not> memref_is_value m"
  by (simp_all add: memref_is_value_def MEMREF_FLAG_STATIC_def)

lemma flags_same [simp]: "fs_flags fs = f \<Longrightarrow> fs\<lparr>fs_flags := f\<rparr> = fs"
  by (cases fs) simp

lemma refcnt_take_0 [simp]: "refcnt_take 0 = 1" by (simp add: refcnt_take_def)

definition state_memref :: "string \<Rightarrow> field_set \<Rightarrow> memref" where
  "state_memref nm fs = \<lparr>mr_name = Some nm, mr_refcnt = 1, mr_rendered = None, mr_set = fs,
     mr_bytes = replicate (unat (fs_len fs)) 0\<rparr>"

definition value_memref :: "string \<Rightarrow> string \<Rightarrow> field_set \<Rightarrow> byte list \<Rightarrow> memref" where
  "value_memref v t fs bytes = \<lparr>mr_name = Some v, mr_refcnt = 0, mr_rendered = Some t,
     mr_set = fs\<lparr>fs_flags := MEMREF_FLAG_STATIC\<rparr>, mr_bytes = bytes\<rparr>"

definition state_name_ok :: "env \<Rightarrow> string \<Rightarrow> bool" where
  "state_name_ok E nm \<longleftrightarrow> snd (nstralloc E nm MAXLINELEN) \<noteq> E2BIG"

text \<open>Getting a state: the one of that name if it fits the field, else a new one.\<close>

lemma memref_state_get_eq:
  assumes E: "nstralloc_ok E" and I: "memref_inv s"
    and fl: "field_heap s f = Some fl" "fs_flags (fl_set fl) = 0"
  shows "memref_state_get E (Some f) (Some nm) s =
    (case js_get (state_JS s) nm of
       Some p \<Rightarrow>
         if memref_state_eq (mr_set (the (memref_heap s p))) (fl_set fl)
         then Some (Some p, s\<lparr>memref_heap := (memref_heap s)(p \<mapsto>
                (the (memref_heap s p))\<lparr>mr_refcnt := refcnt_take (mr_refcnt (the (memref_heap s p)))\<rparr>)\<rparr>)
         else Some (None, s)
     | None \<Rightarrow>
         if calloc_ok E (next_addr s) \<and> state_name_ok E nm
         then Some (Some (next_addr s), s\<lparr>next_addr := next_addr s + 1,
                memref_heap := (memref_heap s)(next_addr s \<mapsto> state_memref nm (fl_set fl)),
                state_JS := snd (js_insert (state_JS s) nm (Some (next_addr s)) False)\<rparr>)
         else Some (None, s\<lparr>next_addr := next_addr s + 1\<rparr>))"
proof (cases "js_get (state_JS s) nm")
  case (Some p)
  obtain m where "memref_heap s p = Some m" using memref_inv_get[OF I Some] .
  with Some fl(1) show ?thesis
    by (simp add: memref_state_get_def memref_die_def memref_release_def memref_take_def)
next
  case None
  let ?p = "next_addr s"
  have fresh: "memref_heap s ?p = None" using I by simp
  then have undo: "(memref_heap s)(?p := None) = memref_heap s" by auto
  have noname: "js_get (state_JS s) t \<noteq> Some ?p" for t
    using reg.get_fresh[OF memref_inv_registered[OF I] fresh] .
  show ?thesis
  proof (cases "calloc_ok E ?p")
    case False
    with None fl show ?thesis
      by (simp add: memref_state_get_def memref_alloc_common_def calloc_def memref_die_def memref_release_def)
  next
    case True
    show ?thesis
    proof (rule nstralloc_cases[OF E, of nm MAXLINELEN])
      fix t
      assume "nstralloc E nm MAXLINELEN = (Some t, E2BIG)"
      with True None fl noname[of t] undo show ?thesis
        by (simp add: memref_state_get_def memref_alloc_common_def calloc_def memref_die_def
            memref_release_def state_name_ok_def is_value_flags)
    next
      fix e
      assume "nstralloc E nm MAXLINELEN = (Some nm, e)" "e \<noteq> E2BIG"
      moreover obtain js' where "js_insert (state_JS s) nm (Some ?p) False = (0, js')"
        using js.ins_new[of "state_JS s" False nm ?p] memref_inv_judy[OF I] None by auto
      ultimately show ?thesis
        using True None fl
        by (simp add: memref_state_get_def memref_alloc_common_def calloc_def memref_take_def
            state_name_ok_def state_memref_def Let_def)
    qed
  qed
qed

text \<open>Making a value: its text must be short enough and parse to the length of the field.\<close>

lemma memref_value_new_eq:
  assumes E: "nstralloc_ok E" "hx2b_ok E" and I: "memref_inv s"
    and fl: "field_heap s f = Some fl" "fs_flags (fl_set fl) = 0"
  shows "memref_value_new E (Some f) (Some v) s =
    (let n = next_addr s; len = unat (fs_len (fl_set fl));
         (bad, bytes) = the (value_parse E (Some v) len)
     in if calloc_ok E n \<and> snd (nstralloc E v MAXVALUELEN) \<notin> {EINVAL, E2BIG} \<and> bad = 0
        then if calloc_ok E (n + 1)
          then Some (Some n, s\<lparr>next_addr := n + 2, memref_heap := (memref_heap s)(n \<mapsto>
                 value_memref v (if len = 0 then '''' else ''0x'' @ b2hx_BE E bytes) (fl_set fl) bytes)\<rparr>)
          else Some (None, s\<lparr>next_addr := n + 2\<rparr>)
        else Some (None, s\<lparr>next_addr := n + 1\<rparr>))"
proof -
  let ?p = "next_addr s" and ?len = "unat (fs_len (fl_set fl))"
  have "memref_heap s ?p = None" using I by simp
  then have undo: "(memref_heap s)(?p := None) = memref_heap s" by auto
  obtain bad bytes where vp: "value_parse E (Some v) ?len = Some (bad, bytes)" "length bytes = ?len"
    using value_parse_returns[OF E(2), of v ?len] by blast
  have die: "memref_die (Some ?p) t = Some (None, t\<lparr>memref_heap := (memref_heap t)(?p := None)\<rparr>)"
    if "memref_heap t ?p = Some m" "memref_is_value m" for t :: "'a memref_state_scheme" and m
    using that by (simp add: memref_die_def memref_release_def)
  show ?thesis
  proof (cases "calloc_ok E ?p")
    case False
    with fl show ?thesis
      by (simp add: memref_value_new_def memref_alloc_common_def calloc_def memref_die_def memref_release_def
          split_beta Let_def)
  next
    case True
    show ?thesis
    proof (rule nstralloc_cases[OF E(1), of v MAXVALUELEN])
      fix t
      assume "nstralloc E v MAXVALUELEN = (Some t, E2BIG)"
      with True fl undo show ?thesis
        by (simp add: memref_value_new_def memref_alloc_common_def calloc_def die is_value_flags
            split_beta Let_def)
    next
      fix e
      assume cp: "nstralloc E v MAXVALUELEN = (Some v, e)" "e \<noteq> E2BIG"
      show ?thesis
      proof (cases "e = EINVAL \<or> bad \<noteq> 0")
        case True
        with \<open>calloc_ok E ?p\<close> cp fl undo vp show ?thesis
          by (auto simp add: memref_value_new_def memref_alloc_common_def calloc_def die is_value_flags Let_def)
      next
        case False
        with \<open>calloc_ok E ?p\<close> cp fl undo vp show ?thesis
          by (auto simp add: memref_value_new_def memref_alloc_common_def calloc_def die is_value_flags
              value_render_def value_memref_def Let_def)
      qed
    qed
  qed
qed

text \<open>Whether there is memory for a string that is not copied does not matter.\<close>

lemma value_granting [simp]: "value_parse (granting E) = value_parse E" "value_render (granting E) = value_render E"
  by (intro ext; unfold value_parse_def value_render_def granting_sel(2,3) calloc_granting; rule refl)+

lemma memref_granting:
  "(\<And>nm. name = Some nm \<Longrightarrow> copied E nm MAXLINELEN) \<Longrightarrow> memref_state_get (granting E) fp name s = memref_state_get E fp name s"
  "(\<And>v. val = Some v \<Longrightarrow> copied E v MAXVALUELEN) \<Longrightarrow> memref_value_new (granting E) fp val s = memref_value_new E fp val s"
proof -
  note unfolds = memref_alloc_common_def calloc_granting value_granting prod.case option.case granting_sel(4)
  show "memref_state_get (granting E) fp name s = memref_state_get E fp name s"
    if ok: "\<And>nm. name = Some nm \<Longrightarrow> copied E nm MAXLINELEN"
  proof (cases "fp = None \<or> name = None")
    case False
    then obtain f nm where "fp = Some f" "name = Some nm" by auto
    then show ?thesis unfolding memref_state_get_def by (simp only: unfolds ok)
  qed (auto simp: memref_state_get_def split: option.split)
  show "memref_value_new (granting E) fp val s = memref_value_new E fp val s"
    if ok: "\<And>v. val = Some v \<Longrightarrow> copied E v MAXVALUELEN"
  proof (cases "fp = None \<or> val = None")
    case False
    then obtain f v where "fp = Some f" "val = Some v" by auto
    then show ?thesis unfolding memref_value_new_def by (simp only: unfolds ok)
  qed (auto simp: memref_value_new_def split: option.split)
qed

text \<open>
  Without memory for the string neither is survived: a new state is released with the name NULL,
  and a value of some length is parsed from NULL, which \<open>memref_value_new\<close> does not test for.
\<close>

lemma memref_state_get_null:
  assumes "js_get (state_JS s) nm = None" and "field_heap s f = Some fl" and "fs_flags (fl_set fl) = 0"
    and "calloc_ok E (next_addr s)" and "\<not> copied E nm MAXLINELEN"
  shows "memref_state_get E (Some f) (Some nm) s = None"
  using assms
  by (simp add: copied_def memref_state_get_def memref_alloc_common_def calloc_def memref_die_def memref_release_def
      is_value_flags split_beta Let_def)

lemma memref_value_new_null:
  assumes "field_heap s f = Some fl" and "fs_len (fl_set fl) \<noteq> 0" and "calloc_ok E (next_addr s)"
    and "\<not> copied E v MAXVALUELEN" and "snd (nstralloc E v MAXVALUELEN) \<notin> {EINVAL, E2BIG}"
  shows "memref_value_new E (Some f) (Some v) s = None"
  using assms
  by (simp add: copied_def memref_value_new_def memref_alloc_common_def calloc_def value_parse_def unat_eq_zero
      split_beta Let_def)

text \<open>Releasing: a value goes at once, a state with its last reference.\<close>

lemma memref_release_eq:
  assumes I: "memref_inv s" and p: "memref_heap s p = Some m"
  shows "memref_release (Some p) s =
    (if memref_is_value m \<or> mr_refcnt m = 1
     then Some (s\<lparr>memref_heap := (memref_heap s)(p := None),
            state_JS := (if memref_is_value m then state_JS s else js_delete (state_JS s) (the (mr_name m)))\<rparr>)
     else Some (s\<lparr>memref_heap := (memref_heap s)(p \<mapsto> m\<lparr>mr_refcnt := mr_refcnt m - 1\<rparr>)\<rparr>))"
  using memref_inv_live[OF I p] p
  by (auto simp: memref_release_def memref_ok_def refcnt_release_def Let_def)

lemma memref_release_inv:
  assumes I: "memref_inv s" and "memref_release q s = Some s'"
  shows "memref_inv s'"
proof (cases q)
  case None
  with assms show ?thesis by (simp add: memref_release_def)
next
  case (Some p)
  with assms(2) obtain m where p: "memref_heap s p = Some m"
    by (auto simp: memref_release_def bind_eq_Some_conv)
  show ?thesis
  proof (cases "memref_is_value m \<or> mr_refcnt m = 1")
    case True
    with memref_inv_remove[OF I p] assms(2) Some show ?thesis
      by (simp add: memref_release_eq[OF I p])
  next
    case False
    with memref_inv_update[OF I p, of "m\<lparr>mr_refcnt := mr_refcnt m - 1\<rparr>"] assms(2) Some show ?thesis
      by (simp add: memref_release_eq[OF I p])
  qed
qed

lemma memref_state_get_inv:
  assumes E: "nstralloc_ok E" and I: "memref_inv s"
    and fl: "field_heap s f = Some fl" "fs_flags (fl_set fl) = 0"
    and few: "\<And>p m. memref_heap s p = Some m \<Longrightarrow> refcnt_take (mr_refcnt m) \<noteq> 0"
    and get: "memref_state_get E (Some f) (Some nm) s = Some (r, s')"
  shows "memref_inv s'"
proof (cases "js_get (state_JS s) nm")
  case (Some p)
  then obtain m where m: "memref_heap s p = Some m" using memref_inv_get[OF I] by blast
  with Some get I memref_inv_update[OF I m, of "m\<lparr>mr_refcnt := refcnt_take (mr_refcnt m)\<rparr>"] few[OF m]
  show ?thesis by (auto simp: memref_state_get_eq[OF E I fl] split: if_splits)
next
  case None
  have "memref_inv (s\<lparr>next_addr := next_addr s + 1, memref_heap := (memref_heap s)(next_addr s \<mapsto> state_memref nm (fl_set fl)),
     state_JS := snd (js_insert (state_JS s) nm (Some (next_addr s)) False)\<rparr>)"
    using fl(2) by (intro memref_inv_add_state[OF I None]) (simp_all add: state_memref_def is_value_flags)
  with None get memref_inv_next[OF I, of "next_addr s + 1"] show ?thesis
    by (auto simp: memref_state_get_eq[OF E I fl] split: if_splits)
qed

lemma memref_value_new_inv:
  assumes E: "nstralloc_ok E" "hx2b_ok E" and I: "memref_inv s"
    and fl: "field_heap s f = Some fl" "fs_flags (fl_set fl) = 0"
    and new: "memref_value_new E (Some f) (Some v) s = Some (r, s')"
  shows "memref_inv s'"
proof -
  let ?n = "next_addr s" and ?len = "unat (fs_len (fl_set fl))"
  obtain bad bytes where vp: "value_parse E (Some v) ?len = Some (bad, bytes)" "length bytes = ?len"
    using value_parse_returns[OF E(2), of v ?len] by blast
  have "memref_inv (s\<lparr>next_addr := ?n + 2, memref_heap := (memref_heap s)(?n \<mapsto>
      value_memref v t (fl_set fl) bytes)\<rparr>)" for t
    using vp(2) by (intro memref_inv_add_value[OF I]) (simp_all add: value_memref_def is_value_flags)
  with new vp(1) memref_inv_next[OF I, of "?n + 1"] memref_inv_next[OF I, of "?n + 2"] show ?thesis
    by (auto simp: memref_value_new_eq[OF E I fl] Let_def split: if_splits)
qed

subsection \<open>What the operations do\<close>

definition memref_state0 :: memref_state where
  "memref_state0 = \<lparr>next_addr = 2, field_heap = [1 \<mapsto> \<lparr>fl_name = Some ''ttl'', fl_set = field_set_of 22 1 0, fl_refcnt = 0\<rparr>],
     field_JS = [(''ttl'', Some 1)], memref_heap = Map.empty, state_JS = []\<rparr>"

lemma memref_inv0: "memref_inv memref_state0"
  by (simp add: memref_state0_def memref_inv_def registered_def js_get_def)

text \<open>
  C32: states are shared by name. Asking for a state whose name is taken returns the one memory
  of that name, with one reference more, exactly when the field has the length and mask that
  the state was made with; with any other field it returns NULL and changes nothing. Asking
  for a new name makes zeroed memory as long as the field, with one reference.
\<close>

theorem memref_state_get_correct:
  assumes "nstralloc_ok E" and "memref_inv s"
    and "field_heap s f = Some fl" and "fs_flags (fl_set fl) = 0"
    and "calloc_ok E (next_addr s)" and "length nm < MAXLINELEN"
  shows "\<exists>r s'. memref_state_get E (Some f) (Some nm) s = Some (r, s') \<and>
    (case js_get (state_JS s) nm of
       Some p \<Rightarrow>
         (\<exists>m. memref_heap s p = Some m \<and>
           (if fs_len (mr_set m) = fs_len (fl_set fl) \<and> fs_mask (mr_set m) = fs_mask (fl_set fl)
            then r = Some p \<and> state_JS s' = state_JS s \<and>
                 memref_heap s' = (memref_heap s)(p \<mapsto> m\<lparr>mr_refcnt := mr_refcnt m + 1\<rparr>)
            else r = None \<and> s' = s))
     | None \<Rightarrow>
         r = Some (next_addr s) \<and> js_get (state_JS s') = (js_get (state_JS s))(nm \<mapsto> next_addr s) \<and>
         memref_heap s' = (memref_heap s)(next_addr s \<mapsto> state_memref nm (fl_set fl)))"
proof (cases "js_get (state_JS s) nm")
  case (Some p)
  obtain m where "memref_heap s p = Some m" using memref_inv_get[OF assms(2) Some] .
  with Some show ?thesis
    by (simp add: memref_state_get_eq[OF assms(1-4)] memref_state_eq_def refcnt_take_def)
next
  case None
  have "snd (nstralloc E nm MAXLINELEN) \<noteq> E2BIG"
    using nstralloc_fits[OF assms(1,6)] by simp
  with None assms(5) memref_inv_judy[OF assms(2)] show ?thesis
    by (simp add: memref_state_get_eq[OF assms(1-4)] state_name_ok_def js.ins_get)
qed

theorem memref_state_get_correct_witness:
  "\<exists>r s'. memref_state_get env0 (Some 1) (Some ''s'') memref_state0 = Some (r, s') \<and>
     r = Some 2 \<and> memref_heap s' = [2 \<mapsto> state_memref ''s'' (field_set_of 22 1 0)]"
proof -
  have *: "next_addr memref_state0 = 2" "memref_heap memref_state0 = Map.empty"
    "js_get (state_JS memref_state0) ''s'' = None"
    "field_heap memref_state0 1 = Some \<lparr>fl_name = Some ''ttl'', fl_set = field_set_of 22 1 0, fl_refcnt = 0\<rparr>"
    by (simp_all add: memref_state0_def js_get_def)
  then show ?thesis
    using memref_state_get_correct[of env0 memref_state0 1 _ "''s''", OF _ memref_inv0 *(4)]
    by (auto simp: MAXLINELEN_def field_set_of_def)
qed

end
