(* ===== verification/Operations.thy ===== *)
theory Operations
  imports Memref
begin

text \<open>
  include/operations.h and src/operations.c: the primitive that everything else is made of,
  comparing or copying one extent of memory with another, where each side is a field of the
  packet or a memref. \<open>op_set\<close> is the compiled form that the hot path runs (\<open>op_match\<close>,
  \<open>op_write\<close>); \<open>op\<close> holds the references it was made from. A matching or writing access
  outside of the packet buffer or of a memref is undefined (\<open>None\<close>).
\<close>

subsection \<open>Data\<close>

record op_set =
  os_set_to :: field_set
  os_to :: ptr
  os_set_from :: field_set
  os_from :: ptr

record op =
  op_dst_field :: ptr
  op_dst :: ptr
  op_src_field :: ptr
  op_src :: ptr
  op_set :: op_set

record op_state = memref_state +
  op_heap :: "addr \<rightharpoonup> op"

definition op_zero :: op where
  "op_zero = \<lparr>op_dst_field = None, op_dst = None, op_src_field = None, op_src = None,
     op_set = \<lparr>os_set_to = set_zero, os_to = None, os_set_from = set_zero, os_from = None\<rparr>\<rparr>"

subsection \<open>Memory\<close>

text \<open>
  Where an access goes: a distance from the start of the packet's buffer, or into the bytes
  of the memref at an address.
\<close>

datatype loc = InPkt nat | InMem addr nat

fun loc_add :: "loc \<Rightarrow> nat \<Rightarrow> loc" where
  "loc_add (InPkt i) n = InPkt (i + n)"
| "loc_add (InMem a i) n = InMem a (i + n)"

fun mem_load :: "loc \<Rightarrow> nat \<Rightarrow> byte list \<Rightarrow> 'a memref_state_scheme \<Rightarrow> byte list option" where
  "mem_load (InPkt i) n pkt s = (if i + n \<le> length pkt then Some (read_at pkt i n) else None)"
| "mem_load (InMem a i) n pkt s =
     do { m \<leftarrow> memref_heap s a;
          if i + n \<le> length (mr_bytes m) then Some (read_at (mr_bytes m) i n) else None }"

fun mem_store ::
  "loc \<Rightarrow> byte list \<Rightarrow> byte list \<Rightarrow> 'a memref_state_scheme \<Rightarrow> (byte list \<times> 'a memref_state_scheme) option"
where
  "mem_store (InPkt i) bs pkt s =
     (if i + length bs \<le> length pkt then Some (write_at pkt i bs, s) else None)"
| "mem_store (InMem a i) bs pkt s =
     do { m \<leftarrow> memref_heap s a;
          if i + length bs \<le> length (mr_bytes m)
          then Some (pkt, s\<lparr>memref_heap := (memref_heap s)(a \<mapsto> m\<lparr>mr_bytes := write_at (mr_bytes m) i bs\<rparr>)\<rparr>)
          else None }"

text \<open>\<open>memcpy\<close> is undefined on areas that overlap.\<close>

fun mem_overlap :: "loc \<Rightarrow> loc \<Rightarrow> nat \<Rightarrow> bool" where
  "mem_overlap (InPkt i) (InPkt j) n = (i < j + n \<and> j < i + n)"
| "mem_overlap (InMem a i) (InMem b j) n = (a = b \<and> i < j + n \<and> j < i + n)"
| "mem_overlap _ _ n = False"

subsection \<open>The hot path\<close>

definition op_pkt_offset :: "nat \<Rightarrow> field_set \<Rightarrow> nat option" where
  "op_pkt_offset plen fs =
     (let wher = sint (fs_offt fs);
          wher = (if sint (fs_offt fs) < 0 then wher + int plen else wher)
      in if wher < 0 then None
         else if int plen < wher + int (unat (fs_len fs)) then None
         else Some (nat wher))"

text \<open>
  \<open>op_common\<close> fails (the return value 1), or finds nothing to do (the length -1), or gives
  the length but one and the two sides.
\<close>

datatype op_args = Op_fail | Op_nop | Op_args nat loc loc

definition op_common :: "op_set \<Rightarrow> nat \<Rightarrow> op_args" where
  "op_common os plen =
     (let out_len = (if fs_len (os_set_from os) < fs_len (os_set_to os)
                     then unat (fs_len (os_set_to os)) else unat (fs_len (os_set_from os)))
      in if out_len = 0 then Op_nop
         else let out_len = out_len - 1;
                  to = (case os_to os of
                          Some a \<Rightarrow> Some (InMem a 0)
                        | None \<Rightarrow> map_option InPkt (op_pkt_offset plen (os_set_to os)));
                  from = (case os_from os of
                            Some a \<Rightarrow> Some (InMem a 0)
                          | None \<Rightarrow> map_option InPkt (op_pkt_offset plen (os_set_from os)))
              in case (to, from) of
                   (Some t, Some f) \<Rightarrow> Op_args out_len t f
                 | _ \<Rightarrow> Op_fail)"

definition op_match :: "op_set \<Rightarrow> byte list \<Rightarrow> nat \<Rightarrow> 'a memref_state_scheme \<Rightarrow> nat option" where
  "op_match os pkt plen s =
     (case op_common os plen of
        Op_fail \<Rightarrow> Some 1
      | Op_nop \<Rightarrow> Some 0
      | Op_args len to from \<Rightarrow>
          do { a \<leftarrow> mem_load to len pkt s;
               b \<leftarrow> mem_load from len pkt s;
               if a \<noteq> b then Some 1
               else do { x \<leftarrow> mem_load (loc_add to len) 1 pkt s;
                         y \<leftarrow> mem_load (loc_add from len) 1 pkt s;
                         if hd x AND fs_mask (os_set_to os) \<noteq> hd y AND fs_mask (os_set_from os)
                         then Some 1 else Some 0 } })"

definition op_write ::
  "op_set \<Rightarrow> byte list \<Rightarrow> nat \<Rightarrow> 'a memref_state_scheme \<Rightarrow> (nat \<times> byte list \<times> 'a memref_state_scheme) option"
where
  "op_write os pkt plen s =
     (case op_common os plen of
        Op_fail \<Rightarrow> Some (1, pkt, s)
      | Op_nop \<Rightarrow> Some (0, pkt, s)
      | Op_args len to from \<Rightarrow>
          if mem_overlap to from len then None
          else do { b \<leftarrow> mem_load from len pkt s;
                    (pkt, s) \<leftarrow> mem_store to b pkt s;
                    x \<leftarrow> mem_load (loc_add to len) 1 pkt s;
                    y \<leftarrow> mem_load (loc_add from len) 1 pkt s;
                    let z = (hd x AND NOT (fs_mask (os_set_to os))) OR
                            ((hd y AND fs_mask (os_set_to os)) AND fs_mask (os_set_from os));
                    (pkt, s) \<leftarrow> mem_store (loc_add to len) [z] pkt s;
                    Some (0, pkt, s) })"

subsection \<open>Life cycle\<close>

definition op_free :: "ptr \<Rightarrow> 'a op_state_scheme \<Rightarrow> 'a op_state_scheme option" where
  "op_free arg s =
     (case arg of
        None \<Rightarrow> Some s
      | Some p \<Rightarrow>
          do { op \<leftarrow> op_heap s p;
               s \<leftarrow> field_release (op_dst_field op) s;
               s \<leftarrow> field_release (op_src_field op) s;
               s \<leftarrow> memref_release (op_dst op) s;
               s \<leftarrow> memref_release (op_src op) s;
               Some (s\<lparr>op_heap := (op_heap s)(p := None)\<rparr>) })"

definition op_die :: "ptr \<Rightarrow> 'a op_state_scheme \<Rightarrow> (ptr \<times> 'a op_state_scheme) option" where
  "op_die ret s = do { s \<leftarrow> op_free ret s; Some (None, s) }"

text \<open>
  The steps of \<open>op_new\<close> on the object at \<open>p\<close>: each takes a reference if a name is given,
  stores the pointer in the member that \<open>put\<close> sets, and says whether \<open>NB_die_if\<close> fires.
\<close>

definition op_put :: "(op \<Rightarrow> op) \<Rightarrow> addr \<Rightarrow> 'a op_state_scheme \<Rightarrow> 'a op_state_scheme option" where
  "op_put put p s = do { op \<leftarrow> op_heap s p; Some (s\<lparr>op_heap := (op_heap s)(p \<mapsto> put op)\<rparr>) }"

definition op_take_field ::
  "(ptr \<Rightarrow> op \<Rightarrow> op) \<Rightarrow> string option \<Rightarrow> addr \<Rightarrow> 'a op_state_scheme \<Rightarrow> (bool \<times> 'a op_state_scheme) option"
where
  "op_take_field put name p s =
     (case name of
        None \<Rightarrow> Some (False, s)
      | Some nm \<Rightarrow>
          do { (fp, s) \<leftarrow> field_get nm s;
               s \<leftarrow> op_put (put fp) p s;
               Some (fp = None, s) })"

definition op_take_state ::
  "env \<Rightarrow> (ptr \<Rightarrow> op \<Rightarrow> op) \<Rightarrow> ptr \<Rightarrow> string option \<Rightarrow> addr \<Rightarrow> 'a op_state_scheme \<Rightarrow>
   (bool \<times> 'a op_state_scheme) option"
where
  "op_take_state E put fieldp name p s =
     (case name of
        None \<Rightarrow> Some (False, s)
      | Some nm \<Rightarrow>
          do { (mp, s) \<leftarrow> memref_state_get E fieldp (Some nm) s;
               s \<leftarrow> op_put (put mp) p s;
               Some (mp = None, s) })"

definition op_take_value ::
  "env \<Rightarrow> (ptr \<Rightarrow> op \<Rightarrow> op) \<Rightarrow> ptr \<Rightarrow> string option \<Rightarrow> addr \<Rightarrow> 'a op_state_scheme \<Rightarrow>
   (bool \<times> 'a op_state_scheme) option"
where
  "op_take_value E put fieldp value p s =
     (case value of
        None \<Rightarrow> Some (False, s)
      | Some v \<Rightarrow>
          do { (mp, s) \<leftarrow> memref_value_new E fieldp (Some v) s;
               s \<leftarrow> op_put (put mp) p s;
               Some (mp = None, s) })"

text \<open>The last part of \<open>op_new\<close>: the compiled form.\<close>

definition op_compile :: "addr \<Rightarrow> 'a op_state_scheme \<Rightarrow> 'a op_state_scheme option" where
  "op_compile p s =
     do { op \<leftarrow> op_heap s p;
          tf \<leftarrow> (if op_dst_field op \<noteq> None then op_dst_field op else op_src_field op);
          tfl \<leftarrow> field_heap s tf;
          ff \<leftarrow> (if op_src_field op \<noteq> None then op_src_field op else op_dst_field op);
          ffl \<leftarrow> field_heap s ff;
          Some (s\<lparr>op_heap := (op_heap s)(p \<mapsto> op\<lparr>op_set :=
            \<lparr>os_set_to = fl_set tfl, os_to = op_dst op, os_set_from = fl_set ffl, os_from = op_src op\<rparr>\<rparr>)\<rparr>) }"

text \<open>The body of \<open>op_new\<close> once the object at \<open>p\<close> is allocated.\<close>

definition op_build ::
  "env \<Rightarrow> string option \<Rightarrow> string option \<Rightarrow> string option \<Rightarrow> string option \<Rightarrow> string option \<Rightarrow> addr \<Rightarrow>
   'a op_state_scheme \<Rightarrow> (ptr \<times> 'a op_state_scheme) option"
where
  "op_build E dst_field_name dst_state_name src_field_name src_state_name src_value p s =
     do { (bad, s) \<leftarrow> op_take_field (\<lambda>fp op. op\<lparr>op_dst_field := fp\<rparr>) dst_field_name p s;
          if bad then op_die (Some p) s else
     do { (bad, s) \<leftarrow> op_take_field (\<lambda>fp op. op\<lparr>op_src_field := fp\<rparr>) src_field_name p s;
          if bad then op_die (Some p) s else
     do { op \<leftarrow> op_heap s p;
          (bad, s) \<leftarrow> op_take_state E (\<lambda>mp op. op\<lparr>op_dst := mp\<rparr>)
            (if dst_field_name \<noteq> None then op_dst_field op else op_src_field op) dst_state_name p s;
          if bad then op_die (Some p) s else
     do { op \<leftarrow> op_heap s p;
          let src_fieldp = (if src_field_name \<noteq> None then op_src_field op else op_dst_field op);
          (bad, s) \<leftarrow> (if src_state_name \<noteq> None
             then op_take_state E (\<lambda>mp op. op\<lparr>op_src := mp\<rparr>) src_fieldp src_state_name p s
             else op_take_value E (\<lambda>mp op. op\<lparr>op_src := mp\<rparr>) src_fieldp src_value p s);
          if bad then op_die (Some p) s else
     do { s \<leftarrow> op_compile p s; Some (Some p, s) } } } } }"

definition op_new ::
  "env \<Rightarrow> string option \<Rightarrow> string option \<Rightarrow> string option \<Rightarrow> string option \<Rightarrow> string option \<Rightarrow>
   'a op_state_scheme \<Rightarrow> (ptr \<times> 'a op_state_scheme) option"
where
  "op_new E dst_field_name dst_state_name src_field_name src_state_name src_value s =
     (if dst_field_name = None \<and> src_field_name = None then op_die None s
      else if dst_field_name = None \<and> dst_state_name = None then op_die None s
      else if src_field_name = None \<and> src_state_name = None \<and> src_value = None then op_die None s
      else if src_state_name \<noteq> None \<and> src_value \<noteq> None then op_die None s
      else case calloc E s of
        (None, s) \<Rightarrow> op_die None s
      | (Some p, s) \<Rightarrow>
          op_build E dst_field_name dst_state_name src_field_name src_state_name src_value p
            (s\<lparr>op_heap := (op_heap s)(p \<mapsto> op_zero)\<rparr>))"

subsection \<open>Parsing and printing\<close>

record op_locals =
  lo_dst_field_name :: "string option"
  lo_dst_state_name :: "string option"
  lo_src_field_name :: "string option"
  lo_src_state_name :: "string option"
  lo_src_value :: "string option"

definition op_parse_dst :: "string \<Rightarrow> ynode \<Rightarrow> nat \<Rightarrow> op_locals \<Rightarrow> (bool \<times> nat \<times> op_locals) option" where
  "op_parse_dst keyname val e l =
     (let txt = y_txt val in
      if keyname = ''field'' \<or> keyname = ''f'' then Some (False, e, l\<lparr>lo_dst_field_name := txt\<rparr>)
      else if keyname = ''state'' \<or> keyname = ''s'' then Some (False, e, l\<lparr>lo_dst_state_name := txt\<rparr>)
      else if keyname = ''bytes'' then Some (False, e, l)
      else Some (True, e + 1, l))"

definition op_parse_src :: "string \<Rightarrow> ynode \<Rightarrow> nat \<Rightarrow> op_locals \<Rightarrow> (bool \<times> nat \<times> op_locals) option" where
  "op_parse_src keyname val e l =
     (let txt = y_txt val in
      if keyname = ''field'' \<or> keyname = ''f'' then Some (False, e, l\<lparr>lo_src_field_name := txt\<rparr>)
      else if keyname = ''state'' \<or> keyname = ''s'' then Some (False, e, l\<lparr>lo_src_state_name := txt\<rparr>)
      else if keyname = ''value'' \<or> keyname = ''v'' then Some (False, e, l\<lparr>lo_src_value := txt\<rparr>)
      else if keyname = ''bytes'' then Some (False, e, l)
      else Some (True, e + 1, l))"

definition op_parse_pair :: "string \<Rightarrow> ynode \<Rightarrow> nat \<Rightarrow> op_locals \<Rightarrow> (bool \<times> nat \<times> op_locals) option" where
  "op_parse_pair keyname val e l =
     (if keyname = ''dst'' \<or> keyname = ''d'' then
        (case val of YMap ps \<Rightarrow> y_for_map op_parse_dst ps e l | _ \<Rightarrow> Some (False, e + 1, l))
      else if keyname = ''src'' \<or> keyname = ''s'' then
        (case val of YMap ps \<Rightarrow> y_for_map op_parse_src ps e l | _ \<Rightarrow> Some (False, e + 1, l))
      else Some (True, e + 1, l))"

definition op_parse_new ::
  "env \<Rightarrow> (ynode \<times> ynode) list \<Rightarrow> 'a op_state_scheme \<Rightarrow> (ptr \<times> 'a op_state_scheme) option" where
  "op_parse_new E mapping s =
     do { (died, e, l) \<leftarrow> y_for_map op_parse_pair mapping 0
            \<lparr>lo_dst_field_name = None, lo_dst_state_name = None, lo_src_field_name = None,
             lo_src_state_name = None, lo_src_value = None\<rparr>;
          if died then Some (None, s)
          else op_new E (lo_dst_field_name l) (lo_dst_state_name l) (lo_src_field_name l)
                 (lo_src_state_name l) (lo_src_value l) s }"

text \<open>One side of an operation, and the whole.\<close>

definition op_emit_side ::
  "ptr \<Rightarrow> ptr \<Rightarrow> 'a op_state_scheme \<Rightarrow> (ynode \<times> ynode) list option" where
  "op_emit_side fieldp memp s =
     do { mapping \<leftarrow> (case fieldp of
            None \<Rightarrow> Some []
          | Some f \<Rightarrow> do { fl \<leftarrow> field_heap s f; nm \<leftarrow> fl_name fl; Some (y_pair_insert [] ''field'' nm) });
          case memp of
            None \<Rightarrow> Some mapping
          | Some m \<Rightarrow> do { mr \<leftarrow> memref_heap s m; memref_emit mr mapping } }"

definition op_emit :: "addr \<Rightarrow> 'a op_state_scheme \<Rightarrow> ynode list \<Rightarrow> ynode list option" where
  "op_emit p s outlist =
     do { op \<leftarrow> op_heap s p;
          dst \<leftarrow> op_emit_side (op_dst_field op) (op_dst op) s;
          src \<leftarrow> op_emit_side (op_src_field op) (op_src op) s;
          let reply = y_pair_insert_obj (y_pair_insert_obj [] ''dst'' (YMap dst)) ''src'' (YMap src);
          Some (outlist @ [YMap reply]) }"

subsection \<open>What the hot path computes\<close>

text \<open>
  The specification. A side of a compiled operation is the whole memory of its memref, or the
  extent of the packet that its field describes, if the packet has it. Matching compares
  the two sides, each with its last byte run through its mask. Writing replaces the bytes of
  the destination, but keeps the bits of its last byte that its mask leaves out.
\<close>

definition extent :: "field_set \<Rightarrow> byte list \<Rightarrow> nat \<Rightarrow> byte list option" where
  "extent fs pkt plen =
     map_option (\<lambda>i. read_at pkt i (unat (fs_len fs))) (op_pkt_offset plen fs)"

definition op_side :: "field_set \<Rightarrow> ptr \<Rightarrow> byte list \<Rightarrow> nat \<Rightarrow> 'a memref_state_scheme \<Rightarrow> byte list option" where
  "op_side fs mp pkt plen s =
     (case mp of Some a \<Rightarrow> map_option mr_bytes (memref_heap s a) | None \<Rightarrow> extent fs pkt plen)"

definition masked :: "u8 \<Rightarrow> byte list \<Rightarrow> byte list" where
  "masked m bs = butlast bs @ [last bs AND m]"

definition written :: "u8 \<Rightarrow> u8 \<Rightarrow> byte list \<Rightarrow> byte list \<Rightarrow> byte list" where
  "written mt mf old bs = butlast bs @ [(last old AND NOT mt) OR (last bs AND mt AND mf)]"

text \<open>
  A compiled operation whose sides have one length, with memrefs of that length, on a packet
  that its buffer holds.
\<close>

definition op_side_ok :: "field_set \<Rightarrow> ptr \<Rightarrow> 'a memref_state_scheme \<Rightarrow> bool" where
  "op_side_ok fs mp s \<longleftrightarrow>
     (\<forall>a. mp = Some a \<longrightarrow> (\<exists>m. memref_heap s a = Some m \<and> length (mr_bytes m) = unat (fs_len fs)))"

definition op_set_ok :: "op_set \<Rightarrow> byte list \<Rightarrow> nat \<Rightarrow> 'a memref_state_scheme \<Rightarrow> bool" where
  "op_set_ok os pkt plen s \<longleftrightarrow> plen \<le> length pkt \<and> fs_len (os_set_to os) = fs_len (os_set_from os) \<and>
     op_side_ok (os_set_to os) (os_to os) s \<and> op_side_ok (os_set_from os) (os_from os) s"

text \<open>An extent lies in the packet.\<close>

lemma op_pkt_offset_bounds:
  assumes "op_pkt_offset plen fs = Some i"
  shows "i + unat (fs_len fs) \<le> plen"
proof -
  let ?w = "if sint (fs_offt fs) < 0 then sint (fs_offt fs) + int plen else sint (fs_offt fs)"
  from assms have "0 \<le> ?w" "?w + int (unat (fs_len fs)) \<le> int plen" "i = nat ?w"
    by (simp_all add: op_pkt_offset_def Let_def split: if_splits)
  then have "int (i + unat (fs_len fs)) \<le> int plen" by simp
  then show ?thesis by (simp only: zle_int)
qed

lemma op_side_length:
  assumes "op_side_ok fs mp s" and "plen \<le> length pkt" and "op_side fs mp pkt plen s = Some bs"
  shows "length bs = unat (fs_len fs)"
  using assms op_pkt_offset_bounds[of plen fs]
  by (cases mp) (fastforce simp: op_side_def op_side_ok_def extent_def)+

text \<open>The location of a side, and what is there.\<close>

definition op_loc :: "field_set \<Rightarrow> ptr \<Rightarrow> nat \<Rightarrow> loc option" where
  "op_loc fs mp plen =
     (case mp of Some a \<Rightarrow> Some (InMem a 0) | None \<Rightarrow> map_option InPkt (op_pkt_offset plen fs))"

lemma op_common_eq:
  assumes "fs_len (os_set_to os) = fs_len (os_set_from os)"
  shows "op_common os plen =
    (if fs_len (os_set_to os) = 0 then Op_nop
     else case (op_loc (os_set_to os) (os_to os) plen, op_loc (os_set_from os) (os_from os) plen) of
            (Some t, Some f) \<Rightarrow> Op_args (unat (fs_len (os_set_to os)) - 1) t f
          | _ \<Rightarrow> Op_fail)"
  using assms by (simp add: op_common_def op_loc_def unat_eq_zero Let_def split: option.split)

lemma op_loc_load:
  assumes ok: "op_side_ok fs mp s" "plen \<le> length pkt" and l: "op_loc fs mp plen = Some l"
  obtains bs where "op_side fs mp pkt plen s = Some bs" "length bs = unat (fs_len fs)"
    "\<And>i n. i + n \<le> unat (fs_len fs) \<Longrightarrow> mem_load (loc_add l i) n pkt s = Some (read_at bs i n)"
proof (cases mp)
  case (Some a)
  with ok obtain m where "memref_heap s a = Some m" "length (mr_bytes m) = unat (fs_len fs)"
    by (auto simp: op_side_ok_def)
  moreover have "l = InMem a 0" using Some l by (simp add: op_loc_def)
  ultimately show ?thesis using Some that[of "mr_bytes m"] by (simp add: op_side_def)
next
  case None
  with l obtain j where j: "op_pkt_offset plen fs = Some j" "l = InPkt j" by (auto simp: op_loc_def)
  have le: "j + unat (fs_len fs) \<le> length pkt" using op_pkt_offset_bounds[OF j(1)] ok(2) by simp
  show ?thesis
  proof (rule that[of "read_at pkt j (unat (fs_len fs))"])
    show "op_side fs mp pkt plen s = Some (read_at pkt j (unat (fs_len fs)))"
      using None j(1) by (simp add: op_side_def extent_def)
    show "length (read_at pkt j (unat (fs_len fs))) = unat (fs_len fs)" using le by simp
    show "mem_load (loc_add l i) n pkt s = Some (read_at (read_at pkt j (unat (fs_len fs))) i n)"
      if "i + n \<le> unat (fs_len fs)" for i n
      using that le j(2) by (simp add: read_at_read_at)
  qed
qed

lemma op_side_None: "op_side_ok fs mp s \<Longrightarrow> op_loc fs mp plen = None \<longleftrightarrow> op_side fs mp pkt plen s = None"
  by (cases mp) (auto simp: op_side_ok_def op_loc_def op_side_def extent_def)

lemma loc_add_0 [simp]: "loc_add l 0 = l"
  by (cases l) simp_all

lemma masked_eq:
  assumes "length a = Suc n" and "length b = Suc n"
  shows "masked mt a = masked mf b \<longleftrightarrow> read_at a 0 n = read_at b 0 n \<and>
     hd (read_at a n 1) AND mt = hd (read_at b n 1) AND mf"
proof -
  obtain a1 x where a: "a = a1 @ [x]" using assms(1) by (cases a rule: rev_cases) auto
  obtain b1 y where b: "b = b1 @ [y]" using assms(2) by (cases b rule: rev_cases) auto
  show ?thesis using assms unfolding a b by (simp add: masked_def read_at_def)
qed

lemma op_match_eq:
  assumes "op_set_ok os pkt plen s"
  shows "op_match os pkt plen s = Some
    (if fs_len (os_set_to os) = 0 then 0
     else case (op_side (os_set_to os) (os_to os) pkt plen s, op_side (os_set_from os) (os_from os) pkt plen s) of
            (Some a, Some b) \<Rightarrow> if masked (fs_mask (os_set_to os)) a = masked (fs_mask (os_set_from os)) b then 0 else 1
          | _ \<Rightarrow> 1)"
proof -
  let ?to = "os_set_to os" and ?from = "os_set_from os"
  have pl: "plen \<le> length pkt" and len: "fs_len ?to = fs_len ?from"
    and okt: "op_side_ok ?to (os_to os) s" and okf: "op_side_ok ?from (os_from os) s"
    using assms by (simp_all add: op_set_ok_def)
  show ?thesis
  proof (cases "fs_len ?to = 0")
    case True
    then show ?thesis by (simp add: op_match_def op_common_eq[OF len])
  next
    case False
    then obtain n where n: "unat (fs_len ?to) = Suc n" by (metis not0_implies_Suc unat_eq_zero)
    show ?thesis
    proof (cases "op_loc ?to (os_to os) plen = None \<or> op_loc ?from (os_from os) plen = None")
      case True
      with False op_side_None[OF okt, of plen pkt] op_side_None[OF okf, of plen pkt] show ?thesis
        by (auto simp: op_match_def op_common_eq[OF len] split: option.splits)
    next
      case some: False
      then obtain t f where t: "op_loc ?to (os_to os) plen = Some t" and f: "op_loc ?from (os_from os) plen = Some f"
        by auto
      from op_loc_load[OF okt pl t] obtain a where a: "op_side ?to (os_to os) pkt plen s = Some a"
        "length a = Suc n" "\<And>i k. i + k \<le> Suc n \<Longrightarrow> mem_load (loc_add t i) k pkt s = Some (read_at a i k)"
        using n by metis
      from op_loc_load[OF okf pl f] obtain b where b: "op_side ?from (os_from os) pkt plen s = Some b"
        "length b = Suc n" "\<And>i k. i + k \<le> Suc n \<Longrightarrow> mem_load (loc_add f i) k pkt s = Some (read_at b i k)"
        using n len by metis
      show ?thesis
        using False a(1,3) a(3)[of 0 n] b(1,3) b(3)[of 0 n]
        by (auto simp: op_match_def op_common_eq[OF len] t f n masked_eq[OF a(2) b(2)])
    qed
  qed
qed

text \<open>
  C12: matching implements its specification. For every compiled operation with sides of one
  length, every packet and every state, \<open>op_match\<close> reads only memory that is there, and
  returns 0 exactly when both sides exist and are equal up to their masks, or the length is 0.
\<close>

theorem op_match_refines:
  assumes "op_set_ok os pkt plen s"
  shows "op_match os pkt plen s = Some
    (if fs_len (os_set_to os) = 0 then 0
     else case (op_side (os_set_to os) (os_to os) pkt plen s, op_side (os_set_from os) (os_from os) pkt plen s) of
            (Some a, Some b) \<Rightarrow> if masked (fs_mask (os_set_to os)) a = masked (fs_mask (os_set_from os)) b then 0 else 1
          | _ \<Rightarrow> 1)"
  using assms by (rule op_match_eq)

subsection \<open>What writing does\<close>

text \<open>Stores and loads of areas that do not meet.\<close>

fun loc_disjoint :: "loc \<Rightarrow> nat \<Rightarrow> loc \<Rightarrow> nat \<Rightarrow> bool" where
  "loc_disjoint (InPkt i) n (InPkt j) k = (i + n \<le> j \<or> j + k \<le> i)"
| "loc_disjoint (InMem a i) n (InMem b j) k = (a \<noteq> b \<or> i + n \<le> j \<or> j + k \<le> i)"
| "loc_disjoint _ n _ k = True"

lemma mem_load_store_other:
  assumes "mem_store l u pkt s = Some (pkt', s')" and "loc_disjoint l (length u) f k"
    and "mem_load f k pkt s = Some bs"
  shows "mem_load f k pkt' s' = Some bs"
proof (cases l)
  case (InPkt i)
  with assms show ?thesis
    by (cases f) (auto simp: read_write_other split: if_splits)
next
  case l: (InMem a i)
  with assms(1) obtain m where m: "memref_heap s a = Some m" "i + length u \<le> length (mr_bytes m)" "pkt' = pkt"
    "s' = s\<lparr>memref_heap := (memref_heap s)(a \<mapsto> m\<lparr>mr_bytes := write_at (mr_bytes m) i u\<rparr>)\<rparr>"
    by (auto simp: bind_eq_Some_conv split: if_splits)
  show ?thesis
  proof (cases f)
    case (InPkt j)
    with assms m show ?thesis by simp
  next
    case f: (InMem b j)
    with assms(3) obtain k' where k': "memref_heap s b = Some k'" "j + k \<le> length (mr_bytes k')" "bs = read_at (mr_bytes k') j k"
      by (auto simp: bind_eq_Some_conv split: if_splits)
    with m l f assms(2) show ?thesis
      by (cases "a = b") (auto simp: read_write_other)
  qed
qed

lemma mem_store_more:
  assumes "mem_store l (u @ v) pkt s = Some r"
  obtains pkt' s' where "mem_store l u pkt s = Some (pkt', s')" "mem_store (loc_add l (length u)) v pkt' s' = Some r"
proof (cases l)
  case (InPkt i)
  with assms that show ?thesis by (auto simp: write_at_append add.assoc split: if_splits)
next
  case (InMem a i)
  with assms that show ?thesis
    by (auto simp: write_at_append add.assoc bind_eq_Some_conv split: if_splits)
qed

lemma mem_overlap_disjoint:
  assumes "\<not> mem_overlap t f (Suc n)"
  shows "\<not> mem_overlap t f n" and "loc_disjoint t n (loc_add f n) 1"
  using assms by (cases t; cases f; auto)+

lemma loc_disjoint_after: "loc_disjoint l n (loc_add l n) k"
  by (cases l) auto

text \<open>The result of storing all bytes of the destination.\<close>

definition op_stored ::
  "op_set \<Rightarrow> byte list \<Rightarrow> byte list \<Rightarrow> nat \<Rightarrow> 'a memref_state_scheme \<Rightarrow> byte list \<times> 'a memref_state_scheme"
where
  "op_stored os new pkt plen s =
     (case os_to os of
        Some a \<Rightarrow> (pkt, s\<lparr>memref_heap := (memref_heap s)(a \<mapsto> (the (memref_heap s a))\<lparr>mr_bytes := new\<rparr>)\<rparr>)
      | None \<Rightarrow> (write_at pkt (the (op_pkt_offset plen (os_set_to os))) new, s))"

lemma op_loc_store:
  assumes ok: "op_side_ok (os_set_to os) (os_to os) s" "plen \<le> length pkt"
    and l: "op_loc (os_set_to os) (os_to os) plen = Some l"
    and new: "length new = unat (fs_len (os_set_to os))"
  shows "mem_store l new pkt s = Some (op_stored os new pkt plen s)"
proof (cases "os_to os")
  case (Some a)
  with ok obtain m where m: "memref_heap s a = Some m" "length (mr_bytes m) = unat (fs_len (os_set_to os))"
    by (auto simp: op_side_ok_def)
  moreover have "l = InMem a 0" using Some l by (simp add: op_loc_def)
  moreover have "write_at (mr_bytes m) 0 new = new" using m(2) new by (simp add: write_at_def)
  ultimately show ?thesis using Some new by (simp add: op_stored_def)
next
  case None
  with l obtain j where j: "op_pkt_offset plen (os_set_to os) = Some j" "l = InPkt j" by (auto simp: op_loc_def)
  have "j + unat (fs_len (os_set_to os)) \<le> length pkt" using op_pkt_offset_bounds[OF j(1)] ok(2) by simp
  with None j new show ?thesis by (simp add: op_stored_def)
qed

definition op_sides_apart :: "op_set \<Rightarrow> nat \<Rightarrow> bool" where
  "op_sides_apart os plen \<longleftrightarrow>
     (\<forall>t f. op_loc (os_set_to os) (os_to os) plen = Some t \<longrightarrow>
            op_loc (os_set_from os) (os_from os) plen = Some f \<longrightarrow>
            \<not> mem_overlap t f (unat (fs_len (os_set_to os))))"

lemma op_write_eq:
  assumes "op_set_ok os pkt plen s" and "op_sides_apart os plen"
  shows "op_write os pkt plen s = Some
    (if fs_len (os_set_to os) = 0 then (0, pkt, s)
     else case (op_side (os_set_to os) (os_to os) pkt plen s, op_side (os_set_from os) (os_from os) pkt plen s) of
            (Some a, Some b) \<Rightarrow>
              (0, op_stored os (written (fs_mask (os_set_to os)) (fs_mask (os_set_from os)) a b) pkt plen s)
          | _ \<Rightarrow> (1, pkt, s))"
proof -
  let ?to = "os_set_to os" and ?from = "os_set_from os"
  have pl: "plen \<le> length pkt" and len: "fs_len ?to = fs_len ?from"
    and okt: "op_side_ok ?to (os_to os) s" and okf: "op_side_ok ?from (os_from os) s"
    using assms by (simp_all add: op_set_ok_def)
  show ?thesis
  proof (cases "fs_len ?to = 0")
    case True
    then show ?thesis by (simp add: op_write_def op_common_eq[OF len])
  next
    case False
    then obtain n where n: "unat (fs_len ?to) = Suc n" by (metis not0_implies_Suc unat_eq_zero)
    show ?thesis
    proof (cases "op_loc ?to (os_to os) plen = None \<or> op_loc ?from (os_from os) plen = None")
      case True
      with False op_side_None[OF okt, of plen pkt] op_side_None[OF okf, of plen pkt] show ?thesis
        by (auto simp: op_write_def op_common_eq[OF len] split: option.splits)
    next
      case some: False
      then obtain t f where t: "op_loc ?to (os_to os) plen = Some t" and f: "op_loc ?from (os_from os) plen = Some f"
        by auto
      then have "\<not> mem_overlap t f (Suc n)" using assms(2) n by (simp add: op_sides_apart_def)
      note apart = mem_overlap_disjoint[OF this]
      from op_loc_load[OF okt pl t] obtain a where a: "op_side ?to (os_to os) pkt plen s = Some a"
        "length a = Suc n" "\<And>i k. i + k \<le> Suc n \<Longrightarrow> mem_load (loc_add t i) k pkt s = Some (read_at a i k)"
        using n by metis
      from op_loc_load[OF okf pl f] obtain b where b: "op_side ?from (os_from os) pkt plen s = Some b"
        "length b = Suc n" "\<And>i k. i + k \<le> Suc n \<Longrightarrow> mem_load (loc_add f i) k pkt s = Some (read_at b i k)"
        using n len by metis
      obtain a1 x where ax: "a = a1 @ [x]" "length a1 = n" using a(2) by (cases a rule: rev_cases) auto
      obtain b1 y where bx: "b = b1 @ [y]" "length b1 = n" using b(2) by (cases b rule: rev_cases) auto
      define z where "z = (x AND NOT (fs_mask ?to)) OR ((y AND fs_mask ?to) AND fs_mask ?from)"
      have "mem_store t (b1 @ [z]) pkt s = Some (op_stored os (b1 @ [z]) pkt plen s)"
        using op_loc_store[OF okt pl t, of "b1 @ [z]"] bx(2) n by simp
      then obtain pkt1 s1 where st1: "mem_store t b1 pkt s = Some (pkt1, s1)"
        and st2: "mem_store (loc_add t n) [z] pkt1 s1 = Some (op_stored os (b1 @ [z]) pkt plen s)"
        using bx(2) by (auto elim: mem_store_more)
      have lx: "mem_load (loc_add t n) 1 pkt1 s1 = Some [x]"
        using mem_load_store_other[OF st1, of "loc_add t n" 1] loc_disjoint_after[of t n 1] a(3)[of n 1] ax bx(2)
        by (simp add: read_at_def)
      have ly: "mem_load (loc_add f n) 1 pkt1 s1 = Some [y]"
        using mem_load_store_other[OF st1, of "loc_add f n" 1] apart(2) b(3)[of n 1] bx
        by (simp add: read_at_def)
      have lb: "mem_load f n pkt s = Some b1" using b(3)[of 0 n] bx by (simp add: read_at_def)
      have w: "written (fs_mask ?to) (fs_mask ?from) a b = b1 @ [z]"
        using ax bx by (simp add: written_def z_def and.assoc)
      show ?thesis
        using False a(1) b(1) lb st1 lx ly st2 apart(1)
        by (simp add: op_write_def op_common_eq[OF len] t f n w z_def[symmetric] split_beta)
    qed
  qed
qed

text \<open>
  C13: writing implements its specification. For every compiled operation with sides of one
  length that do not overlap, every packet and every state, \<open>op_write\<close> stays inside of the
  memory it was given. If both sides exist, it replaces the destination by the source, but
  keeps the bits of the last byte that the destination's mask leaves out, changes no other
  byte of the packet and no other memref, and returns 0; else it changes nothing and returns
  1, or 0 if the length is 0.
\<close>

theorem op_write_refines:
  assumes "op_set_ok os pkt plen s" and "op_sides_apart os plen"
  shows "op_write os pkt plen s = Some
    (if fs_len (os_set_to os) = 0 then (0, pkt, s)
     else case (op_side (os_set_to os) (os_to os) pkt plen s, op_side (os_set_from os) (os_from os) pkt plen s) of
            (Some a, Some b) \<Rightarrow>
              (0, op_stored os (written (fs_mask (os_set_to os)) (fs_mask (os_set_from os)) a b) pkt plen s)
          | _ \<Rightarrow> (1, pkt, s))"
  using assms by (rule op_write_eq)

text \<open>A packet of eight bytes, and an operation on two of its fields.\<close>

definition os_ex :: op_set where
  "os_ex = \<lparr>os_set_to = field_set_of 1 2 0xf0, os_to = None, os_set_from = field_set_of (-2) 2 0xf0, os_from = None\<rparr>"

definition op_state0 :: op_state where
  "op_state0 = \<lparr>next_addr = 1, field_heap = Map.empty, field_JS = [], memref_heap = Map.empty, state_JS = [],
     op_heap = Map.empty\<rparr>"

lemma os_ex_ok: "op_set_ok os_ex [0, 1, 2, 3, 4, 5, 6, 7] 8 op_state0" "op_sides_apart os_ex 8"
  by (simp_all add: os_ex_def op_set_ok_def op_side_ok_def field_set_of_def op_sides_apart_def op_loc_def
      op_pkt_offset_def)

lemma os_ex_sides:
  "op_side (os_set_to os_ex) (os_to os_ex) [0, 1, 2, 3, 4, 5, 6, 7] 8 op_state0 = Some [1, 2]"
  "op_side (os_set_from os_ex) (os_from os_ex) [0, 1, 2, 3, 4, 5, 6, 7] 8 op_state0 = Some [6, 7]"
  by (simp_all add: os_ex_def op_side_def extent_def field_set_of_def op_pkt_offset_def read_at_def)

theorem op_match_refines_witness:
  "op_match os_ex [0, 1, 2, 3, 4, 5, 6, 7] 8 op_state0 = Some 1"
  using op_match_refines[OF os_ex_ok(1)]
  by (simp add: os_ex_sides masked_def) (simp add: os_ex_def field_set_of_def)

theorem op_write_refines_witness:
  "op_write os_ex [0, 1, 2, 3, 4, 5, 6, 7] 8 op_state0 = Some (0, [0, 6, 2, 3, 4, 5, 6, 7], op_state0)"
  using op_write_refines[OF os_ex_ok]
  by (simp add: os_ex_sides written_def) (simp add: os_ex_def field_set_of_def op_stored_def op_pkt_offset_def write_at_def)

text \<open>The sides after a store to the destination.\<close>

lemma mem_load_store_same: "mem_store l u pkt s = Some (pkt', s') \<Longrightarrow> mem_load l (length u) pkt' s' = Some u"
  by (cases l) (auto simp: read_write_same bind_eq_Some_conv split: if_splits)

lemma mem_overlap_whole: "\<not> mem_overlap t f n \<Longrightarrow> loc_disjoint t n f n"
  by (cases t; cases f) auto

lemma op_side_eq_load:
  assumes "op_side_ok fs mp s" and "plen \<le> length pkt" and "op_loc fs mp plen = Some l"
    and "mem_load l (unat (fs_len fs)) pkt s = Some bs"
  shows "op_side fs mp pkt plen s = Some bs"
proof -
  obtain bs' where bs': "op_side fs mp pkt plen s = Some bs'" "length bs' = unat (fs_len fs)"
    and ld: "\<And>i n. i + n \<le> unat (fs_len fs) \<Longrightarrow> mem_load (loc_add l i) n pkt s = Some (read_at bs' i n)"
    using op_loc_load[OF assms(1-3)] by metis
  with ld[of 0 "unat (fs_len fs)"] assms(4) show ?thesis by (simp add: read_at_def)
qed

lemma op_stored_ok:
  assumes ok: "op_set_ok os pkt plen s" and st: "op_stored os new pkt plen s = (pkt', s')"
    and l: "op_loc (os_set_to os) (os_to os) plen = Some t" and new: "length new = unat (fs_len (os_set_to os))"
  shows "op_set_ok os pkt' plen s'"
proof (cases "os_to os")
  case (Some a)
  with ok obtain m where "memref_heap s a = Some m" "length (mr_bytes m) = length new"
    using new by (auto simp: op_set_ok_def op_side_ok_def)
  with Some ok st new show ?thesis by (auto simp: op_stored_def op_set_ok_def op_side_ok_def)
next
  case None
  with l obtain j where j: "op_pkt_offset plen (os_set_to os) = Some j" by (auto simp: op_loc_def)
  have "j + length new \<le> length pkt" using op_pkt_offset_bounds[OF j] ok new by (simp add: op_set_ok_def)
  with None j ok st show ?thesis by (auto simp: op_stored_def op_set_ok_def)
qed

lemma masked_written: "masked m (written m m a b) = masked m b"
proof -
  have "((x AND NOT m) OR (y AND m AND m)) AND m = y AND m" for x y :: u8
    by (rule bit_word_eqI) (auto simp: bit_simps)
  then show ?thesis by (simp add: masked_def written_def)
qed



text \<open>
  Two fields that share one byte: the second byte of the destination is the first of the source.
  The copy changes what is copied.
\<close>

definition os_meet :: op_set where
  "os_meet = \<lparr>os_set_to = field_set_of 0 2 255, os_to = None, os_set_from = field_set_of 1 2 255, os_from = None\<rparr>"

lemma op_write_sides_meet:
  "op_write os_meet [1, 2, 3] 3 op_state0 = Some (0, [2, 3, 3], op_state0)"
  "op_match os_meet [2, 3, 3] 3 op_state0 = Some 1"
  by (simp_all add: os_meet_def op_write_def op_match_def op_common_def op_pkt_offset_def field_set_of_def
      read_at_def write_at_def)

text \<open>A side in a memref that is shorter than the other side.\<close>

definition op_side_short :: "field_set \<Rightarrow> ptr \<Rightarrow> field_set \<Rightarrow> 'a memref_state_scheme \<Rightarrow> bool" where
  "op_side_short fs mp other s \<longleftrightarrow> fs_len fs < fs_len other \<and>
     (\<exists>a m. mp = Some a \<and> memref_heap s a = Some m \<and> length (mr_bytes m) = unat (fs_len fs))"

lemma op_common_args:
  assumes "op_loc (os_set_to os) (os_to os) plen = Some t" "op_loc (os_set_from os) (os_from os) plen = Some f"
    and "max (unat (fs_len (os_set_to os))) (unat (fs_len (os_set_from os))) = Suc k"
  shows "op_common os plen = Op_args k t f"
  using assms by (auto simp: op_common_def op_loc_def Let_def max_def word_less_nat_alt split: if_splits)

lemma mem_store_length:
  "mem_store l bs pkt s = Some (pkt', s') \<Longrightarrow> memref_heap s a = Some m \<Longrightarrow>
   \<exists>m'. memref_heap s' a = Some m' \<and> length (mr_bytes m') = length (mr_bytes m)"
  by (cases l) (auto simp: bind_eq_Some_conv split: if_splits)

text \<open>The side that is short, and the number of bytes that are copied or compared whole.\<close>

lemma op_side_short_args:
  assumes "op_side_short (os_set_to os) (os_to os) (os_set_from os) s \<and> op_loc (os_set_from os) (os_from os) plen \<noteq> None \<or>
    op_side_short (os_set_from os) (os_from os) (os_set_to os) s \<and> op_loc (os_set_to os) (os_to os) plen \<noteq> None"
  obtains k t f a m where "op_common os plen = Op_args k t f" "t = InMem a 0 \<or> f = InMem a 0"
    "memref_heap s a = Some m" "length (mr_bytes m) \<le> k"
    "length (mr_bytes m) = min (unat (fs_len (os_set_to os))) (unat (fs_len (os_set_from os)))"
    "Suc k = max (unat (fs_len (os_set_to os))) (unat (fs_len (os_set_from os)))"
proof -
  let ?lt = "unat (fs_len (os_set_to os))" and ?lf = "unat (fs_len (os_set_from os))"
  from assms consider (dst) f a m where "op_loc (os_set_from os) (os_from os) plen = Some f" "os_to os = Some a"
      "memref_heap s a = Some m" "length (mr_bytes m) = ?lt" "?lt < ?lf"
    | (src) t a m where "op_loc (os_set_to os) (os_to os) plen = Some t" "os_from os = Some a"
      "memref_heap s a = Some m" "length (mr_bytes m) = ?lf" "?lf < ?lt"
    by (auto simp: op_side_short_def word_less_nat_alt)
  then show ?thesis
  proof cases
    case dst
    then have "op_loc (os_set_to os) (os_to os) plen = Some (InMem a 0)" "max ?lt ?lf = Suc (?lf - 1)" by (simp_all add: op_loc_def)
    from that[OF op_common_args[OF this(1) dst(1) this(2)], of a m] dst show ?thesis by simp
  next
    case src
    then have "op_loc (os_set_from os) (os_from os) plen = Some (InMem a 0)" "max ?lt ?lf = Suc (?lt - 1)" by (simp_all add: op_loc_def)
    from that[OF op_common_args[OF src(1) this], of a m] src show ?thesis by simp
  qed
qed

text \<open>
  C40: sides of different length overrun memory. If one side of an operation is a memref that is
  shorter than the other side, a memref or an extent that the packet has, then \<open>op_write\<close>
  always accesses the memref past its end: it writes past a short destination and reads past a
  short source, because the longer of the two lengths is copied. When it is shorter by two bytes
  or more, \<open>op_match\<close> reads past its end too.
\<close>

theorem op_write_overrun:
  assumes "op_side_short (os_set_to os) (os_to os) (os_set_from os) s \<and> op_loc (os_set_from os) (os_from os) plen \<noteq> None \<or>
    op_side_short (os_set_from os) (os_from os) (os_set_to os) s \<and> op_loc (os_set_to os) (os_to os) plen \<noteq> None"
  shows "op_write os pkt plen s = None \<and>
    (Suc (min (unat (fs_len (os_set_to os))) (unat (fs_len (os_set_from os)))) <
       max (unat (fs_len (os_set_to os))) (unat (fs_len (os_set_from os))) \<longrightarrow> op_match os pkt plen s = None)"
proof -
  obtain k t f a m where c: "op_common os plen = Op_args k t f" and side: "t = InMem a 0 \<or> f = InMem a 0"
    and m: "memref_heap s a = Some m" "length (mr_bytes m) \<le> k"
      "length (mr_bytes m) = min (unat (fs_len (os_set_to os))) (unat (fs_len (os_set_from os)))"
      "Suc k = max (unat (fs_len (os_set_to os))) (unat (fs_len (os_set_from os)))"
    by (rule op_side_short_args[OF assms])
  have last: "mem_load (loc_add t k) 1 pkt' s' = None \<or> mem_load (loc_add f k) 1 pkt' s' = None"
    if "mem_store t b pkt s = Some (pkt', s')" for b pkt' s'
    using side mem_store_length[OF that m(1)] m(2) by auto
  have "op_write os pkt plen s = None"
  proof (cases "mem_overlap t f k")
    case False
    with c last show ?thesis
      by (cases "mem_load f k pkt s"; cases "mem_store t (the (mem_load f k pkt s)) pkt s")
        (fastforce simp: op_write_def bind_eq_None_conv simp del: mem_load.simps mem_store.simps)+
  qed (simp add: op_write_def c)
  moreover have "op_match os pkt plen s = None" if "length (mr_bytes m) < k"
    using side m(1) that by (cases "mem_load t k pkt s") (auto simp: op_match_def c)
  ultimately show ?thesis using m(3,4) by auto
qed

theorem op_write_overrun_witness:
  "op_write \<lparr>os_set_to = field_set_of 0 4 255, os_to = Some 1, os_set_from = field_set_of 0 6 255, os_from = None\<rparr>
     [0, 1, 2, 3, 4, 5] 6
     (op_state0\<lparr>memref_heap := [1 \<mapsto> state_memref ''mac'' (field_set_of 0 4 255)]\<rparr>) = None"
  by (rule conjunct1[OF op_write_overrun])
    (simp add: op_side_short_def op_loc_def field_set_of_def state_memref_def op_pkt_offset_def)

text \<open>
  An operation of length 0 matches every packet. Whatever the offset of its field and
  however short the packet, \<open>op_match\<close> returns 0, although the offset lies outside of the
  packet, while \<open>field_hash\<close> rejects the same packet.
\<close>

lemma op_match_empty:
  assumes "fs_len (os_set_to os) = 0" and "fs_len (os_set_from os) = 0"
  shows "op_match os pkt plen s = Some 0 \<and>
    (0 < plen \<and> int plen < sint (fs_offt fs) \<longrightarrow> field_hash E e fs (Some pkt) plen h = Some (1, h))"
  using assms by (simp add: op_match_def op_common_def field_hash_def field_packet_indexing_def Let_def)

end
