(* ===== verification/Ownership.thy ===== *)
theory Ownership
  imports Operations
begin

text \<open>
  Who refers to whom: the invariant \<open>op_inv\<close> of src/operations.c together with src/field.c
  and src/memref.c. The reference count of every field and of every state is the number of
  operations that point to it, every value belongs to exactly one operation, and no
  operation points to anything that was freed. While a function is at work on an operation,
  or holds references that are not stored yet, the equations hold up to a debt; \<open>held\<close>
  carries the debts. The lemmas say how each call changes them.
\<close>

subsection \<open>The invariant\<close>

definition field_uses :: "op \<Rightarrow> addr \<Rightarrow> nat" where
  "field_uses op p = of_bool (op_dst_field op = Some p) + of_bool (op_src_field op = Some p)"

definition memref_uses :: "op \<Rightarrow> addr \<Rightarrow> nat" where
  "memref_uses op p = of_bool (op_dst op = Some p) + of_bool (op_src op = Some p)"

text \<open>One side of the compiled form points into the memref that the operation holds.\<close>

definition side_ok :: "(addr \<rightharpoonup> memref) \<Rightarrow> field_set \<Rightarrow> ptr \<Rightarrow> ptr \<Rightarrow> bool" where
  "side_ok mh fs mp own \<longleftrightarrow>
     (\<forall>a. mp = Some a \<longrightarrow> own = Some a \<and> (\<exists>m. mh a = Some m \<and> length (mr_bytes m) = unat (fs_len fs)))"

definition op_ok :: "(addr \<rightharpoonup> field) \<Rightarrow> (addr \<rightharpoonup> memref) \<Rightarrow> op \<Rightarrow> bool" where
  "op_ok fh mh op \<longleftrightarrow>
     (\<forall>p. 0 < field_uses op p \<longrightarrow> fh p \<noteq> None) \<and> (\<forall>p. 0 < memref_uses op p \<longrightarrow> mh p \<noteq> None) \<and>
     side_ok mh (os_set_to (op_set op)) (os_to (op_set op)) (op_dst op) \<and>
     side_ok mh (os_set_from (op_set op)) (os_from (op_set op)) (op_src op)"

definition field_counts :: "(addr \<rightharpoonup> op) \<Rightarrow> (addr \<rightharpoonup> field) \<Rightarrow> (addr \<Rightarrow> nat) \<Rightarrow> bool" where
  "field_counts ops fh fd \<longleftrightarrow>
     (\<forall>p fl. fh p = Some fl \<longrightarrow> unat (fl_refcnt fl) = refs_to field_uses ops p + fd p)"

definition memref_counts :: "(addr \<rightharpoonup> op) \<Rightarrow> (addr \<rightharpoonup> memref) \<Rightarrow> (addr \<Rightarrow> nat) \<Rightarrow> bool" where
  "memref_counts ops mh md \<longleftrightarrow>
     (\<forall>p m. mh p = Some m \<longrightarrow>
        (if memref_is_value m then 1 else unat (mr_refcnt m)) = refs_to memref_uses ops p + md p)"

definition held ::
  "(addr \<rightharpoonup> op) \<Rightarrow> 'a memref_state_scheme \<Rightarrow> (addr \<Rightarrow> nat) \<Rightarrow> (addr \<Rightarrow> nat) \<Rightarrow> bool" where
  "held ops s fd md \<longleftrightarrow> field_inv s \<and> memref_inv s \<and> finite (dom ops) \<and>
     (\<forall>q op. ops q = Some op \<longrightarrow> q < next_addr s \<and> q < MAXALLOC \<and> op_ok (field_heap s) (memref_heap s) op) \<and>
     field_counts ops (field_heap s) fd \<and> memref_counts ops (memref_heap s) md \<and>
     (\<forall>p. 0 < fd p \<longrightarrow> field_heap s p \<noteq> None) \<and> (\<forall>p. 0 < md p \<longrightarrow> memref_heap s p \<noteq> None)"

definition op_inv :: "'a op_state_scheme \<Rightarrow> bool" where
  "op_inv s \<longleftrightarrow> held (op_heap s) s (\<lambda>_. 0) (\<lambda>_. 0)"

lemma held_parts:
  assumes "held ops s fd md"
  shows "field_inv s" and "memref_inv s" and "finite (dom ops)"
    and "\<And>q op. ops q = Some op \<Longrightarrow> q < next_addr s \<and> q < MAXALLOC \<and> op_ok (field_heap s) (memref_heap s) op"
    and "field_counts ops (field_heap s) fd" and "memref_counts ops (memref_heap s) md"
    and "\<And>p. 0 < fd p \<Longrightarrow> field_heap s p \<noteq> None" and "\<And>p. 0 < md p \<Longrightarrow> memref_heap s p \<noteq> None"
  using assms unfolding held_def by blast+

lemma op_ok_mono:
  assumes "op_ok fh mh op" and "\<And>p. fh p \<noteq> None \<Longrightarrow> fh' p \<noteq> None"
    and "\<And>p m. 0 < memref_uses op p \<Longrightarrow> mh p = Some m \<Longrightarrow>
      \<exists>m'. mh' p = Some m' \<and> length (mr_bytes m') = length (mr_bytes m)"
  shows "op_ok fh' mh' op"
proof -
  have "side_ok mh' fs mp own" if "side_ok mh fs mp own" "own = op_dst op \<or> own = op_src op" for fs mp own
    unfolding side_ok_def
  proof (intro allI impI)
    fix a
    assume "mp = Some a"
    with that obtain m where "own = Some a" "mh a = Some m" "length (mr_bytes m) = unat (fs_len fs)"
      by (auto simp: side_ok_def)
    moreover from this that(2) have "0 < memref_uses op a" by (auto simp: memref_uses_def)
    ultimately show "own = Some a \<and> (\<exists>m. mh' a = Some m \<and> length (mr_bytes m) = unat (fs_len fs))"
      using assms(3)[of a m] by auto
  qed
  with assms show ?thesis unfolding op_ok_def by (metis not_None_eq)
qed

text \<open>Reference counts stay far from 2 ^ 32.\<close>

lemma refs_bounded:
  assumes "held ops s fd md" and "\<And>op. uses op p \<le> 2"
  shows "refs_to uses ops p \<le> 2 ^ 31"
proof -
  have "dom ops \<subseteq> {..<MAXALLOC}" using held_parts(4)[OF assms(1)] by blast
  then have "card (dom ops) \<le> MAXALLOC" using card_mono[of "{..<MAXALLOC}"] by simp
  then have "card (dom ops) * 2 \<le> 2 ^ 31" by (simp add: MAXALLOC_def)
  moreover have "refs_to uses ops p \<le> card (dom ops) * 2" using assms(2) by (rule refs_to_le)
  ultimately show ?thesis by linarith
qed

lemma uses_le: "field_uses op p \<le> 2" "memref_uses op p \<le> 2"
  by (simp_all add: field_uses_def memref_uses_def)

text \<open>The state may be replaced by one with the same heaps of fields and memrefs.\<close>

lemma held_cong:
  assumes "held ops s fd md" and "field_heap s' = field_heap s" "field_JS s' = field_JS s"
    "memref_heap s' = memref_heap s" "state_JS s' = state_JS s" "next_addr s \<le> next_addr s'"
  shows "held ops s' fd md"
  unfolding held_def
proof (intro conjI allI impI)
  note H = assms(1) and eqs = assms(2-5) and le = assms(6)
  show "field_inv s'"
    using held_parts(1)[OF H] le unfolding field_inv_def eqs by (meson less_le_trans)
  show "memref_inv s'"
    using held_parts(2)[OF H] memref_ok_mono[OF _ le] unfolding memref_inv_def eqs by blast
  show "q < next_addr s'" "q < MAXALLOC" "op_ok (field_heap s') (memref_heap s') op" if "ops q = Some op" for q op
    using held_parts(4)[OF H that] le eqs by auto
qed (use held_parts[OF assms(1)] assms(2-5) in simp_all)

text \<open>Everything of a state but the tables and heaps of memrefs, and the numbering of requests.\<close>

definition same_ops :: "'a op_state_scheme \<Rightarrow> 'a op_state_scheme \<Rightarrow> bool" where
  "same_ops s s' \<longleftrightarrow> op_heap s' = op_heap s \<and> op_state.more s' = op_state.more s \<and> next_addr s \<le> next_addr s'"

definition same_fields :: "'a op_state_scheme \<Rightarrow> 'a op_state_scheme \<Rightarrow> bool" where
  "same_fields s s' \<longleftrightarrow> field_heap s' = field_heap s \<and> field_JS s' = field_JS s \<and> same_ops s s'"

text \<open>The memrefs that were there stay, but for their counts.\<close>

definition memrefs_kept :: "'a memref_state_scheme \<Rightarrow> 'a memref_state_scheme \<Rightarrow> bool" where
  "memrefs_kept s s' \<longleftrightarrow>
     (\<forall>p m. memref_heap s p = Some m \<longrightarrow>
        (\<exists>r. memref_heap s' p = Some (m\<lparr>mr_refcnt := r\<rparr>) \<and> (memref_is_value m \<longrightarrow> r = mr_refcnt m)))"

lemma memref_same_refcnt [simp]: "\<exists>r. m = m\<lparr>mr_refcnt := r\<rparr> \<and> (v \<longrightarrow> r = mr_refcnt m)"
  by (rule exI[of _ "mr_refcnt m"]) simp

lemma memref_is_value_refcnt [simp]: "memref_is_value (m\<lparr>mr_refcnt := r\<rparr>) = memref_is_value m"
  by (simp add: memref_is_value_def)

lemma memrefs_kept_refl [simp]: "memrefs_kept s s"
  by (simp add: memrefs_kept_def memref_same_refcnt)

lemma memrefs_kept_refcnt:
  "memref_heap s p = Some m \<Longrightarrow> \<not> memref_is_value m \<Longrightarrow>
   memrefs_kept s (s\<lparr>memref_heap := (memref_heap s)(p \<mapsto> m\<lparr>mr_refcnt := r\<rparr>)\<rparr>)"
  by (auto simp: memrefs_kept_def)

lemma memrefs_kept_trans [trans]:
  assumes "memrefs_kept s t" and "memrefs_kept t u"
  shows "memrefs_kept s u"
  unfolding memrefs_kept_def
proof (intro allI impI)
  fix p m assume "memref_heap s p = Some m"
  then obtain r1 where 1: "memref_heap t p = Some (m\<lparr>mr_refcnt := r1\<rparr>)" "memref_is_value m \<longrightarrow> r1 = mr_refcnt m"
    using assms(1) unfolding memrefs_kept_def by blast
  from assms(2)[unfolded memrefs_kept_def, rule_format, OF 1(1)] 1(2)
  show "\<exists>r. memref_heap u p = Some (m\<lparr>mr_refcnt := r\<rparr>) \<and> (memref_is_value m \<longrightarrow> r = mr_refcnt m)" by auto
qed

text \<open>No memref is new, and those that are left are as they were, but for the counts of states.\<close>

definition memrefs_left :: "'a memref_state_scheme \<Rightarrow> 'a memref_state_scheme \<Rightarrow> bool" where
  "memrefs_left s s' \<longleftrightarrow>
     (\<forall>p m'. memref_heap s' p = Some m' \<longrightarrow>
        (\<exists>m r. memref_heap s p = Some m \<and> m' = m\<lparr>mr_refcnt := r\<rparr> \<and> (memref_is_value m \<longrightarrow> r = mr_refcnt m)))"

lemma memrefs_left_same: "memref_heap s' = memref_heap s \<Longrightarrow> memrefs_left s s'"
  by (auto simp: memrefs_left_def)

lemma memrefs_left_trans [trans]:
  assumes "memrefs_left s t" and "memrefs_left t u"
  shows "memrefs_left s u"
  unfolding memrefs_left_def
proof (intro allI impI)
  fix p m3 assume "memref_heap u p = Some m3"
  then obtain m2 r2 where 2: "memref_heap t p = Some m2" "m3 = m2\<lparr>mr_refcnt := r2\<rparr>" "memref_is_value m2 \<longrightarrow> r2 = mr_refcnt m2"
    using assms(2) unfolding memrefs_left_def by blast
  then obtain m1 r1 where 1: "memref_heap s p = Some m1" "m2 = m1\<lparr>mr_refcnt := r1\<rparr>" "memref_is_value m1 \<longrightarrow> r1 = mr_refcnt m1"
    using assms(1) unfolding memrefs_left_def by blast
  from 1 2 have "m3 = m1\<lparr>mr_refcnt := r2\<rparr>" "memref_is_value m1 \<longrightarrow> r2 = mr_refcnt m1" by simp_all
  with 1(1) show "\<exists>m r. memref_heap s p = Some m \<and> m3 = m\<lparr>mr_refcnt := r\<rparr> \<and> (memref_is_value m \<longrightarrow> r = mr_refcnt m)"
    by blast
qed

lemma memrefs_leftI:
  "memref_heap s' = (memref_heap s)(p := None) \<Longrightarrow> memrefs_left s s'"
  "memref_heap s p = Some m \<Longrightarrow> \<not> memref_is_value m \<Longrightarrow> memref_heap s' = (memref_heap s)(p \<mapsto> m\<lparr>mr_refcnt := r\<rparr>) \<Longrightarrow>
     memrefs_left s s'"
  by (auto simp: memrefs_left_def)

lemma memref_release_left:
  assumes "memref_release mp s = Some s'"
  shows "memrefs_left s s'"
proof (cases mp)
  case None
  with assms show ?thesis by (simp add: memref_release_def memrefs_left_same)
next
  case (Some p)
  with assms obtain m where m: "memref_heap s p = Some m" by (auto simp: memref_release_def bind_eq_Some_conv)
  let ?r = "if mr_refcnt m \<noteq> 0 then refcnt_release (mr_refcnt m) else mr_refcnt m"
  consider (gone) "memref_heap s' = (memref_heap s)(p := None)"
    | (less) "\<not> memref_is_value m" "memref_heap s' = (memref_heap s)(p \<mapsto> m\<lparr>mr_refcnt := ?r\<rparr>)"
    using assms m unfolding memref_release_def Some by (auto simp: bind_eq_Some_conv Let_def split: if_splits)
  then show ?thesis using memrefs_leftI(1)[of s' s p] memrefs_leftI(2)[OF m] by cases blast+
qed

lemma field_release_left: "field_release fp s = Some s' \<Longrightarrow> memref_heap s' = memref_heap s"
  by (auto simp: field_release_def bind_eq_Some_conv split: option.splits)

lemma same_ops_refl [simp]: "same_ops s s" and same_fields_refl [simp]: "same_fields s s"
  by (simp_all add: same_ops_def same_fields_def)

lemma same_ops_trans [trans]: "same_ops s t \<Longrightarrow> same_ops t u \<Longrightarrow> same_ops s u"
  by (simp add: same_ops_def)

lemma same_fields_trans [trans]: "same_fields s t \<Longrightarrow> same_fields t u \<Longrightarrow> same_fields s u"
  by (simp add: same_fields_def same_ops_def)

subsection \<open>Taking and releasing fields\<close>

lemma held_field_refcnt:
  assumes H: "held ops s fd md" and p: "field_heap s p = Some fl"
    and r: "unat r = refs_to field_uses ops p + n"
  shows "held ops (s\<lparr>field_heap := (field_heap s)(p \<mapsto> fl\<lparr>fl_refcnt := r\<rparr>)\<rparr>) (fd(p := n)) md"
    (is "held ops ?s' _ md")
  unfolding held_def
proof (intro conjI allI impI)
  show "field_inv ?s'" using field_inv_refcnt[OF held_parts(1)[OF H] p] .
  show "memref_inv ?s'" using held_parts(2)[OF H] by (simp add: memref_inv_def)
  show "finite (dom ops)" using held_parts(3)[OF H] .
  show "field_counts ops (field_heap ?s') (fd(p := n))"
    using held_parts(5)[OF H] r by (simp add: field_counts_def)
  show "memref_counts ops (memref_heap ?s') md" using held_parts(6)[OF H] by simp
  show "field_heap ?s' q \<noteq> None" if "0 < (fd(p := n)) q" for q
    using held_parts(7)[OF H, of q] that by (auto split: if_splits)
  show "memref_heap ?s' q \<noteq> None" if "0 < md q" for q
    using held_parts(8)[OF H that] by simp
  show "q < next_addr ?s'" "q < MAXALLOC" "op_ok (field_heap ?s') (memref_heap ?s') op"
    if "ops q = Some op" for q op
    using held_parts(4)[OF H that] by (auto elim: op_ok_mono)
qed

lemma held_field_get:
  assumes H: "held ops s fd md" and few: "fd p \<le> 8"
    and get: "js_get (field_JS s) nm = Some p"
  obtains fl s' where "field_heap s p = Some fl" "fl_name fl = Some nm" "field_get nm s = Some (Some p, s')"
    "s' = s\<lparr>field_heap := (field_heap s)(p \<mapsto> fl\<lparr>fl_refcnt := refcnt_take (fl_refcnt fl)\<rparr>)\<rparr>"
    "held ops s' (fd(p := fd p + 1)) md"
proof -
  obtain fl where fl: "field_heap s p = Some fl" "fl_name fl = Some nm"
    using field_inv_get[OF held_parts(1)[OF H] get] .
  have n: "unat (fl_refcnt fl) = refs_to field_uses ops p + fd p"
    using held_parts(5)[OF H] fl by (simp add: field_counts_def)
  moreover have "refs_to field_uses ops p \<le> 2 ^ 31" using refs_bounded[OF H] uses_le by blast
  ultimately have "unat (refcnt_take (fl_refcnt fl)) = refs_to field_uses ops p + (fd p + 1)"
    using few by (subst unat_refcnt_take) auto
  from held_field_refcnt[OF H fl(1) this] fl that show ?thesis
    by (simp add: field_get_eq[OF held_parts(1)[OF H]] get)
qed

lemma held_field_release:
  assumes H: "held ops s fd md" and p: "field_heap s p = Some fl" and "0 < fd p"
  obtains s' where "field_release (Some p) s = Some s'"
    "s' = s\<lparr>field_heap := (field_heap s)(p \<mapsto> fl\<lparr>fl_refcnt := refcnt_release (fl_refcnt fl)\<rparr>)\<rparr>"
    "held ops s' (fd(p := fd p - 1)) md"
proof -
  have "unat (fl_refcnt fl) = refs_to field_uses ops p + fd p"
    using held_parts(5)[OF H] p by (simp add: field_counts_def)
  then have "unat (refcnt_release (fl_refcnt fl)) = refs_to field_uses ops p + (fd p - 1)"
    using assms(3) by (simp add: unat_refcnt_release)
  from held_field_refcnt[OF H p this] that p show ?thesis by (simp add: field_release_def)
qed

subsection \<open>Taking and releasing memrefs\<close>

definition memref_count :: "memref \<Rightarrow> nat" where
  "memref_count m = (if memref_is_value m then 1 else unat (mr_refcnt m))"

lemma held_memref_count:
  "held ops s fd md \<Longrightarrow> memref_heap s p = Some m \<Longrightarrow> memref_count m = refs_to memref_uses ops p + md p"
  using held_parts(6)[of ops s fd md] by (auto simp: memref_counts_def memref_count_def)

lemma held_no_refs:
  assumes "held ops s fd md" and "memref_heap s p = None"
  shows "refs_to memref_uses ops p = 0 \<and> md p = 0"
proof -
  have "memref_uses (the (ops q)) p = 0" if "q \<in> dom ops" for q
  proof -
    obtain op where "ops q = Some op" using \<open>q \<in> dom ops\<close> by blast
    moreover from this have "\<not> 0 < memref_uses op p"
      using held_parts(4)[OF assms(1), of q op] assms(2) unfolding op_ok_def by blast
    ultimately show ?thesis by simp
  qed
  then show ?thesis using held_parts(8)[OF assms(1), of p] assms(2) by (auto simp: refs_to_def)
qed

text \<open>
  A new heap of memrefs: every memref that something refers to stays, with its length, and
  the counts are right.
\<close>

lemma held_new_memrefs:
  assumes H: "held ops s fd md" and s': "field_heap s' = field_heap s" "field_JS s' = field_JS s"
      "next_addr s \<le> next_addr s'" "memref_inv s'"
    and keep: "\<And>q m. memref_heap s q = Some m \<Longrightarrow> 0 < refs_to memref_uses ops q \<Longrightarrow>
      \<exists>m'. memref_heap s' q = Some m' \<and> length (mr_bytes m') = length (mr_bytes m)"
    and counts: "\<And>q m. memref_heap s' q = Some m \<Longrightarrow> memref_count m = refs_to memref_uses ops q + md' q"
    and debts: "\<And>q. 0 < md' q \<Longrightarrow> memref_heap s' q \<noteq> None"
  shows "held ops s' fd md'"
  unfolding held_def
proof (intro conjI allI impI)
  show "field_inv s'"
    using held_parts(1)[OF H] s'(3) unfolding field_inv_def s'(1,2) by (meson less_le_trans)
  show "memref_inv s'" by fact
  show "finite (dom ops)" using held_parts(3)[OF H] .
  show "field_counts ops (field_heap s') fd" using held_parts(5)[OF H] s'(1) by simp
  show "memref_counts ops (memref_heap s') md'"
    using counts by (simp add: memref_counts_def memref_count_def)
  show "field_heap s' q \<noteq> None" if "0 < fd q" for q using held_parts(7)[OF H that] s'(1) by simp
  show "memref_heap s' q \<noteq> None" if "0 < md' q" for q using debts that by simp
  show "q < next_addr s'" "q < MAXALLOC" if "ops q = Some op" for q op
    using held_parts(4)[OF H that] s'(3) by auto
  show "op_ok (field_heap s') (memref_heap s') op" if q: "ops q = Some op" for q op
  proof (rule op_ok_mono)
    show "op_ok (field_heap s) (memref_heap s) op" using held_parts(4)[OF H q] by simp
    show "field_heap s' p \<noteq> None" if "field_heap s p \<noteq> None" for p using that s'(1) by simp
    show "\<exists>m'. memref_heap s' p = Some m' \<and> length (mr_bytes m') = length (mr_bytes m)"
      if "0 < memref_uses op p" "memref_heap s p = Some m" for p m
      using keep[OF that(2) refs_to_pos[where uses = memref_uses, OF held_parts(3)[OF H] q that(1)]] .
  qed
qed

lemma held_memref_update:
  assumes H: "held ops s fd md" and p: "memref_heap s p = Some m"
    and m': "length (mr_bytes m') = length (mr_bytes m)" "memref_count m' = refs_to memref_uses ops p + n"
    and I: "memref_inv (s\<lparr>memref_heap := (memref_heap s)(p \<mapsto> m')\<rparr>)"
  shows "held ops (s\<lparr>memref_heap := (memref_heap s)(p \<mapsto> m')\<rparr>) fd (md(p := n))"
proof (rule held_new_memrefs[OF H _ _ _ I])
  let ?s' = "s\<lparr>memref_heap := (memref_heap s)(p \<mapsto> m')\<rparr>"
  show "\<exists>k'. memref_heap ?s' q = Some k' \<and> length (mr_bytes k') = length (mr_bytes k)"
    if "memref_heap s q = Some k" for q k
    using that p m'(1) by auto
  show "memref_count k = refs_to memref_uses ops q + (md(p := n)) q" if "memref_heap ?s' q = Some k" for q k
    using that m'(2) held_memref_count[OF H, of q] by (auto split: if_splits)
  show "memref_heap ?s' q \<noteq> None" if "0 < (md(p := n)) q" for q
    using that held_parts(8)[OF H, of q] by (auto split: if_splits)
qed simp_all

lemma held_memref_add:
  assumes H: "held ops s fd md" and p: "memref_heap s p = None"
    and s': "field_heap s' = field_heap s" "field_JS s' = field_JS s" "next_addr s \<le> next_addr s'"
      "memref_inv s'" "memref_heap s' = (memref_heap s)(p \<mapsto> m)" and "memref_count m = 1"
  shows "held ops s' fd (md(p := 1))"
proof (rule held_new_memrefs[OF H s'(1-4)])
  note none = held_no_refs[OF H p]
  show "\<exists>k'. memref_heap s' q = Some k' \<and> length (mr_bytes k') = length (mr_bytes k)"
    if "memref_heap s q = Some k" for q k
    using that p s'(5) by (cases "q = p") auto
  show "memref_count k = refs_to memref_uses ops q + (md(p := 1)) q" if "memref_heap s' q = Some k" for q k
    using that none assms(8) held_memref_count[OF H, of q] s'(5) by (auto split: if_splits)
  show "memref_heap s' q \<noteq> None" if "0 < (md(p := 1)) q" for q
    using that held_parts(8)[OF H, of q] s'(5) by (auto split: if_splits)
qed

lemma held_memref_remove:
  assumes H: "held ops s fd md" and p: "memref_heap s p = Some m" "memref_count m = 1" "0 < md p"
    and s': "field_heap s' = field_heap s" "field_JS s' = field_JS s" "next_addr s' = next_addr s"
      "memref_inv s'" "memref_heap s' = (memref_heap s)(p := None)"
  shows "held ops s' fd (md(p := md p - 1))"
proof (rule held_new_memrefs[OF H s'(1,2) _ s'(4)])
  have none: "refs_to memref_uses ops p = 0" "md p = 1"
    using held_memref_count[OF H p(1)] p(2,3) by linarith+
  show "\<exists>k'. memref_heap s' q = Some k' \<and> length (mr_bytes k') = length (mr_bytes k)"
    if "memref_heap s q = Some k" "0 < refs_to memref_uses ops q" for q k
    using that none s'(5) by (cases "q = p") auto
  show "memref_count k = refs_to memref_uses ops q + (md(p := md p - 1)) q" if "memref_heap s' q = Some k" for q k
    using that held_memref_count[OF H, of q] s'(5) by (auto split: if_splits)
  show "memref_heap s' q \<noteq> None" if "0 < (md(p := md p - 1)) q" for q
    using that none held_parts(8)[OF H, of q] s'(5) by (auto split: if_splits)
qed (simp add: s'(3))

lemma held_memref_release:
  assumes H: "held ops s fd md" and "0 < md p"
  obtains s' where "memref_release (Some p) s = Some s'" "held ops s' fd (md(p := md p - 1))"
    "same_fields (s :: 'a op_state_scheme) s'"
proof -
  obtain m where m: "memref_heap s p = Some m" using held_parts(8)[OF H assms(2)] by blast
  note I = held_parts(2)[OF H]
  have c: "memref_count m = refs_to memref_uses ops p + md p" using held_memref_count[OF H m] .
  show ?thesis
  proof (cases "memref_is_value m \<or> mr_refcnt m = 1")
    case True
    then have "memref_count m = 1" by (auto simp: memref_count_def)
    from held_memref_remove[OF H m this assms(2) _ _ _ memref_inv_remove[OF I m]] True that show ?thesis
      by (simp add: memref_release_eq[OF I m] same_fields_def same_ops_def)
  next
    case False
    have "mr_refcnt m \<noteq> 0" using False memref_inv_live[OF I m] by (simp add: memref_ok_def)
    have val: "memref_is_value (m\<lparr>mr_refcnt := mr_refcnt m - 1\<rparr>) = memref_is_value m"
      by (simp add: memref_is_value_def)
    have "memref_count (m\<lparr>mr_refcnt := mr_refcnt m - 1\<rparr>) = refs_to memref_uses ops p + (md p - 1)"
      using c False assms(2) \<open>mr_refcnt m \<noteq> 0\<close> val by (simp add: memref_count_def unat_minus_one)
    from held_memref_update[OF H m _ this] memref_inv_update[OF I m, of "m\<lparr>mr_refcnt := mr_refcnt m - 1\<rparr>"]
      False that show ?thesis
      by (simp add: memref_release_eq[OF I m] same_fields_def same_ops_def)
  qed
qed

text \<open>
  What the code relies on of its environment, and that there is memory for every string that it
  copies.
\<close>

definition env_ok :: "env \<Rightarrow> bool" where
  "env_ok E \<longleftrightarrow> nstralloc_ok E \<and> hx2b_ok E \<and> calloc_bounded E"

lemma env_okD: "env_ok E \<Longrightarrow> nstralloc_ok E" "env_ok E \<Longrightarrow> hx2b_ok E" "env_ok E \<Longrightarrow> calloc_bounded E"
  by (simp_all add: env_ok_def)

lemma env_ok_env0 [simp]: "env_ok env0"
  by (simp add: env_ok_def)

lemma memref_count_take:
  "\<not> memref_is_value m \<Longrightarrow> unat (mr_refcnt m) + 1 < 2 ^ 32 \<Longrightarrow>
     memref_count (m\<lparr>mr_refcnt := refcnt_take (mr_refcnt m)\<rparr>) = memref_count m + 1"
  by (simp add: memref_count_def memref_is_value_def unat_refcnt_take)

text \<open>A reference to a state that exists, and a state that is new.\<close>

lemma held_memref_take:
  fixes s :: "'a op_state_scheme"
  assumes H: "held ops s fd md" and few: "md p \<le> 8" and m: "memref_heap s p = Some m" "\<not> memref_is_value m"
  shows "held ops (s\<lparr>memref_heap := (memref_heap s)(p \<mapsto> m\<lparr>mr_refcnt := refcnt_take (mr_refcnt m)\<rparr>)\<rparr>) fd (md(p := md p + 1))"
proof -
  let ?m' = "m\<lparr>mr_refcnt := refcnt_take (mr_refcnt m)\<rparr>"
  have c: "memref_count m = refs_to memref_uses ops p + md p" using held_memref_count[OF H m(1)] .
  moreover have "refs_to memref_uses ops p \<le> 2 ^ 31" using refs_bounded[OF H] uses_le by blast
  ultimately have small: "unat (mr_refcnt m) + 1 < 2 ^ 32"
    using few m(2) by (simp add: memref_count_def)
  then have "refcnt_take (mr_refcnt m) \<noteq> 0" using unat_refcnt_take[OF small] by auto
  then have "memref_inv (s\<lparr>memref_heap := (memref_heap s)(p \<mapsto> ?m')\<rparr>)"
    using memref_inv_update[OF held_parts(2)[OF H] m(1), of ?m'] by simp
  from held_memref_update[OF H m(1) _ _ this, of "md p + 1"] show ?thesis
    using memref_count_take[OF m(2) small] c by simp
qed

lemma held_state_add:
  fixes s :: "'a op_state_scheme"
  assumes H: "held ops s fd md" and none: "js_get (state_JS s) nm = None" and flags: "fs_flags fs = 0"
  shows "held ops (s\<lparr>next_addr := next_addr s + 1, memref_heap := (memref_heap s)(next_addr s \<mapsto> state_memref nm fs),
      state_JS := snd (js_insert (state_JS s) nm (Some (next_addr s)) False)\<rparr>) fd (md(next_addr s := md (next_addr s) + 1))"
    (is "held ops ?s' fd _")
proof -
  note I = held_parts(2)[OF H]
  have st: "\<not> memref_is_value (state_memref nm fs)" "memref_count (state_memref nm fs) = 1"
    using flags by (simp_all add: state_memref_def is_value_flags memref_count_def)
  have "memref_inv ?s'"
    using memref_inv_add_state[OF I none, of "state_memref nm fs"] st(1) by (simp add: state_memref_def)
  moreover have fresh: "memref_heap s (next_addr s) = None" using I by simp
  ultimately have "held ops ?s' fd (md(next_addr s := 1))"
    using held_memref_add[OF H fresh, of ?s'] st(2) by simp
  then show ?thesis using held_no_refs[OF H fresh] by simp
qed

lemma held_state_get:
  fixes s :: "'a op_state_scheme"
  assumes E: "env_ok E" and H: "held ops s fd md" and few: "\<And>p. md p \<le> 8"
    and fl: "field_heap s f = Some fl"
  obtains (got) p m s' where "memref_state_get E (Some f) (Some nm) s = Some (Some p, s')"
      "held ops s' fd (md(p := md p + 1))" "same_fields s s'" "memrefs_kept s s'"
      "memref_heap s' p = Some m" "\<not> memref_is_value m" "mr_name m = Some nm"
      "length (mr_bytes m) = unat (fs_len (fl_set fl))"
    | (failed) s' where "memref_state_get E (Some f) (Some nm) s = Some (None, s')"
      "held ops s' fd md" "same_fields s s'" "memrefs_kept s s'"
proof -
  note I = held_parts(2)[OF H]
  have flags: "fs_flags (fl_set fl) = 0" using field_inv_live[OF held_parts(1)[OF H] fl] by metis
  note eq = memref_state_get_eq[OF env_okD(1)[OF E] I fl flags, of nm]
  show ?thesis
  proof (cases "js_get (state_JS s) nm")
    case (Some p)
    obtain m where m: "memref_heap s p = Some m" "\<not> memref_is_value m" "mr_name m = Some nm"
      using memref_inv_get[OF I Some] by metis
    let ?m' = "m\<lparr>mr_refcnt := refcnt_take (mr_refcnt m)\<rparr>"
    have len: "length (mr_bytes m) = unat (fs_len (mr_set m))"
      using memref_inv_live[OF I m(1)] by (simp add: memref_ok_def)
    show ?thesis
    proof (cases "memref_state_eq (mr_set m) (fl_set fl)")
      case True
      with eq Some m held_memref_take[OF H few m(1,2)] len memrefs_kept_refcnt[OF m(1,2), of "refcnt_take (mr_refcnt m)"]
        got[of p "s\<lparr>memref_heap := (memref_heap s)(p \<mapsto> ?m')\<rparr>" ?m'] show ?thesis
        by (simp add: same_fields_def same_ops_def memref_is_value_def memref_state_eq_def)
    next
      case False
      with eq Some m H failed show ?thesis by simp
    qed
  next
    case None
    let ?n = "next_addr s"
    let ?s' = "s\<lparr>next_addr := ?n + 1, memref_heap := (memref_heap s)(?n \<mapsto> state_memref nm (fl_set fl)),
      state_JS := snd (js_insert (state_JS s) nm (Some ?n) False)\<rparr>"
    show ?thesis
    proof (cases "calloc_ok E ?n \<and> state_name_ok E nm")
      case True
      have "memrefs_kept s ?s'" using I by (simp add: memrefs_kept_def)
      moreover have "\<not> memref_is_value (state_memref nm (fl_set fl))"
        using flags by (simp add: state_memref_def is_value_flags)
      ultimately show ?thesis
        using True eq None held_state_add[OF H None flags] got[of ?n ?s' "state_memref nm (fl_set fl)"]
        by (simp add: same_fields_def same_ops_def state_memref_def)
    next
      case False
      have "held ops (s\<lparr>next_addr := ?n + 1\<rparr>) fd md" by (rule held_cong[OF H]) simp_all
      with False eq None failed[of "s\<lparr>next_addr := ?n + 1\<rparr>"] show ?thesis
        by (auto simp: same_fields_def same_ops_def memrefs_kept_def)
    qed
  qed
qed

lemma held_value_new:
  fixes s :: "'a op_state_scheme"
  assumes E: "env_ok E" and H: "held ops s fd md" and fl: "field_heap s f = Some fl"
  obtains (got) p m s' where "memref_value_new E (Some f) (Some v) s = Some (Some p, s')"
      "held ops s' fd (md(p := md p + 1))" "same_fields s s'" "memrefs_kept s s'"
      "memref_heap s' p = Some m" "memref_is_value m" "mr_name m = Some v"
      "value_parse E (Some v) (unat (fs_len (fl_set fl))) = Some (0, mr_bytes m)"
      "length (mr_bytes m) = unat (fs_len (fl_set fl))"
    | (failed) s' where "memref_value_new E (Some f) (Some v) s = Some (None, s')"
      "held ops s' fd md" "same_fields s s'" "memrefs_kept s s'"
proof -
  note I = held_parts(2)[OF H]
  let ?n = "next_addr s" and ?len = "unat (fs_len (fl_set fl))"
  have flags: "fs_flags (fl_set fl) = 0" using field_inv_live[OF held_parts(1)[OF H] fl] by metis
  note eq = memref_value_new_eq[OF env_okD(1,2)[OF E] I fl flags, of v]
  obtain bad bytes where vp: "value_parse E (Some v) ?len = Some (bad, bytes)" "length bytes = ?len"
    using value_parse_returns[OF env_okD(2)[OF E], of v ?len] by blast
  define m where "m = value_memref v (if ?len = 0 then '''' else ''0x'' @ b2hx_BE E bytes) (fl_set fl) bytes"
  let ?s' = "s\<lparr>next_addr := ?n + 2, memref_heap := (memref_heap s)(?n \<mapsto> m)\<rparr>"
  have m: "memref_is_value m" "memref_count m = 1" "mr_name m = Some v" "mr_bytes m = bytes"
    by (simp_all add: m_def value_memref_def is_value_flags memref_count_def)
  have "memref_inv ?s'"
    using vp(2) m(1) by (intro memref_inv_add_value[OF I]) (simp_all add: m_def value_memref_def)
  moreover have fresh: "memref_heap s ?n = None" using I by simp
  ultimately have "held ops ?s' fd (md(?n := 1))"
    using held_memref_add[OF H fresh, of ?s'] m(2) by simp
  moreover have "md ?n = 0" using held_no_refs[OF H fresh] by simp
  ultimately have H': "held ops ?s' fd (md(?n := md ?n + 1))" by simp
  have fail: "held ops (s\<lparr>next_addr := ?n + k\<rparr>) fd md" for k by (rule held_cong[OF H]) simp_all
  from eq vp(1) have "memref_value_new E (Some f) (Some v) s = Some (Some ?n, ?s') \<and> bad = 0 \<or>
      memref_value_new E (Some f) (Some v) s = Some (None, s\<lparr>next_addr := ?n + 1\<rparr>) \<or>
      memref_value_new E (Some f) (Some v) s = Some (None, s\<lparr>next_addr := ?n + 2\<rparr>)"
    by (auto simp: Let_def m_def)
  then have "memref_value_new E (Some f) (Some v) s = Some (Some ?n, ?s') \<and> bad = 0 \<or>
      (\<exists>k. memref_value_new E (Some f) (Some v) s = Some (None, s\<lparr>next_addr := ?n + k\<rparr>))"
    by blast
  then show ?thesis
  proof (elim disjE exE conjE)
    assume "memref_value_new E (Some f) (Some v) s = Some (Some ?n, ?s')" "bad = 0"
    moreover have "memrefs_kept s ?s'" using fresh by (simp add: memrefs_kept_def)
    ultimately show ?thesis using H' m vp got[of ?n ?s' m] by (simp add: same_fields_def same_ops_def)
  next
    fix k
    assume "memref_value_new E (Some f) (Some v) s = Some (None, s\<lparr>next_addr := ?n + k\<rparr>)"
    with fail[of k] failed show ?thesis by (simp add: same_fields_def same_ops_def memrefs_kept_def)
  qed
qed

subsection \<open>Freeing an operation\<close>

text \<open>One reference, through a pointer that may be NULL.\<close>

definition one :: "ptr \<Rightarrow> addr \<Rightarrow> nat" where
  "one q p = of_bool (q = Some p)"

lemma one_None [simp]: "one None = (\<lambda>_. 0)"
  by (simp add: one_def fun_eq_iff)

lemma one_Some [simp]: "one (Some p) q = of_bool (p = q)"
  by (simp add: one_def)

lemma add_one: "fd(p := fd p + 1) = (\<lambda>x. fd x + one (Some p) x)"
  by (auto simp: fun_eq_iff)

lemma uses_one:
  "field_uses op = (\<lambda>p. one (op_dst_field op) p + one (op_src_field op) p)"
  "memref_uses op = (\<lambda>p. one (op_dst op) p + one (op_src op) p)"
  by (simp_all add: field_uses_def memref_uses_def one_def fun_eq_iff)

text \<open>The fields keep their names and extents.\<close>

definition fields_kept :: "'a field_state_scheme \<Rightarrow> 'a field_state_scheme \<Rightarrow> bool" where
  "fields_kept s s' \<longleftrightarrow> field_JS s' = field_JS s \<and>
     (\<forall>p. map_option (\<lambda>fl. (fl_name fl, fl_set fl)) (field_heap s' p) =
          map_option (\<lambda>fl. (fl_name fl, fl_set fl)) (field_heap s p))"

lemma fields_kept_refl [simp]: "fields_kept s s"
  by (simp add: fields_kept_def)

lemma fields_kept_trans [trans]: "fields_kept s t \<Longrightarrow> fields_kept t u \<Longrightarrow> fields_kept s u"
  by (simp add: fields_kept_def)

lemma same_fields_kept: "same_fields s s' \<Longrightarrow> fields_kept s s' \<and> same_ops s s'"
  by (simp add: fields_kept_def same_fields_def)

lemma held_field_release_ptr:
  fixes s :: "'a op_state_scheme"
  assumes H: "held ops s (\<lambda>x. fd x + one fp x) md"
  obtains s' where "field_release fp s = Some s'" "held ops s' fd md" "same_ops s s'" "fields_kept s s'"
    "memref_heap s' = memref_heap s"
proof (cases fp)
  case None
  with H that[of s] show ?thesis by (simp add: field_release_def)
next
  case (Some p)
  then have "0 < fd p + one fp p" by simp
  then have "field_heap s p \<noteq> None" using held_parts(7)[OF H, of p] by simp
  then obtain fl where fl: "field_heap s p = Some fl" by blast
  have *: "(\<lambda>x. fd x + one (Some p) x)(p := fd p + one (Some p) p - 1) = fd" by (auto simp: fun_eq_iff)
  have "0 < fd p + one (Some p) p" by simp
  from held_field_release[OF H[unfolded Some] fl this] obtain s' where
    r: "field_release (Some p) s = Some s'"
    and s': "s' = s\<lparr>field_heap := (field_heap s)(p \<mapsto> fl\<lparr>fl_refcnt := refcnt_release (fl_refcnt fl)\<rparr>)\<rparr>"
    and H': "held ops s' ((\<lambda>x. fd x + one (Some p) x)(p := fd p + one (Some p) p - 1)) md"
    by blast
  show ?thesis
    using that[of s'] r H' fl Some unfolding * by (simp add: s' same_ops_def fields_kept_def)
qed

lemma held_memref_release_ptr:
  fixes s :: "'a op_state_scheme"
  assumes H: "held ops s fd (\<lambda>x. md x + one mp x)"
  obtains s' where "memref_release mp s = Some s'" "held ops s' fd md" "same_fields s s'"
proof (cases mp)
  case None
  with H that[of s] show ?thesis by (simp add: memref_release_def)
next
  case (Some p)
  have *: "(\<lambda>x. md x + one (Some p) x)(p := md p + one (Some p) p - 1) = md" by (auto simp: fun_eq_iff)
  from held_memref_release[OF H[unfolded Some], of p] Some that show ?thesis
    unfolding * by auto
qed

lemma op_inv_split:
  assumes "op_inv s" and q: "op_heap s q = Some op"
  shows "held ((op_heap s)(q := None)) s (field_uses op) (memref_uses op)"
    and "op_ok (field_heap s) (memref_heap s) op"
proof -
  have H: "held (op_heap s) s (\<lambda>_. 0) (\<lambda>_. 0)" using assms(1) by (simp add: op_inv_def)
  note refs = refs_to_remove[OF held_parts(3)[OF H] q]
  show ok: "op_ok (field_heap s) (memref_heap s) op" using held_parts(4)[OF H q] by simp
  show "held ((op_heap s)(q := None)) s (field_uses op) (memref_uses op)"
    unfolding held_def
  proof (intro conjI allI impI)
    show "field_counts ((op_heap s)(q := None)) (field_heap s) (field_uses op)"
      using held_parts(5)[OF H] refs[of field_uses] by (simp add: field_counts_def)
    show "memref_counts ((op_heap s)(q := None)) (memref_heap s) (memref_uses op)"
      using held_parts(6)[OF H] refs[of memref_uses] by (simp add: memref_counts_def)
    show "r < next_addr s" "r < MAXALLOC" "op_ok (field_heap s) (memref_heap s) op'"
      if "((op_heap s)(q := None)) r = Some op'" for r op'
      using held_parts(4)[OF H, of r op'] that by (auto split: if_splits)
    show "field_heap s p \<noteq> None" if "0 < field_uses op p" for p using ok that by (simp add: op_ok_def)
    show "memref_heap s p \<noteq> None" if "0 < memref_uses op p" for p using ok that by (simp add: op_ok_def)
  qed (use held_parts[OF H] in simp_all)
qed

lemma op_inv_join:
  assumes H: "held ops s (field_uses op) (memref_uses op)"
    and s: "op_heap s = ops(q \<mapsto> op)" "ops q = None" "q < next_addr s" "q < MAXALLOC"
    and sides: "side_ok (memref_heap s) (os_set_to (op_set op)) (os_to (op_set op)) (op_dst op)"
      "side_ok (memref_heap s) (os_set_from (op_set op)) (os_from (op_set op)) (op_src op)"
  shows "op_inv s"
proof -
  note refs = refs_to_fresh[OF held_parts(3)[OF H] s(2)]
  have "op_ok (field_heap s) (memref_heap s) op"
    using held_parts(7,8)[OF H] sides by (simp add: op_ok_def)
  then have "held (op_heap s) s (\<lambda>_. 0) (\<lambda>_. 0)"
    using H s refs[of field_uses] refs[of memref_uses]
    unfolding held_def by (auto simp: field_counts_def memref_counts_def)
  then show ?thesis by (simp add: op_inv_def)
qed

lemma op_inv_gone:
  assumes "held ((op_heap s)(q := None)) s (\<lambda>_. 0) (\<lambda>_. 0)"
  shows "op_inv (s\<lparr>op_heap := (op_heap s)(q := None)\<rparr>)"
proof -
  have "held ((op_heap s)(q := None)) (s\<lparr>op_heap := (op_heap s)(q := None)\<rparr>) (\<lambda>_. 0) (\<lambda>_. 0)"
    by (rule held_cong[OF assms]) simp_all
  then show ?thesis by (simp add: op_inv_def)
qed

lemma op_free_left:
  assumes "op_free arg s = Some s'"
  shows "memrefs_left s s'"
proof (cases arg)
  case None
  with assms show ?thesis by (simp add: op_free_def memrefs_left_same)
next
  case (Some p)
  with assms obtain op :: op and s1 s2 s3 s4 where "field_release (op_dst_field op) s = Some s1" "field_release (op_src_field op) s1 = Some s2"
    and m: "memref_release (op_dst op) s2 = Some s3" "memref_release (op_src op) s3 = Some s4"
    and s': "s4\<lparr>op_heap := (op_heap s4)(p := None)\<rparr> = s'"
    unfolding op_free_def by (simp only: option.case bind_eq_Some_conv option.inject) blast
  then have "memrefs_left s s2" by (simp add: memrefs_left_same field_release_left)
  also note memref_release_left[OF m(1)]
  also note memref_release_left[OF m(2)]
  also have "memrefs_left s4 s'" by (simp add: memrefs_left_same s'[symmetric])
  finally show ?thesis .
qed

text \<open>
  Freeing an operation gives up exactly its references: the invariant holds again, and only
  that operation is gone.
\<close>

lemma op_free_inv:
  assumes "op_inv s" and q: "op_heap s q = Some op"
  obtains s' where "op_free (Some q) s = Some s'" "op_inv s'" "op_heap s' = (op_heap s)(q := None)"
    "op_state.more s' = op_state.more s" "next_addr s \<le> next_addr s'" "fields_kept s s'"
proof -
  let ?ops = "(op_heap s)(q := None)"
  have H0: "held ?ops s (\<lambda>x. one (op_src_field op) x + one (op_dst_field op) x)
      (\<lambda>x. one (op_src op) x + one (op_dst op) x)"
    using op_inv_split(1)[OF assms] by (simp add: uses_one add.commute)
  obtain s1 where s1: "field_release (op_dst_field op) s = Some s1"
    "held ?ops s1 (one (op_src_field op)) (\<lambda>x. one (op_src op) x + one (op_dst op) x)"
    "same_ops s s1" "fields_kept s s1"
    using held_field_release_ptr[OF H0] by metis
  have H1: "held ?ops s1 (\<lambda>x. (\<lambda>_. 0) x + one (op_src_field op) x) (\<lambda>x. one (op_src op) x + one (op_dst op) x)"
    using s1(2) by simp
  obtain s2 where s2: "field_release (op_src_field op) s1 = Some s2"
    "held ?ops s2 (\<lambda>_. 0) (\<lambda>x. one (op_src op) x + one (op_dst op) x)"
    "same_ops s1 s2" "fields_kept s1 s2"
    using held_field_release_ptr[OF H1] by metis
  obtain s3 where s3: "memref_release (op_dst op) s2 = Some s3" "held ?ops s3 (\<lambda>_. 0) (one (op_src op))"
    "same_fields s2 s3"
    using held_memref_release_ptr[OF s2(2)] by metis
  have H3: "held ?ops s3 (\<lambda>_. 0) (\<lambda>x. (\<lambda>_. 0) x + one (op_src op) x)" using s3(2) by simp
  obtain s4 where s4: "memref_release (op_src op) s3 = Some s4" "held ?ops s4 (\<lambda>_. 0) (\<lambda>_. 0)"
    "same_fields s3 s4"
    using held_memref_release_ptr[OF H3] by metis
  have "same_ops s s4"
    using s1(3) s2(3) s3(3) s4(3) by (auto simp: same_fields_def intro: same_ops_trans)
  then have so: "op_heap s4 = op_heap s" "op_state.more s4 = op_state.more s" "next_addr s \<le> next_addr s4"
    by (simp_all add: same_ops_def)
  have "fields_kept s s4"
    using s1(4) s2(4) same_fields_kept[OF s3(3)] same_fields_kept[OF s4(3)]
    by (auto intro: fields_kept_trans)
  moreover have "op_inv (s4\<lparr>op_heap := ?ops\<rparr>)"
    using op_inv_gone[of s4 q] s4(2) so(1) by simp
  moreover have "op_free (Some q) s = Some (s4\<lparr>op_heap := ?ops\<rparr>)"
    using q s1(1) s2(1) s3(1) s4(1) so(1) by (simp add: op_free_def)
  ultimately show ?thesis using that[of "s4\<lparr>op_heap := ?ops\<rparr>"] so by (simp add: fields_kept_def)
qed

end
