(* ===== verification/Lifecycle.thy ===== *)
theory Lifecycle
  imports Ownership
begin

text \<open>
  Making an operation (\<open>op_new\<close> of src/operations.c) under the invariant of Ownership: on every
  path it returns, keeps the invariant, and either leaves no trace or yields an operation
  whose members are exactly what was asked for and whose compiled form is sound.
\<close>

subsection \<open>An operation under construction\<close>

definition building :: "addr \<Rightarrow> op \<Rightarrow> 'a op_state_scheme \<Rightarrow> bool" where
  "building q op s \<longleftrightarrow> op_inv s \<and> op_heap s q = Some op \<and>
     os_to (op_set op) = None \<and> os_from (op_set op) = None"

text \<open>What a step on the operation at \<open>q\<close> leaves alone.\<close>

definition op_frame :: "addr \<Rightarrow> 'a op_state_scheme \<Rightarrow> 'a op_state_scheme \<Rightarrow> bool" where
  "op_frame q s s' \<longleftrightarrow> (op_heap s')(q := None) = (op_heap s)(q := None) \<and>
     op_state.more s' = op_state.more s \<and> next_addr s \<le> next_addr s' \<and> fields_kept s s'"

lemma op_frame_refl [simp]: "op_frame q s s"
  by (simp add: op_frame_def)

lemma op_frame_trans [trans]: "op_frame q s t \<Longrightarrow> op_frame q t u \<Longrightarrow> op_frame q s u"
  by (auto simp: op_frame_def intro: fields_kept_trans)

text \<open>Storing a pointer whose reference is held pays the debt.\<close>

lemma building_put:
  assumes B: "building q op s" and H: "held ((op_heap s)(q := None)) s1 (field_uses (put op)) (memref_uses (put op))"
    and so: "same_ops s s1" and fk: "fields_kept s s1" and set: "op_set (put op) = op_set op"
  obtains s2 where "op_put put q s1 = Some s2" "building q (put op) s2" "op_frame q s s2"
    "field_heap s2 = field_heap s1" "field_JS s2 = field_JS s1" "memref_heap s2 = memref_heap s1"
proof -
  let ?s2 = "s1\<lparr>op_heap := (op_heap s)(q \<mapsto> put op)\<rparr>"
  have q: "op_heap s q = Some op" "op_inv s" and un: "os_to (op_set op) = None" "os_from (op_set op) = None"
    using B by (simp_all add: building_def)
  have bnd: "q < next_addr s" "q < MAXALLOC"
    using q held_parts(4)[of "op_heap s" s "\<lambda>_. 0" "\<lambda>_. 0" q op] by (simp_all add: op_inv_def)
  have "held ((op_heap s)(q := None)) ?s2 (field_uses (put op)) (memref_uses (put op))"
    by (rule held_cong[OF H]) simp_all
  then have "op_inv ?s2"
    by (rule op_inv_join) (use so bnd un set in \<open>auto simp: same_ops_def side_ok_def\<close>)
  then have "building q (put op) ?s2" using un set by (simp add: building_def)
  moreover have "op_put put q s1 = Some ?s2" using so q by (simp add: op_put_def same_ops_def)
  moreover have "op_frame q s ?s2"
    using so fk by (simp add: op_frame_def same_ops_def fields_kept_def)
  ultimately show ?thesis using that by simp
qed

lemma building_held: "building q op s \<Longrightarrow> held ((op_heap s)(q := None)) s (field_uses op) (memref_uses op)"
  using op_inv_split(1) by (auto simp: building_def)

text \<open>The two members for fields and the two for memrefs, as the code sets them.\<close>

definition puts_field :: "(ptr \<Rightarrow> op \<Rightarrow> op) \<Rightarrow> op \<Rightarrow> bool" where
  "puts_field put op \<longleftrightarrow> put None op = op \<and>
     (\<forall>fp. op_set (put fp op) = op_set op \<and> memref_uses (put fp op) = memref_uses op \<and>
           field_uses (put fp op) = (\<lambda>p. field_uses op p + one fp p))"

definition puts_memref :: "(ptr \<Rightarrow> op \<Rightarrow> op) \<Rightarrow> op \<Rightarrow> bool" where
  "puts_memref put op \<longleftrightarrow> put None op = op \<and>
     (\<forall>mp. op_set (put mp op) = op_set op \<and> field_uses (put mp op) = field_uses op \<and>
           memref_uses (put mp op) = (\<lambda>p. memref_uses op p + one mp p))"

lemma puts_slots:
  "op_dst_field op = None \<Longrightarrow> puts_field (\<lambda>fp op. op\<lparr>op_dst_field := fp\<rparr>) op"
  "op_src_field op = None \<Longrightarrow> puts_field (\<lambda>fp op. op\<lparr>op_src_field := fp\<rparr>) op"
  "op_dst op = None \<Longrightarrow> puts_memref (\<lambda>fp op. op\<lparr>op_dst := fp\<rparr>) op"
  "op_src op = None \<Longrightarrow> puts_memref (\<lambda>fp op. op\<lparr>op_src := fp\<rparr>) op"
  by (auto simp: puts_field_def puts_memref_def uses_one fun_eq_iff)

lemma fields_kept_refcnt:
  "field_heap s p = Some fl \<Longrightarrow> fields_kept s (s\<lparr>field_heap := (field_heap s)(p \<mapsto> fl\<lparr>fl_refcnt := r\<rparr>)\<rparr>)"
  by (simp add: fields_kept_def)

lemma building_take_field:
  assumes B: "building q op s" and put: "puts_field put op"
    and fp_def: "fp = (case name of None \<Rightarrow> None | Some nm \<Rightarrow> js_get (field_JS s) nm)"
  obtains s' where "op_take_field put name q s = Some (name \<noteq> None \<and> fp = None, s')"
    "building q (put fp op) s'" "op_frame q s s'" "memref_heap s' = memref_heap s"
proof (cases name)
  case None
  with B put that[of s] show ?thesis by (simp add: op_take_field_def fp_def puts_field_def)
next
  case (Some nm)
  note H = building_held[OF B]
  show ?thesis
  proof (cases "js_get (field_JS s) nm")
    case None
    then have fp: "fp = None" using Some by (simp add: fp_def)
    have "held ((op_heap s)(q := None)) s (field_uses (put None op)) (memref_uses (put None op))"
      using H put by (simp add: puts_field_def)
    from building_put[where put = "put None", OF B this] put obtain s2 where
      s2: "op_put (put None) q s = Some s2" "building q (put None op) s2" "op_frame q s s2" "memref_heap s2 = memref_heap s"
      by (auto simp: puts_field_def)
    have "field_get nm s = Some (None, s)" using None by (simp add: field_get_def)
    with s2 that[of s2] fp Some show ?thesis by (simp add: op_take_field_def)
  next
    case (Some p)
    then have fp: "fp = Some p" using \<open>name = Some nm\<close> by (simp add: fp_def)
    have few: "field_uses op p \<le> 8" using uses_le(1)[of op p] by simp
    obtain fl s1 where fl: "field_heap s p = Some fl" and get: "field_get nm s = Some (Some p, s1)"
      and s1: "s1 = s\<lparr>field_heap := (field_heap s)(p \<mapsto> fl\<lparr>fl_refcnt := refcnt_take (fl_refcnt fl)\<rparr>)\<rparr>"
      and H1: "held ((op_heap s)(q := None)) s1 ((field_uses op)(p := field_uses op p + 1)) (memref_uses op)"
      using held_field_get[OF H few Some] by metis
    have "held ((op_heap s)(q := None)) s1 (field_uses (put (Some p) op)) (memref_uses (put (Some p) op))"
      using H1 put unfolding add_one puts_field_def by simp
    moreover have "same_ops s s1" "fields_kept s s1" using fl fields_kept_refcnt[OF fl] by (simp_all add: s1 same_ops_def)
    moreover have "op_set (put (Some p) op) = op_set op" using put by (simp add: puts_field_def)
    ultimately obtain s2 where s2: "op_put (put (Some p)) q s1 = Some s2" "building q (put (Some p) op) s2"
      "op_frame q s s2" "memref_heap s2 = memref_heap s1"
      using building_put[where put = "put (Some p)", OF B] by metis
    with get that[of s2] fp \<open>name = Some nm\<close> show ?thesis by (simp add: op_take_field_def s1)
  qed
qed

lemma building_take_state:
  assumes B: "building q op s" and put: "puts_memref put op" and E: "env_ok E"
    and f: "name \<noteq> None \<Longrightarrow> \<exists>f fl. fp = Some f \<and> field_heap s f = Some fl \<and> fl_set fl = fs"
  obtains mp s' where "op_take_state E put fp name q s = Some (name \<noteq> None \<and> mp = None, s')"
    "building q (put mp op) s'" "op_frame q s s'" "memrefs_kept s s'"
    "name = None \<Longrightarrow> mp = None"
    "\<And>p. mp = Some p \<Longrightarrow> \<exists>m. memref_heap s' p = Some m \<and> \<not> memref_is_value m \<and> mr_name m = name \<and>
       length (mr_bytes m) = unat (fs_len fs)"
proof (cases name)
  case None
  with B put that[of None s] show ?thesis by (simp add: op_take_state_def puts_memref_def)
next
  case (Some nm)
  then obtain f fl where fl: "fp = Some f" "field_heap s f = Some fl" "fl_set fl = fs" using f by blast
  note H = building_held[OF B]
  have few: "memref_uses op p \<le> 8" for p using uses_le(2)[of op p] by simp
  show ?thesis
  proof (rule held_state_get[OF E H few fl(2), of nm])
    fix p m s1
    assume get: "memref_state_get E (Some f) (Some nm) s = Some (Some p, s1)"
      and H1: "held ((op_heap s)(q := None)) s1 (field_uses op) ((memref_uses op)(p := memref_uses op p + 1))"
      and sf: "same_fields s s1" and mk: "memrefs_kept s s1"
      and m: "memref_heap s1 p = Some m" "\<not> memref_is_value m" "mr_name m = Some nm"
        "length (mr_bytes m) = unat (fs_len (fl_set fl))"
    have "held ((op_heap s)(q := None)) s1 (field_uses (put (Some p) op)) (memref_uses (put (Some p) op))"
      using H1 put unfolding add_one puts_memref_def by simp
    moreover have "op_set (put (Some p) op) = op_set op" using put by (simp add: puts_memref_def)
    ultimately obtain s2 where s2: "op_put (put (Some p)) q s1 = Some s2" "building q (put (Some p) op) s2"
      "op_frame q s s2" "memref_heap s2 = memref_heap s1"
      using building_put[where put = "put (Some p)", OF B] same_fields_kept[OF sf] by metis
    from mk s2(4) have "memrefs_kept s s2" by (simp add: memrefs_kept_def)
    with get s2 m that[of "Some p" s2] Some fl show ?thesis by (simp add: op_take_state_def)
  next
    fix s1
    assume get: "memref_state_get E (Some f) (Some nm) s = Some (None, s1)"
      and H1: "held ((op_heap s)(q := None)) s1 (field_uses op) (memref_uses op)"
      and sf: "same_fields s s1" and mk: "memrefs_kept s s1"
    have "held ((op_heap s)(q := None)) s1 (field_uses (put None op)) (memref_uses (put None op))"
      using H1 put by (simp add: puts_memref_def)
    moreover have "op_set (put None op) = op_set op" using put by (simp add: puts_memref_def)
    ultimately obtain s2 where s2: "op_put (put None) q s1 = Some s2" "building q (put None op) s2"
      "op_frame q s s2" "memref_heap s2 = memref_heap s1"
      using building_put[where put = "put None", OF B] same_fields_kept[OF sf] by metis
    from mk s2(4) have "memrefs_kept s s2" by (simp add: memrefs_kept_def)
    with get s2 that[of None s2] Some fl show ?thesis by (simp add: op_take_state_def)
  qed
qed

lemma building_take_value:
  assumes B: "building q op s" and put: "puts_memref put op" and E: "env_ok E"
    and f: "val \<noteq> None \<Longrightarrow> \<exists>f fl. fp = Some f \<and> field_heap s f = Some fl \<and> fl_set fl = fs"
  obtains mp s' where "op_take_value E put fp val q s = Some (val \<noteq> None \<and> mp = None, s')"
    "building q (put mp op) s'" "op_frame q s s'" "memrefs_kept s s'"
    "val = None \<Longrightarrow> mp = None"
    "\<And>p. mp = Some p \<Longrightarrow> \<exists>m. memref_heap s' p = Some m \<and> memref_is_value m \<and> mr_name m = val \<and>
       value_parse E val (unat (fs_len fs)) = Some (0, mr_bytes m) \<and>
       length (mr_bytes m) = unat (fs_len fs)"
proof (cases "val")
  case None
  with B put that[of None s] show ?thesis by (simp add: op_take_value_def puts_memref_def)
next
  case (Some v)
  then obtain f fl where fl: "fp = Some f" "field_heap s f = Some fl" "fl_set fl = fs" using f by blast
  note H = building_held[OF B]
  show ?thesis
  proof (rule held_value_new[OF E H fl(2), of v])
    fix p m s1
    assume get: "memref_value_new E (Some f) (Some v) s = Some (Some p, s1)"
      and H1: "held ((op_heap s)(q := None)) s1 (field_uses op) ((memref_uses op)(p := memref_uses op p + 1))"
      and sf: "same_fields s s1" and mk: "memrefs_kept s s1"
      and m: "memref_heap s1 p = Some m" "memref_is_value m" "mr_name m = Some v"
        "value_parse E (Some v) (unat (fs_len (fl_set fl))) = Some (0, mr_bytes m)"
        "length (mr_bytes m) = unat (fs_len (fl_set fl))"
    have "held ((op_heap s)(q := None)) s1 (field_uses (put (Some p) op)) (memref_uses (put (Some p) op))"
      using H1 put unfolding add_one puts_memref_def by simp
    moreover have "op_set (put (Some p) op) = op_set op" using put by (simp add: puts_memref_def)
    ultimately obtain s2 where s2: "op_put (put (Some p)) q s1 = Some s2" "building q (put (Some p) op) s2"
      "op_frame q s s2" "memref_heap s2 = memref_heap s1"
      using building_put[where put = "put (Some p)", OF B] same_fields_kept[OF sf] by metis
    from mk s2(4) have "memrefs_kept s s2" by (simp add: memrefs_kept_def)
    with get s2 m that[of "Some p" s2] Some fl show ?thesis by (simp add: op_take_value_def)
  next
    fix s1
    assume get: "memref_value_new E (Some f) (Some v) s = Some (None, s1)"
      and H1: "held ((op_heap s)(q := None)) s1 (field_uses op) (memref_uses op)"
      and sf: "same_fields s s1" and mk: "memrefs_kept s s1"
    have "held ((op_heap s)(q := None)) s1 (field_uses (put None op)) (memref_uses (put None op))"
      using H1 put by (simp add: puts_memref_def)
    moreover have "op_set (put None op) = op_set op" using put by (simp add: puts_memref_def)
    ultimately obtain s2 where s2: "op_put (put None) q s1 = Some s2" "building q (put None op) s2"
      "op_frame q s s2" "memref_heap s2 = memref_heap s1"
      using building_put[where put = "put None", OF B] same_fields_kept[OF sf] by metis
    from mk s2(4) have "memrefs_kept s s2" by (simp add: memrefs_kept_def)
    with get s2 that[of None s2] Some fl show ?thesis by (simp add: op_take_value_def)
  qed
qed

subsection \<open>The whole of \<open>op_new\<close>\<close>

lemma op_inv_fresh: "op_inv s \<Longrightarrow> next_addr s \<le> p \<Longrightarrow> op_heap s p = None"
  using held_parts(4)[of "op_heap s" s "\<lambda>_. 0" "\<lambda>_. 0" p]
  by (cases "op_heap s p") (auto simp: op_inv_def)

lemma op_inv_cong:
  assumes "op_inv s" and "field_heap s' = field_heap s" "field_JS s' = field_JS s"
    "memref_heap s' = memref_heap s" "state_JS s' = state_JS s" "op_heap s' = op_heap s"
    "next_addr s \<le> next_addr s'"
  shows "op_inv s'"
  using held_cong[of "op_heap s" s "\<lambda>_. 0" "\<lambda>_. 0" s'] assms by (simp add: op_inv_def)

lemma building_start:
  assumes I: "op_inv s" and E: "env_ok E" and ok: "calloc_ok E (next_addr s)"
  shows "building (next_addr s) op_zero
    (s\<lparr>next_addr := next_addr s + 1, op_heap := (op_heap s)(next_addr s \<mapsto> op_zero)\<rparr>)" (is "building ?q _ ?s'")
proof -
  have z: "field_uses op_zero = (\<lambda>_. 0)" "memref_uses op_zero = (\<lambda>_. 0)"
    by (simp_all add: op_zero_def field_uses_def memref_uses_def fun_eq_iff)
  have "?q < MAXALLOC" using env_okD(3)[OF E] ok by (simp add: calloc_bounded_def)
  moreover have "held (op_heap s) ?s' (\<lambda>_. 0) (\<lambda>_. 0)"
    using I unfolding op_inv_def by (rule held_cong) simp_all
  moreover have "op_heap s ?q = None" using op_inv_fresh[OF I] by simp
  ultimately have "op_inv ?s'"
    by (intro op_inv_join[of "op_heap s" _ op_zero ?q]) (simp_all add: z, simp_all add: op_zero_def side_ok_def)
  then show ?thesis by (simp add: building_def op_zero_def)
qed

lemma building_die:
  assumes "building q op s"
  obtains s' where "op_die (Some q) s = Some (None, s')" "op_inv s'" "op_heap s' = (op_heap s)(q := None)"
    "op_frame q s s'"
proof -
  from assms have "op_inv s" "op_heap s q = Some op" by (simp_all add: building_def)
  from op_free_inv[OF this] obtain s' where s': "op_free (Some q) s = Some s'" "op_inv s'"
    "op_heap s' = (op_heap s)(q := None)" "op_state.more s' = op_state.more s" "next_addr s \<le> next_addr s'"
    "fields_kept s s'" .
  with that[of s'] show ?thesis by (simp add: op_die_def op_frame_def)
qed

text \<open>The compiled form of an operation with live fields, and memrefs of their lengths.\<close>

lemma building_compile:
  assumes B: "building q op s"
    and tf: "(if op_dst_field op \<noteq> None then op_dst_field op else op_src_field op) = Some tf" "field_heap s tf = Some tfl"
    and ff: "(if op_src_field op \<noteq> None then op_src_field op else op_dst_field op) = Some ff" "field_heap s ff = Some ffl"
    and dst: "\<And>p. op_dst op = Some p \<Longrightarrow> \<exists>m. memref_heap s p = Some m \<and> length (mr_bytes m) = unat (fs_len (fl_set tfl))"
    and src: "\<And>p. op_src op = Some p \<Longrightarrow> \<exists>m. memref_heap s p = Some m \<and> length (mr_bytes m) = unat (fs_len (fl_set ffl))"
  defines "op' \<equiv> op\<lparr>op_set := \<lparr>os_set_to = fl_set tfl, os_to = op_dst op, os_set_from = fl_set ffl, os_from = op_src op\<rparr>\<rparr>"
  shows "op_compile q s = Some (s\<lparr>op_heap := (op_heap s)(q \<mapsto> op')\<rparr>)"
    and "op_inv (s\<lparr>op_heap := (op_heap s)(q \<mapsto> op')\<rparr>)"
proof -
  have q: "op_heap s q = Some op" and I: "op_inv s" using B by (simp_all add: building_def)
  show "op_compile q s = Some (s\<lparr>op_heap := (op_heap s)(q \<mapsto> op')\<rparr>)"
    using q tf ff by (simp add: op_compile_def op'_def)
  have bnd: "q < next_addr s" "q < MAXALLOC"
    using held_parts(4)[of "op_heap s" s "\<lambda>_. 0" "\<lambda>_. 0" q op] I q by (simp_all add: op_inv_def)
  have uses: "field_uses op' = field_uses op" "memref_uses op' = memref_uses op"
    by (simp_all add: op'_def field_uses_def memref_uses_def fun_eq_iff)
  show "op_inv (s\<lparr>op_heap := (op_heap s)(q \<mapsto> op')\<rparr>)" (is "op_inv ?s'")
  proof (rule op_inv_join)
    show "held ((op_heap s)(q := None)) ?s' (field_uses op') (memref_uses op')"
      unfolding uses by (rule held_cong[OF building_held[OF B]]) simp_all
    show "side_ok (memref_heap ?s') (os_set_to (op_set op')) (os_to (op_set op')) (op_dst op')"
      using dst by (simp add: side_ok_def op'_def)
    show "side_ok (memref_heap ?s') (os_set_from (op_set op')) (os_from (op_set op')) (op_src op')"
      using src by (simp add: side_ok_def op'_def)
  qed (use bnd in simp_all)
qed

text \<open>What \<open>op_new\<close> makes of its five arguments.\<close>

definition field_lookup :: "string option \<Rightarrow> 'a field_state_scheme \<Rightarrow> ptr" where
  "field_lookup name s = (case name of None \<Rightarrow> None | Some nm \<Rightarrow> js_get (field_JS s) nm)"

definition op_side_made ::
  "'a memref_state_scheme \<Rightarrow> ptr \<Rightarrow> ptr \<Rightarrow> field_set \<Rightarrow> ptr \<Rightarrow> ptr \<Rightarrow> string option \<Rightarrow> string option \<Rightarrow> bool"
where
  "op_side_made s own other fs mp mp' state_nm val \<longleftrightarrow>
     mp' = mp \<and> (mp = None \<longleftrightarrow> state_nm = None \<and> val = None) \<and>
     (\<exists>f fl. (if own \<noteq> None then own else other) = Some f \<and> field_heap s f = Some fl \<and> fs = fl_set fl) \<and>
     (\<forall>p. mp = Some p \<longrightarrow> (\<exists>m. memref_heap s p = Some m \<and> length (mr_bytes m) = unat (fs_len fs) \<and>
        (if state_nm \<noteq> None then \<not> memref_is_value m \<and> mr_name m = state_nm
         else memref_is_value m \<and> mr_name m = val)))"

definition op_made ::
  "'a op_state_scheme \<Rightarrow> string option \<Rightarrow> string option \<Rightarrow> string option \<Rightarrow> string option \<Rightarrow> string option \<Rightarrow>
   'a op_state_scheme \<Rightarrow> op \<Rightarrow> bool"
where
  "op_made s dfn dsn sfn ssn sv s' op \<longleftrightarrow>
     op_dst_field op = field_lookup dfn s \<and> (dfn \<noteq> None \<longrightarrow> op_dst_field op \<noteq> None) \<and>
     op_src_field op = field_lookup sfn s \<and> (sfn \<noteq> None \<longrightarrow> op_src_field op \<noteq> None) \<and>
     op_side_made s' (op_dst_field op) (op_src_field op) (os_set_to (op_set op)) (op_dst op) (os_to (op_set op)) dsn None \<and>
     op_side_made s' (op_src_field op) (op_dst_field op) (os_set_from (op_set op)) (op_src op) (os_from (op_set op)) ssn sv"

definition op_new_post ::
  "'a op_state_scheme \<Rightarrow> string option \<Rightarrow> string option \<Rightarrow> string option \<Rightarrow> string option \<Rightarrow> string option \<Rightarrow>
   ptr \<Rightarrow> 'a op_state_scheme \<Rightarrow> bool"
where
  "op_new_post s dfn dsn sfn ssn sv r s' \<longleftrightarrow>
     op_inv s' \<and> op_state.more s' = op_state.more s \<and> next_addr s \<le> next_addr s' \<and> fields_kept s s' \<and>
     (case r of
        None \<Rightarrow> op_heap s' = op_heap s
      | Some p \<Rightarrow> op_heap s p = None \<and> memrefs_kept s s' \<and>
          (\<exists>op. op_heap s' = (op_heap s)(p \<mapsto> op) \<and> op_made s dfn dsn sfn ssn sv s' op))"

lemma fields_kept_get:
  assumes "fields_kept s s'" and "field_heap s p = Some fl"
  obtains fl' where "field_heap s' p = Some fl'" "fl_set fl' = fl_set fl" "fl_name fl' = fl_name fl"
proof -
  have "map_option (\<lambda>fl. (fl_name fl, fl_set fl)) (field_heap s' p) = Some (fl_name fl, fl_set fl)"
    using assms by (simp add: fields_kept_def)
  then show ?thesis using that by (auto simp: map_option_eq_Some)
qed

lemma fields_kept_lookup: "fields_kept s s' \<Longrightarrow> field_lookup name s' = field_lookup name s"
  by (simp add: fields_kept_def field_lookup_def split: option.split)

lemma op_side_madeI:
  assumes "(if own \<noteq> None then own else other) = Some f" and "field_heap s f = Some fl"
    and "mp = None \<longleftrightarrow> state_nm = None \<and> val = None"
    and "\<And>p. mp = Some p \<Longrightarrow> \<exists>m. memref_heap s p = Some m \<and> length (mr_bytes m) = unat (fs_len (fl_set fl)) \<and>
        (if state_nm \<noteq> None then \<not> memref_is_value m \<and> mr_name m = state_nm
         else memref_is_value m \<and> mr_name m = val)"
  shows "op_side_made s own other (fl_set fl) mp mp state_nm val"
  using assms unfolding op_side_made_def by blast

lemma op_side_made_cong:
  "field_heap s' = field_heap s \<Longrightarrow> memref_heap s' = memref_heap s \<Longrightarrow>
     op_side_made s' own other fs mp mp' st v = op_side_made s own other fs mp mp' st v"
  by (simp add: op_side_made_def)

lemma building_field_live:
  assumes B: "building q op s" and "op_dst_field op = Some f \<or> op_src_field op = Some f"
  obtains fl where "field_heap s f = Some fl"
proof -
  have "0 < field_uses op f" using assms(2) by (auto simp: field_uses_def)
  from held_parts(7)[OF building_held[OF B] this] that show ?thesis by blast
qed

text \<open>The end of every failing path.\<close>

lemma op_new_refused:
  assumes B: "building q op s1" and fr: "op_frame q s0 s1"
    and s0: "op_heap s0 = (op_heap s)(q \<mapsto> op0)" "op_heap s q = None" "op_state.more s0 = op_state.more s"
      "next_addr s \<le> next_addr s0" "fields_kept s s0"
  shows "\<exists>r s'. op_die (Some q) s1 = Some (r, s') \<and> op_new_post s dfn dsn sfn ssn sv r s'"
proof -
  obtain s' where s': "op_die (Some q) s1 = Some (None, s')" "op_inv s'"
    "op_heap s' = (op_heap s1)(q := None)" "op_frame q s1 s'"
    using building_die[OF B] .
  have "(op_heap s)(q := None) = op_heap s" using s0(2) by auto
  with s' fr s0 have "op_new_post s dfn dsn sfn ssn sv None s'"
    by (auto simp: op_new_post_def op_frame_def intro: fields_kept_trans)
  with s'(1) show ?thesis by blast
qed

lemma op_new_made:
  assumes B: "building q op s1" and fr: "op_frame q s0 s1" and mk: "memrefs_kept s s1"
    and s0: "op_heap s0 = (op_heap s)(q \<mapsto> op0)" "op_heap s q = None" "op_state.more s0 = op_state.more s"
      "next_addr s \<le> next_addr s0" "fields_kept s s0"
    and fields: "op_dst_field op = field_lookup dfn s" "dfn \<noteq> None \<longrightarrow> op_dst_field op \<noteq> None"
      "op_src_field op = field_lookup sfn s" "sfn \<noteq> None \<longrightarrow> op_src_field op \<noteq> None"
    and tf: "(if op_dst_field op \<noteq> None then op_dst_field op else op_src_field op) = Some tf" "field_heap s1 tf = Some tfl"
    and ff: "(if op_src_field op \<noteq> None then op_src_field op else op_dst_field op) = Some ff" "field_heap s1 ff = Some ffl"
    and dst: "op_dst op = None \<longleftrightarrow> dsn = None"
      "\<And>p. op_dst op = Some p \<Longrightarrow> \<exists>m. memref_heap s1 p = Some m \<and> \<not> memref_is_value m \<and> mr_name m = dsn \<and>
        length (mr_bytes m) = unat (fs_len (fl_set tfl))"
    and src: "op_src op = None \<longleftrightarrow> ssn = None \<and> sv = None"
      "\<And>p. op_src op = Some p \<Longrightarrow> \<exists>m. memref_heap s1 p = Some m \<and> length (mr_bytes m) = unat (fs_len (fl_set ffl)) \<and>
        (if ssn \<noteq> None then \<not> memref_is_value m \<and> mr_name m = ssn else memref_is_value m \<and> mr_name m = sv)"
  shows "\<exists>s'. op_compile q s1 = Some s' \<and> op_new_post s dfn dsn sfn ssn sv (Some q) s'"
proof -
  let ?op = "op\<lparr>op_set := \<lparr>os_set_to = fl_set tfl, os_to = op_dst op, os_set_from = fl_set ffl, os_from = op_src op\<rparr>\<rparr>"
  let ?s' = "s1\<lparr>op_heap := (op_heap s1)(q \<mapsto> ?op)\<rparr>"
  have d: "\<exists>m. memref_heap s1 p = Some m \<and> length (mr_bytes m) = unat (fs_len (fl_set tfl))"
    if "op_dst op = Some p" for p using dst(2)[OF that] by blast
  have e: "\<exists>m. memref_heap s1 p = Some m \<and> length (mr_bytes m) = unat (fs_len (fl_set ffl))"
    if "op_src op = Some p" for p using src(2)[OF that] by blast
  note cp = building_compile[OF B tf ff d e]
  have heap: "op_heap ?s' = (op_heap s)(q \<mapsto> ?op)"
    using fr s0(1) unfolding op_frame_def by (metis (no_types, lifting) fun_upd_upd op_state.select_convs(1) op_state.surjective op_state.update_convs(1))
  have "fields_kept s ?s'"
    using fields_kept_trans[OF s0(5), of s1] fr by (simp add: op_frame_def fields_kept_def)
  moreover have "op_side_made s1 (op_dst_field op) (op_src_field op) (fl_set tfl) (op_dst op) (op_dst op) dsn None"
  proof (rule op_side_madeI[where f = tf])
    show "\<exists>m. memref_heap s1 p = Some m \<and> length (mr_bytes m) = unat (fs_len (fl_set tfl)) \<and>
        (if dsn \<noteq> None then \<not> memref_is_value m \<and> mr_name m = dsn else memref_is_value m \<and> mr_name m = None)"
      if "op_dst op = Some p" for p
      using dst(2)[OF that] dst(1) that by auto
  qed (use tf dst(1) in simp_all)
  moreover have "op_side_made s1 (op_src_field op) (op_dst_field op) (fl_set ffl) (op_src op) (op_src op) ssn sv"
    by (rule op_side_madeI[OF ff src])
  ultimately have "op_made s dfn dsn sfn ssn sv ?s' ?op" and "fields_kept s ?s'"
    using fields op_side_made_cong[of ?s' s1] by (simp_all add: op_made_def)
  then have "op_new_post s dfn dsn sfn ssn sv (Some q) ?s'"
    using cp(2) heap fr s0 mk by (auto simp: op_new_post_def op_frame_def memrefs_kept_def)
  with cp(1) show ?thesis by blast
qed

lemma op_new_post_none:
  "op_inv s \<Longrightarrow> op_new_post s dfn dsn sfn ssn sv None (s\<lparr>next_addr := next_addr s + k\<rparr>)"
  using op_inv_cong[of s "s\<lparr>next_addr := next_addr s + k\<rparr>"] by (simp add: op_new_post_def fields_kept_def)

lemma op_new_unfold:
  "op_new E dfn dsn sfn ssn sv s =
    (if (dfn = None \<and> sfn = None) \<or> (dfn = None \<and> dsn = None) \<or>
        (sfn = None \<and> ssn = None \<and> sv = None) \<or> (ssn \<noteq> None \<and> sv \<noteq> None) then Some (None, s)
     else if calloc_ok E (next_addr s)
     then op_build E dfn dsn sfn ssn sv (next_addr s)
            (s\<lparr>next_addr := next_addr s + 1, op_heap := (op_heap s)(next_addr s \<mapsto> op_zero)\<rparr>)
     else Some (None, s\<lparr>next_addr := next_addr s + 1\<rparr>))"
  by (auto simp: op_new_def op_die_def op_free_def calloc_def)

text \<open>The source of an operation: a state or a value.\<close>

lemma building_take_src:
  assumes B: "building q op s" and slot: "op_src op = None" and E: "env_ok E"
    and f: "fp = Some f" "field_heap s f = Some fl" and one: "ssn = None \<or> sv = None"
  obtains mp s' where
    "(if ssn \<noteq> None then op_take_state E (\<lambda>mp op. op\<lparr>op_src := mp\<rparr>) fp ssn q s
      else op_take_value E (\<lambda>mp op. op\<lparr>op_src := mp\<rparr>) fp sv q s) =
     Some ((ssn \<noteq> None \<or> sv \<noteq> None) \<and> mp = None, s')"
    "building q (op\<lparr>op_src := mp\<rparr>) s'" "op_frame q s s'" "memrefs_kept s s'"
    "ssn = None \<and> sv = None \<Longrightarrow> mp = None"
    "\<And>p. mp = Some p \<Longrightarrow> \<exists>m. memref_heap s' p = Some m \<and> length (mr_bytes m) = unat (fs_len (fl_set fl)) \<and>
        (if ssn \<noteq> None then \<not> memref_is_value m \<and> mr_name m = ssn else memref_is_value m \<and> mr_name m = sv)"
proof -
  have live: "\<exists>f' fl'. fp = Some f' \<and> field_heap s f' = Some fl' \<and> fl_set fl' = fl_set fl" using f by blast
  note put = puts_slots(4)[OF slot]
  show ?thesis
  proof (cases "ssn = None")
    case False
    with one have sv: "sv = None" by simp
    show ?thesis
    proof (rule building_take_state[OF B put E live, where name = ssn])
      fix mp s'
      assume "op_take_state E (\<lambda>mp op. op\<lparr>op_src := mp\<rparr>) fp ssn q s = Some (ssn \<noteq> None \<and> mp = None, s')"
        "building q (op\<lparr>op_src := mp\<rparr>) s'" "op_frame q s s'" "memrefs_kept s s'"
        and m: "\<And>p. mp = Some p \<Longrightarrow> \<exists>m. memref_heap s' p = Some m \<and> \<not> memref_is_value m \<and> mr_name m = ssn \<and>
          length (mr_bytes m) = unat (fs_len (fl_set fl))"
      moreover have "\<exists>m. memref_heap s' p = Some m \<and> length (mr_bytes m) = unat (fs_len (fl_set fl)) \<and>
        (if ssn \<noteq> None then \<not> memref_is_value m \<and> mr_name m = ssn else memref_is_value m \<and> mr_name m = sv)"
        if "mp = Some p" for p using m[OF that] False by auto
      ultimately show thesis using that[of mp s'] False sv by simp
    qed
  next
    case True
    show ?thesis
    proof (rule building_take_value[OF B put E live, where val = sv])
      fix mp s'
      assume "op_take_value E (\<lambda>mp op. op\<lparr>op_src := mp\<rparr>) fp sv q s = Some (sv \<noteq> None \<and> mp = None, s')"
        "building q (op\<lparr>op_src := mp\<rparr>) s'" "op_frame q s s'" "memrefs_kept s s'" "sv = None \<Longrightarrow> mp = None"
        and m: "\<And>p. mp = Some p \<Longrightarrow> \<exists>m. memref_heap s' p = Some m \<and> memref_is_value m \<and> mr_name m = sv \<and>
          value_parse E sv (unat (fs_len (fl_set fl))) = Some (0, mr_bytes m) \<and>
          length (mr_bytes m) = unat (fs_len (fl_set fl))"
      moreover have "\<exists>m. memref_heap s' p = Some m \<and> length (mr_bytes m) = unat (fs_len (fl_set fl)) \<and>
        (if ssn \<noteq> None then \<not> memref_is_value m \<and> mr_name m = ssn else memref_is_value m \<and> mr_name m = sv)"
        if "mp = Some p" for p using m[OF that] True by auto
      ultimately show thesis using that[of mp s'] True by simp
    qed
  qed
qed

lemma memrefs_kept_get:
  assumes "memrefs_kept s s'" and "memref_heap s p = Some m"
  obtains m' where "memref_heap s' p = Some m'" "mr_name m' = mr_name m" "mr_bytes m' = mr_bytes m"
    "memref_is_value m' = memref_is_value m" "mr_set m' = mr_set m"
proof -
  obtain r where "memref_heap s' p = Some (m\<lparr>mr_refcnt := r\<rparr>)"
    using assms by (auto simp: memrefs_kept_def)
  then show ?thesis using that[of "m\<lparr>mr_refcnt := r\<rparr>"] by (simp add: memref_is_value_def)
qed

text \<open>The last steps of \<open>op_build\<close>: from the source's memref, and from the destination's.\<close>

definition op_build_src ::
  "env \<Rightarrow> string option \<Rightarrow> string option \<Rightarrow> string option \<Rightarrow> addr \<Rightarrow> 'a op_state_scheme \<Rightarrow> (ptr \<times> 'a op_state_scheme) option"
where
  "op_build_src E sfn ssn sv p s =
     do { op \<leftarrow> op_heap s p;
          let src_fieldp = (if sfn \<noteq> None then op_src_field op else op_dst_field op);
          (bad, s) \<leftarrow> (if ssn \<noteq> None
             then op_take_state E (\<lambda>mp op. op\<lparr>op_src := mp\<rparr>) src_fieldp ssn p s
             else op_take_value E (\<lambda>mp op. op\<lparr>op_src := mp\<rparr>) src_fieldp sv p s);
          if bad then op_die (Some p) s else
     do { s \<leftarrow> op_compile p s; Some (Some p, s) } }"

definition op_build_dst ::
  "env \<Rightarrow> string option \<Rightarrow> string option \<Rightarrow> string option \<Rightarrow> string option \<Rightarrow> string option \<Rightarrow> addr \<Rightarrow>
   'a op_state_scheme \<Rightarrow> (ptr \<times> 'a op_state_scheme) option"
where
  "op_build_dst E dfn dsn sfn ssn sv p s =
     do { op \<leftarrow> op_heap s p;
          (bad, s) \<leftarrow> op_take_state E (\<lambda>mp op. op\<lparr>op_dst := mp\<rparr>)
            (if dfn \<noteq> None then op_dst_field op else op_src_field op) dsn p s;
          if bad then op_die (Some p) s else op_build_src E sfn ssn sv p s }"

lemma op_build_steps:
  "op_build E dfn dsn sfn ssn sv p s =
     do { (bad, s) \<leftarrow> op_take_field (\<lambda>fp op. op\<lparr>op_dst_field := fp\<rparr>) dfn p s;
          if bad then op_die (Some p) s else
     do { (bad, s) \<leftarrow> op_take_field (\<lambda>fp op. op\<lparr>op_src_field := fp\<rparr>) sfn p s;
          if bad then op_die (Some p) s else op_build_dst E dfn dsn sfn ssn sv p s } }"
  unfolding op_build_def op_build_dst_def op_build_src_def by (rule refl)

text \<open>The names that are given are those of fields that the object has.\<close>

definition op_named :: "string option \<Rightarrow> string option \<Rightarrow> 'a op_state_scheme \<Rightarrow> op \<Rightarrow> bool" where
  "op_named dfn sfn s op \<longleftrightarrow> op_dst_field op = field_lookup dfn s \<and> op_src_field op = field_lookup sfn s \<and>
     (dfn \<noteq> None \<longleftrightarrow> op_dst_field op \<noteq> None) \<and> (sfn \<noteq> None \<longleftrightarrow> op_src_field op \<noteq> None) \<and> (dfn \<noteq> None \<or> sfn \<noteq> None)"

text \<open>The field that gives a side its length.\<close>

lemma op_named_fields:
  assumes "op_named dfn sfn s op" and "building q op s'"
  obtains tf tfl ff ffl where
    "(if op_dst_field op \<noteq> None then op_dst_field op else op_src_field op) = Some tf" "field_heap s' tf = Some tfl"
    "(if dfn \<noteq> None then op_dst_field op else op_src_field op) = Some tf"
    "(if op_src_field op \<noteq> None then op_src_field op else op_dst_field op) = Some ff" "field_heap s' ff = Some ffl"
    "(if sfn \<noteq> None then op_src_field op else op_dst_field op) = Some ff"
proof -
  have some: "op_dst_field op \<noteq> None \<or> op_src_field op \<noteq> None"
    using assms(1) unfolding op_named_def by blast
  then obtain tf where tf: "(if op_dst_field op \<noteq> None then op_dst_field op else op_src_field op) = Some tf"
    by (cases "op_dst_field op") auto
  from some obtain ff where ff: "(if op_src_field op \<noteq> None then op_src_field op else op_dst_field op) = Some ff"
    by (cases "op_src_field op") auto
  obtain tfl where tfl: "field_heap s' tf = Some tfl"
    using building_field_live[OF assms(2), of tf] tf by (auto split: if_splits)
  obtain ffl where ffl: "field_heap s' ff = Some ffl"
    using building_field_live[OF assms(2), of ff] ff by (auto split: if_splits)
  from assms(1) tf ff show ?thesis
    by (intro that[OF tf tfl _ ff ffl]) (auto simp: op_named_def split: if_splits)
qed

lemma op_build_src_spec:
  assumes E: "env_ok E" and B: "building q op s3" and F: "op_frame q s0 s3" and mk: "memrefs_kept s s3"
    and s0: "op_heap s0 = (op_heap s)(q \<mapsto> op_zero)" "op_heap s q = None" "op_state.more s0 = op_state.more s"
      "next_addr s \<le> next_addr s0" "fields_kept s s0"
    and named: "op_named dfn sfn s op" and slot: "op_src op = None" and one: "ssn = None \<or> sv = None"
    and tf: "(if op_dst_field op \<noteq> None then op_dst_field op else op_src_field op) = Some tf" "field_heap s3 tf = Some tfl"
    and dst: "op_dst op = None \<longleftrightarrow> dsn = None"
      "\<And>p. op_dst op = Some p \<Longrightarrow> \<exists>m. memref_heap s3 p = Some m \<and> \<not> memref_is_value m \<and> mr_name m = dsn \<and>
        length (mr_bytes m) = unat (fs_len (fl_set tfl))"
  shows "\<exists>r s'. op_build_src E sfn ssn sv q s3 = Some (r, s') \<and> op_new_post s dfn dsn sfn ssn sv r s'"
proof -
  obtain ff ffl where ff: "(if op_src_field op \<noteq> None then op_src_field op else op_dst_field op) = Some ff"
    "field_heap s3 ff = Some ffl" "(if sfn \<noteq> None then op_src_field op else op_dst_field op) = Some ff"
    by (rule op_named_fields[OF named B])
  have h: "op_heap s3 q = Some op" using B by (simp add: building_def)
  show ?thesis
  proof (rule building_take_src[OF B slot E refl ff(2) one])
    fix mp s4
    assume s4: "(if ssn \<noteq> None then op_take_state E (\<lambda>mp op. op\<lparr>op_src := mp\<rparr>) (Some ff) ssn q s3
        else op_take_value E (\<lambda>mp op. op\<lparr>op_src := mp\<rparr>) (Some ff) sv q s3) =
        Some ((ssn \<noteq> None \<or> sv \<noteq> None) \<and> mp = None, s4)"
      and B4: "building q (op\<lparr>op_src := mp\<rparr>) s4" and F34: "op_frame q s3 s4" and K34: "memrefs_kept s3 s4"
      and mp: "ssn = None \<and> sv = None \<Longrightarrow> mp = None"
      "\<And>p. mp = Some p \<Longrightarrow> \<exists>m. memref_heap s4 p = Some m \<and> length (mr_bytes m) = unat (fs_len (fl_set ffl)) \<and>
        (if ssn \<noteq> None then \<not> memref_is_value m \<and> mr_name m = ssn else memref_is_value m \<and> mr_name m = sv)"
    have F4: "op_frame q s0 s4" using F F34 by (rule op_frame_trans)
    show ?thesis
    proof (cases "(ssn \<noteq> None \<or> sv \<noteq> None) \<and> mp = None")
      case True
      with op_new_refused[OF B4 F4 s0] s4 h ff(3) show ?thesis by (simp add: op_build_src_def)
    next
      case ok: False
      obtain tfl4 where tfl4: "field_heap s4 tf = Some tfl4" "fl_set tfl4 = fl_set tfl"
        using fields_kept_get[of s3 s4, OF _ tf(2)] F34 by (auto simp: op_frame_def)
      obtain ffl4 where ffl4: "field_heap s4 ff = Some ffl4" "fl_set ffl4 = fl_set ffl"
        using fields_kept_get[of s3 s4, OF _ ff(2)] F34 by (auto simp: op_frame_def)
      have dst': "\<exists>m. memref_heap s4 p = Some m \<and> \<not> memref_is_value m \<and> mr_name m = dsn \<and>
          length (mr_bytes m) = unat (fs_len (fl_set tfl4))" if "op_dst op = Some p" for p
        using dst(2)[OF that] memrefs_kept_get[OF K34, of p] tfl4(2) by metis
      have "\<exists>s'. op_compile q s4 = Some s' \<and> op_new_post s dfn dsn sfn ssn sv (Some q) s'"
        by (rule op_new_made[OF B4 F4 memrefs_kept_trans[OF mk K34] s0, where tf = tf and tfl = tfl4 and ff = ff and ffl = ffl4])
          (use named tf(1) ff(1) tfl4 ffl4 dst(1) dst' mp ok in \<open>auto simp: op_named_def\<close>)
      with s4 ok h ff(3) show ?thesis by (auto simp: op_build_src_def)
    qed
  qed
qed

lemma op_build_dst_spec:
  assumes E: "env_ok E" and B: "building q op s2" and F: "op_frame q s0 s2" and mk: "memrefs_kept s s2"
    and s0: "op_heap s0 = (op_heap s)(q \<mapsto> op_zero)" "op_heap s q = None" "op_state.more s0 = op_state.more s"
      "next_addr s \<le> next_addr s0" "fields_kept s s0"
    and named: "op_named dfn sfn s op" and slots: "op_dst op = None" "op_src op = None" and one: "ssn = None \<or> sv = None"
  shows "\<exists>r s'. op_build_dst E dfn dsn sfn ssn sv q s2 = Some (r, s') \<and> op_new_post s dfn dsn sfn ssn sv r s'"
proof -
  obtain tf tfl where tf: "(if op_dst_field op \<noteq> None then op_dst_field op else op_src_field op) = Some tf"
    "field_heap s2 tf = Some tfl" "(if dfn \<noteq> None then op_dst_field op else op_src_field op) = Some tf"
    by (rule op_named_fields[OF named B])
  have h: "op_heap s2 q = Some op" using B by (simp add: building_def)
  have live: "\<exists>f fl. Some tf = Some f \<and> field_heap s2 f = Some fl \<and> fl_set fl = fl_set tfl" using tf(2) by blast
  obtain mp s3 where s3: "op_take_state E (\<lambda>mp op. op\<lparr>op_dst := mp\<rparr>) (Some tf) dsn q s2 = Some (dsn \<noteq> None \<and> mp = None, s3)"
    and B3: "building q (op\<lparr>op_dst := mp\<rparr>) s3" and F23: "op_frame q s2 s3" and K23: "memrefs_kept s2 s3"
    and mp: "dsn = None \<Longrightarrow> mp = None"
    "\<And>p. mp = Some p \<Longrightarrow> \<exists>m. memref_heap s3 p = Some m \<and> \<not> memref_is_value m \<and> mr_name m = dsn \<and>
      length (mr_bytes m) = unat (fs_len (fl_set tfl))"
    by (rule building_take_state[OF B puts_slots(3)[OF slots(1)] E live, where name = dsn]) (rule that; assumption)
  have F3: "op_frame q s0 s3" using F F23 by (rule op_frame_trans)
  show ?thesis
  proof (cases "dsn \<noteq> None \<and> mp = None")
    case True
    with op_new_refused[OF B3 F3 s0] s3 h tf(3) show ?thesis by (simp add: op_build_dst_def)
  next
    case False
    obtain tfl3 where tfl3: "field_heap s3 tf = Some tfl3" "fl_set tfl3 = fl_set tfl"
      using fields_kept_get[of s2 s3, OF _ tf(2)] F23 by (auto simp: op_frame_def)
    have "\<exists>r s'. op_build_src E sfn ssn sv q s3 = Some (r, s') \<and> op_new_post s dfn dsn sfn ssn sv r s'"
      by (rule op_build_src_spec[OF E B3 F3 memrefs_kept_trans[OF mk K23] s0 _ _ one _ tfl3(1)])
        (use named slots(2) tf(1) False mp tfl3(2) in \<open>auto simp: op_named_def\<close>)
    with False s3 h tf(3) show ?thesis by (auto simp: op_build_dst_def)
  qed
qed

lemma op_build_spec:
  assumes E: "env_ok E" and B0: "building q op_zero s0" and mh: "memref_heap s0 = memref_heap s"
    and s0: "op_heap s0 = (op_heap s)(q \<mapsto> op_zero)" "op_heap s q = None" "op_state.more s0 = op_state.more s"
      "next_addr s \<le> next_addr s0" "fields_kept s s0"
    and args: "dfn \<noteq> None \<or> sfn \<noteq> None" "ssn = None \<or> sv = None"
  shows "\<exists>r s'. op_build E dfn dsn sfn ssn sv q s0 = Some (r, s') \<and> op_new_post s dfn dsn sfn ssn sv r s'"
proof -
  let ?df = "field_lookup dfn s" and ?sf = "field_lookup sfn s"
  let ?op1 = "op_zero\<lparr>op_dst_field := ?df\<rparr>" and ?op2 = "op_zero\<lparr>op_dst_field := ?df, op_src_field := ?sf\<rparr>"
  have df: "?df = (case dfn of None \<Rightarrow> None | Some nm \<Rightarrow> js_get (field_JS s0) nm)"
    using fields_kept_lookup[OF s0(5), of dfn] by (simp add: field_lookup_def)
  have "op_dst_field op_zero = None" by (simp add: op_zero_def)
  then obtain s1 where s1: "op_take_field (\<lambda>fp op. op\<lparr>op_dst_field := fp\<rparr>) dfn q s0 = Some (dfn \<noteq> None \<and> ?df = None, s1)"
    and B1: "building q ?op1 s1" and F1: "op_frame q s0 s1" and m1: "memref_heap s1 = memref_heap s0"
    using building_take_field[OF B0 puts_slots(1) df] by metis
  show ?thesis
  proof (cases "dfn \<noteq> None \<and> ?df = None")
    case True
    with op_new_refused[OF B1 F1 s0] s1 show ?thesis by (simp add: op_build_steps)
  next
    case d: False
    have sf: "?sf = (case sfn of None \<Rightarrow> None | Some nm \<Rightarrow> js_get (field_JS s1) nm)"
      using fields_kept_lookup[OF s0(5), of sfn] F1 fields_kept_lookup[of s0 s1 sfn]
      by (simp add: field_lookup_def op_frame_def)
    have "op_src_field ?op1 = None" by (simp add: op_zero_def)
    then obtain s2 where s2: "op_take_field (\<lambda>fp op. op\<lparr>op_src_field := fp\<rparr>) sfn q s1 = Some (sfn \<noteq> None \<and> ?sf = None, s2)"
      and B2: "building q ?op2 s2" and F12: "op_frame q s1 s2" and m2: "memref_heap s2 = memref_heap s1"
      using building_take_field[OF B1 puts_slots(2) sf] by metis
    have F2: "op_frame q s0 s2" using F1 F12 by (rule op_frame_trans)
    show ?thesis
    proof (cases "sfn \<noteq> None \<and> ?sf = None")
      case True
      with op_new_refused[OF B2 F2 s0] s1 d s2 show ?thesis by (auto simp: op_build_steps)
    next
      case e: False
      have named: "op_named dfn sfn s ?op2"
        using d e args(1) by (auto simp: op_named_def field_lookup_def split: option.splits)
      have "memrefs_kept s s2" using mh m1 m2 by (simp add: memrefs_kept_def)
      from op_build_dst_spec[OF E B2 F2 this s0 named _ _ args(2), of dsn] s1 d s2 e
      show ?thesis by (auto simp: op_build_steps op_zero_def)
    qed
  qed
qed

lemma op_new_spec:
  assumes E: "env_ok E" and I: "op_inv s"
  shows "\<exists>r s'. op_new E dfn dsn sfn ssn sv s = Some (r, s') \<and> op_new_post s dfn dsn sfn ssn sv r s'"
proof (cases "(dfn = None \<and> sfn = None) \<or> (dfn = None \<and> dsn = None) \<or>
    (sfn = None \<and> ssn = None \<and> sv = None) \<or> (ssn \<noteq> None \<and> sv \<noteq> None)")
  case True
  with op_new_post_none[OF I, of dfn dsn sfn ssn sv 0] show ?thesis
    unfolding op_new_unfold by simp
next
  case bad: False
  let ?q = "next_addr s"
  let ?s0 = "s\<lparr>next_addr := ?q + 1, op_heap := (op_heap s)(?q \<mapsto> op_zero)\<rparr>"
  show ?thesis
  proof (cases "calloc_ok E ?q")
    case False
    with bad op_new_post_none[OF I, of dfn dsn sfn ssn sv 1] show ?thesis
      unfolding op_new_unfold if_not_P[OF bad] if_not_P[OF False] by blast
  next
    case True
    have "\<exists>r s'. op_build E dfn dsn sfn ssn sv ?q ?s0 = Some (r, s') \<and> op_new_post s dfn dsn sfn ssn sv r s'"
      by (rule op_build_spec[OF E building_start[OF I E True]])
        (use op_inv_fresh[OF I] bad in \<open>auto simp: fields_kept_def\<close>)
    then show ?thesis unfolding op_new_unfold if_not_P[OF bad] if_P[OF True] .
  qed
qed

subsection \<open>What this gives\<close>

definition op_state1 :: op_state where
  "op_state1 = \<lparr>next_addr = 2, field_heap = [1 \<mapsto> \<lparr>fl_name = Some ''ttl'', fl_set = field_set_of 22 1 0, fl_refcnt = 0\<rparr>],
     field_JS = [(''ttl'', Some 1)], memref_heap = Map.empty, state_JS = [], op_heap = Map.empty\<rparr>"

lemma op_inv1: "op_inv op_state1"
proof -
  have "field_inv op_state1"
    by (auto simp: op_state1_def field_inv_def registered_def js_get_def judy_ok_def field_set_of_def split: if_splits)
  moreover have "memref_inv op_state1"
    by (simp add: op_state1_def memref_inv_def registered_def js_get_def)
  ultimately show ?thesis
    by (simp add: op_inv_def held_def) (simp add: op_state1_def field_counts_def memref_counts_def)
qed

text \<open>The strings that \<open>op_new\<close> may copy, and that there is memory for them.\<close>

definition op_strings_copied :: "env \<Rightarrow> string option \<Rightarrow> string option \<Rightarrow> string option \<Rightarrow> bool" where
  "op_strings_copied E dsn ssn sv \<longleftrightarrow>
     (\<forall>nm. dsn = Some nm \<or> ssn = Some nm \<longrightarrow> copied E nm MAXLINELEN) \<and> (\<forall>v. sv = Some v \<longrightarrow> copied E v MAXVALUELEN)"

lemma op_new_granting:
  assumes "op_strings_copied E dsn ssn sv"
  shows "op_new (granting E) dfn dsn sfn ssn sv s = op_new E dfn dsn sfn ssn sv s"
proof -
  have take: "op_take_state (granting E) put fp dsn = op_take_state E put fp dsn"
    "op_take_state (granting E) put fp ssn = op_take_state E put fp ssn"
    "op_take_value (granting E) put fp sv = op_take_value E put fp sv" for put fp
    using assms by (auto simp: op_strings_copied_def op_take_state_def op_take_value_def memref_granting fun_eq_iff
        split: option.split)
  have build: "op_build (granting E) dfn dsn sfn ssn sv p t = op_build E dfn dsn sfn ssn sv p t" for p t
    unfolding op_build_def take by (rule refl)
  show ?thesis unfolding op_new_unfold build granting_sel(1) by (rule refl)
qed

text \<open>
  C15: making an operation. For any five arguments, when \<open>nstralloc\<close> has memory for the strings
  among them that are copied, \<open>op_new\<close> returns without undefined
  behaviour, whatever other memory is refused, and keeps every reference count equal to the
  number of references. If it refuses,
  no operation was added and every field, with its count, is as before. If it succeeds, there
  is one new operation, whose fields are the ones of the given names, whose memrefs are the
  state or the value asked for, and whose compiled form has sides as long as their memory; the
  memrefs that were there have changed at most in their counts. (A copy that \<open>nstralloc\<close>
  refuses is not survived: \<open>memref_state_get_null\<close>, \<open>memref_value_new_null\<close> in Memref.)
\<close>

theorem op_new_correct:
  assumes "nstralloc_spec E" and "hx2b_ok E" and "calloc_bounded E" and "op_strings_copied E dsn ssn sv" and "op_inv s"
  shows "\<exists>r s'. op_new E dfn dsn sfn ssn sv s = Some (r, s') \<and> op_new_post s dfn dsn sfn ssn sv r s'"
proof -
  have "env_ok (granting E)"
    using assms(1-3) by (simp add: env_ok_def nstralloc_ok_granting hx2b_ok_def calloc_bounded_def)
  from op_new_spec[OF this assms(5), of dfn dsn sfn ssn sv] show ?thesis unfolding op_new_granting[OF assms(4)] .
qed

theorem op_new_correct_witness:
  "\<exists>r s'. op_new env0 (Some ''ttl'') None None None (Some ''64'') op_state1 = Some (r, s') \<and> op_inv s'"
proof -
  have "op_strings_copied env0 None None (Some ''64'')" by (simp add: op_strings_copied_def)
  from op_new_correct[OF nstralloc_env0(1) hx2b_ok_env0 calloc_bounded_env0 this op_inv1, of "Some ''ttl''" None]
  show ?thesis by (auto simp: op_new_post_def)
qed

text \<open>Two states under the invariant with the same operations agree on what they refer to.\<close>

lemma op_inv_fields_same:
  assumes "op_inv s" "op_inv s'" and "op_heap s' = op_heap s" and "fields_kept s s'"
  shows "field_heap s' = field_heap s"
proof
  fix p
  show "field_heap s' p = field_heap s p"
  proof (cases "field_heap s p")
    case None
    have "map_option (\<lambda>fl. (fl_name fl, fl_set fl)) (field_heap s' p) = None"
      using None assms(4) by (simp add: fields_kept_def)
    with None show ?thesis by simp
  next
    case (Some fl)
    with assms(4) obtain fl' where fl': "field_heap s' p = Some fl'" "fl_set fl' = fl_set fl" "fl_name fl' = fl_name fl"
      by (rule fields_kept_get)
    have "unat (fl_refcnt fl') = unat (fl_refcnt fl)"
      using held_parts(5)[OF assms(1)[unfolded op_inv_def]] held_parts(5)[OF assms(2)[unfolded op_inv_def]]
        assms(3) Some fl' by (simp add: field_counts_def)
    then have "fl_refcnt fl' = fl_refcnt fl" by (simp add: word_unat_eq_iff)
    with fl' have "fl' = fl" by (simp add: field.equality)
    with fl' Some show ?thesis by simp
  qed
qed

lemma op_inv_memref_dom:
  assumes "op_inv s"
  shows "memref_heap s p \<noteq> None \<longleftrightarrow> 0 < refs_to memref_uses (op_heap s) p"
proof -
  have H: "held (op_heap s) s (\<lambda>_. 0) (\<lambda>_. 0)" using assms by (simp add: op_inv_def)
  show ?thesis
  proof (cases "memref_heap s p")
    case None
    with held_no_refs[OF H None] show ?thesis by simp
  next
    case (Some m)
    have "0 < memref_count m"
      using memref_inv_live[OF held_parts(2)[OF H] Some] by (auto simp: memref_ok_def memref_count_def unat_gt_0)
    with held_memref_count[OF H Some] Some show ?thesis by simp
  qed
qed

lemma op_inv_memrefs_same:
  assumes I: "op_inv s" "op_inv s'" and ops: "op_heap s' = op_heap s"
    and kept: "memrefs_kept s t" and left: "memrefs_left t s'"
  shows "memref_heap s' = memref_heap s"
proof
  fix p
  have H: "held (op_heap s) s (\<lambda>_. 0) (\<lambda>_. 0)" "held (op_heap s) s' (\<lambda>_. 0) (\<lambda>_. 0)"
    using I ops by (simp_all add: op_inv_def)
  show "memref_heap s' p = memref_heap s p"
  proof (cases "memref_heap s p")
    case None
    with op_inv_memref_dom[OF I(1), of p] op_inv_memref_dom[OF I(2), of p] ops show ?thesis by simp
  next
    case (Some m)
    then obtain m' where m': "memref_heap s' p = Some m'"
      using op_inv_memref_dom[OF I(1), of p] op_inv_memref_dom[OF I(2), of p] ops by auto
    obtain r1 where t: "memref_heap t p = Some (m\<lparr>mr_refcnt := r1\<rparr>)" "memref_is_value m \<longrightarrow> r1 = mr_refcnt m"
      using kept Some unfolding memrefs_kept_def by blast
    from left[unfolded memrefs_left_def, rule_format, OF m'] obtain n r where
      n: "memref_heap t p = Some n" "m' = n\<lparr>mr_refcnt := r\<rparr>" "memref_is_value n \<longrightarrow> r = mr_refcnt n" by blast
    with t have r: "m' = m\<lparr>mr_refcnt := r\<rparr>" "memref_is_value m \<longrightarrow> r = mr_refcnt m" by simp_all
    have "memref_count m' = memref_count m"
      using held_memref_count[OF H(1) Some] held_memref_count[OF H(2) m'] by simp
    then have "r = mr_refcnt m" using r by (simp add: memref_count_def word_unat_eq_iff split: if_splits)
    with r(1) m' Some show ?thesis by simp
  qed
qed

lemma memref_table_leads:
  assumes "memref_inv s" "memref_inv s'" and "memref_heap s' = memref_heap s" and "js_get (state_JS s) n = Some p"
  shows "js_get (state_JS s') n = Some p"
proof -
  obtain m where "memref_heap s p = Some m" "\<not> memref_is_value m" "mr_name m = Some n"
    using memref_inv_get[OF assms(1,4)] by blast
  with memref_inv_live[OF assms(2), of p m] assms(3) show ?thesis by (simp add: memref_ok_def)
qed

lemma memref_table_same:
  assumes "memref_inv s" "memref_inv s'" and "memref_heap s' = memref_heap s"
  shows "js_get (state_JS s') = js_get (state_JS s)"
proof
  fix n
  show "js_get (state_JS s') n = js_get (state_JS s) n"
    using memref_table_leads[OF assms, of n] memref_table_leads[OF assms(2,1) assms(3)[symmetric], of n]
    by (cases "js_get (state_JS s) n"; cases "js_get (state_JS s') n") auto
qed

text \<open>
  C24: making an operation and freeing it leaves nothing behind: the fields with their
  reference counts, the operations, the memrefs with their bytes, names and reference counts,
  and both tables of names are as before.
\<close>

theorem op_new_free_balanced:
  assumes "env_ok E" and "op_inv s" and "op_new E dfn dsn sfn ssn sv s = Some (Some p, s1)"
  shows "\<exists>s2. op_free (Some p) s1 = Some s2 \<and> op_inv s2 \<and> op_heap s2 = op_heap s \<and>
    field_heap s2 = field_heap s \<and> field_JS s2 = field_JS s \<and>
    memref_heap s2 = memref_heap s \<and> js_get (state_JS s2) = js_get (state_JS s)"
proof -
  have post: "op_new_post s dfn dsn sfn ssn sv (Some p) s1"
    using op_new_spec[OF assms(1,2), of dfn dsn sfn ssn sv] assms(3) by auto
  then obtain op where op: "op_heap s1 = (op_heap s)(p \<mapsto> op)" "op_heap s p = None" "op_inv s1" "fields_kept s s1"
      "memrefs_kept s s1"
    by (auto simp: op_new_post_def)
  then obtain s2 where s2: "op_free (Some p) s1 = Some s2" "op_inv s2" "op_heap s2 = (op_heap s1)(p := None)"
    "fields_kept s1 s2"
    using op_free_inv[of s1 p op] by (metis fun_upd_same)
  have heap: "op_heap s2 = op_heap s" using s2(3) op(1,2) by auto
  have kept: "fields_kept s s2" using fields_kept_trans[OF op(4) s2(4)] .
  have fields: "field_heap s2 = field_heap s" using op_inv_fields_same[OF assms(2) s2(2) heap kept] .
  have memrefs: "memref_heap s2 = memref_heap s"
    using op_inv_memrefs_same[OF assms(2) s2(2) heap op(5) op_free_left[OF s2(1)]] .
  have "memref_inv s" "memref_inv s2"
    using assms(2) s2(2) held_parts(2) unfolding op_inv_def by blast+
  from memref_table_same[OF this memrefs] s2 heap fields memrefs kept show ?thesis
    by (auto simp: fields_kept_def)
qed

text \<open>An example of a run: an operation that writes 64 into the field.\<close>

lemma op_new_example:
  obtains s' where "op_new env0 (Some ''ttl'') None None (Some ''s'') None op_state1 = Some (Some 2, s')"
proof -
  have "map_option fst (op_new env0 (Some ''ttl'') None None (Some ''s'') None op_state1) = Some (Some 2)"
    by (simp add: op_new_unfold op_build_def op_take_field_def op_take_state_def op_take_value_def field_get_def
        op_put_def memref_state_get_def memref_alloc_common_def calloc_def nstralloc_ref_def MAXLINELEN_def
        memref_take_def op_compile_def op_state1_def op_zero_def js_get_def js_insert_def jxx_insert_def Let_def)
  then show ?thesis using that by auto
qed

theorem op_new_free_balanced_witness:
  "\<exists>s1 s2. op_new env0 (Some ''ttl'') None None (Some ''s'') None op_state1 = Some (Some 2, s1) \<and>
     op_free (Some 2) s1 = Some s2 \<and> field_heap s2 = field_heap op_state1"
proof -
  obtain s1 where "op_new env0 (Some ''ttl'') None None (Some ''s'') None op_state1 = Some (Some 2, s1)"
    by (rule op_new_example)
  with op_new_free_balanced[OF env_ok_env0 op_inv1 this] show ?thesis by blast
qed

text \<open>
  C25: a field in use cannot be freed. While an operation refers to a field, \<open>field_free\<close>
  leaves the field and its name alone; a field that no operation refers to is freed, and its
  name can be taken again.
\<close>

theorem field_free_in_use:
  assumes "op_inv s" and "field_heap s p = Some fl" and "fl_name fl = Some nm"
  shows "\<exists>s'. field_free (Some p) s = Some s' \<and>
    (if \<exists>q op. op_heap s q = Some op \<and> (op_dst_field op = Some p \<or> op_src_field op = Some p)
     then s' = s
     else field_heap s' = (field_heap s)(p := None) \<and> js_get (field_JS s') nm = None)"
proof -
  have H: "held (op_heap s) s (\<lambda>_. 0) (\<lambda>_. 0)" using assms(1) by (simp add: op_inv_def)
  have c: "unat (fl_refcnt fl) = refs_to field_uses (op_heap s) p"
    using held_parts(5)[OF H] assms(2) by (simp add: field_counts_def)
  let ?used = "\<exists>q op. op_heap s q = Some op \<and> (op_dst_field op = Some p \<or> op_src_field op = Some p)"
  have "0 < refs_to field_uses (op_heap s) p \<longleftrightarrow> ?used"
  proof
    assume ?used
    then obtain q op where "op_heap s q = Some op" "0 < field_uses op p" by (auto simp: field_uses_def)
    then show "0 < refs_to field_uses (op_heap s) p" using refs_to_pos[OF held_parts(3)[OF H]] by blast
  next
    assume "0 < refs_to field_uses (op_heap s) p"
    then obtain q op where "op_heap s q = Some op" "0 < field_uses op p" by (rule refs_to_posD)
    then show ?used by (auto simp: field_uses_def)
  qed
  moreover have "fl_refcnt fl \<noteq> 0 \<longleftrightarrow> 0 < refs_to field_uses (op_heap s) p"
    using c by (metis unat_gt_0 unat_eq_zero)
  ultimately have iff: "?used \<longleftrightarrow> fl_refcnt fl \<noteq> 0" by simp
  have "judy_ok (field_JS s)" using held_parts(1)[OF H] by (simp add: field_inv_def registered_def)
  then show ?thesis
    unfolding iff using assms(3) by (simp add: field_free_eq[OF held_parts(1)[OF H] assms(2)] js.del_get)
qed

theorem field_free_in_use_witness:
  "\<exists>s'. field_free (Some 1) op_state1 = Some s' \<and> field_heap s' 1 = None"
proof -
  have "field_heap op_state1 1 = Some \<lparr>fl_name = Some ''ttl'', fl_set = field_set_of 22 1 0, fl_refcnt = 0\<rparr>"
    and none: "op_heap op_state1 = Map.empty"
    by (simp_all add: op_state1_def)
  from field_free_in_use[OF op_inv1 this(1), of "''ttl''"] show ?thesis
    unfolding none by (simp only: empty_iff simp_thms option.distinct field.simps) auto
qed

end
