(* ===== verification/Rule.thy ===== *)
theory Rule
  imports Lifecycle
begin

text \<open>
  include/rule.h and src/rule.c: a rule is two queues of operations, those that a packet must
  match and those that are then written to it. The state adds the heap of rules and the table
  of their names. The invariant \<open>rule_inv\<close> says that every rule is found under its name and
  that no operation belongs to two places; \<open>rule_tight\<close>, that no operation is lost.
\<close>

subsection \<open>Data\<close>

record rule =
  rl_name :: "string option"
  rl_match :: "addr judyL"
  rl_write :: "addr judyL"
  rl_refcnt :: u32

record rule_state = op_state +
  rule_heap :: "addr \<rightharpoonup> rule"
  rule_JS :: "addr judySL"

subsection \<open>Life cycle\<close>

definition rule_release_refs ::
  "addr judyL \<Rightarrow> addr judyL \<Rightarrow> 'a op_state_scheme \<Rightarrow> 'a op_state_scheme option" where
  "rule_release_refs match_JQ write_JQ s =
     do { s \<leftarrow> jl_loop op_free match_JQ s; jl_loop op_free write_JQ s }"

definition rule_free :: "ptr \<Rightarrow> 'a rule_state_scheme \<Rightarrow> 'a rule_state_scheme option" where
  "rule_free arg s =
     (case arg of
        None \<Rightarrow> Some s
      | Some p \<Rightarrow>
          do { rule \<leftarrow> rule_heap s p;
               if rl_refcnt rule \<noteq> 0 then Some s
               else do { nm \<leftarrow> rl_name rule;
                         let s = (if js_get (rule_JS s) nm = Some p
                                  then s\<lparr>rule_JS := js_delete (rule_JS s) nm\<rparr> else s);
                         s \<leftarrow> rule_release_refs (rl_match rule) (rl_write rule) s;
                         Some (s\<lparr>rule_heap := (rule_heap s)(p := None)\<rparr>) } })"

definition rule_free_all :: "'a rule_state_scheme \<Rightarrow> 'a rule_state_scheme option" where
  "rule_free_all s = js_loop rule_JS rule_free s"

definition rule_new_die :: "ptr \<Rightarrow> 'a rule_state_scheme \<Rightarrow> (ptr \<times> 'a rule_state_scheme) option" where
  "rule_new_die ret s = do { s \<leftarrow> rule_free ret s; Some (None, s) }"

definition rule_new ::
  "env \<Rightarrow> string option \<Rightarrow> addr judyL \<Rightarrow> addr judyL \<Rightarrow> 'a rule_state_scheme \<Rightarrow>
   (ptr \<times> 'a rule_state_scheme) option"
where
  "rule_new E name match_JQ write_JQ s =
     (case calloc E s of
        (None, s) \<Rightarrow> do { s \<leftarrow> rule_release_refs match_JQ write_JQ s; rule_new_die None s }
      | (Some p, s) \<Rightarrow>
          let rule = \<lparr>rl_name = None, rl_match = match_JQ, rl_write = write_JQ, rl_refcnt = 0\<rparr>;
              s = s\<lparr>rule_heap := (rule_heap s)(p \<mapsto> rule)\<rparr>
          in case name of
               None \<Rightarrow> rule_new_die (Some p) s
             | Some nm \<Rightarrow>
                 (let (copy, err) = nstralloc E nm MAXLINELEN;
                      s = s\<lparr>rule_heap := (rule_heap s)(p \<mapsto> rule\<lparr>rl_name := copy\<rparr>)\<rparr>
                  in case copy of
                       None \<Rightarrow> rule_new_die (Some p) s
                     | Some nm' \<Rightarrow>
                         if err = E2BIG then rule_new_die (Some p) s
                         else let (rc, js) = js_insert (rule_JS s) nm' (Some p) False;
                                  s = s\<lparr>rule_JS := js\<rparr>
                              in if rc \<noteq> 0 then rule_new_die (Some p) s else Some (Some p, s)))"

definition rule_release :: "ptr \<Rightarrow> 'a rule_state_scheme \<Rightarrow> 'a rule_state_scheme option" where
  "rule_release rp s =
     (case rp of
        None \<Rightarrow> Some s
      | Some p \<Rightarrow>
          do { rule \<leftarrow> rule_heap s p;
               Some (s\<lparr>rule_heap := (rule_heap s)(p \<mapsto> rule\<lparr>rl_refcnt := refcnt_release (rl_refcnt rule)\<rparr>)\<rparr>) })"

definition rule_get :: "string \<Rightarrow> 'a rule_state_scheme \<Rightarrow> (ptr \<times> 'a rule_state_scheme) option" where
  "rule_get nm s =
     (case js_get (rule_JS s) nm of
        None \<Rightarrow> Some (None, s)
      | Some p \<Rightarrow>
          do { rule \<leftarrow> rule_heap s p;
               Some (Some p, s\<lparr>rule_heap := (rule_heap s)(p \<mapsto> rule\<lparr>rl_refcnt := refcnt_take (rl_refcnt rule)\<rparr>)\<rparr>) })"

subsection \<open>Printing\<close>

definition rule_emit :: "rule \<Rightarrow> 'a op_state_scheme \<Rightarrow> yout \<Rightarrow> yout option" where
  "rule_emit rule s out =
     do { items \<leftarrow> out;
          matches \<leftarrow> jl_loop (\<lambda>val acc. do { p \<leftarrow> val; op_emit p s acc }) (rl_match rule) [];
          writes \<leftarrow> jl_loop (\<lambda>val acc. do { p \<leftarrow> val; op_emit p s acc }) (rl_write rule) [];
          nm \<leftarrow> rl_name rule;
          let reply = y_pair_insert [] ''rule'' nm;
          let reply = y_pair_insert_obj reply ''match'' (YSeq matches);
          let reply = y_pair_insert_obj reply ''write'' (YSeq writes);
          Some (Some (items @ [YMap reply])) }"

definition rule_emit_all :: "'a rule_state_scheme \<Rightarrow> yout \<Rightarrow> yout option" where
  "rule_emit_all s out =
     js_loop (\<lambda>_. rule_JS s) (\<lambda>v out. do { p \<leftarrow> v; rule \<leftarrow> rule_heap s p; rule_emit rule s out }) out"

subsection \<open>Parsing\<close>

text \<open>One item of a sequence of operations, and one pair of the rule's mapping.\<close>

definition rule_parse_op ::
  "env \<Rightarrow> ynode \<Rightarrow> nat \<Rightarrow> addr judyL \<times> 'a op_state_scheme \<Rightarrow>
   (bool \<times> nat \<times> addr judyL \<times> 'a op_state_scheme) option"
where
  "rule_parse_op E val e qs =
     (let (q, s) = qs in
      case val of
        YMap mapping \<Rightarrow>
          do { (op, s) \<leftarrow> op_parse_new E mapping s;
               let (rc, q) = jl_enqueue q op;
               Some (False, if rc \<noteq> 0 then e + 1 else e, (q, s)) }
      | _ \<Rightarrow> Some (False, e + 1, (q, s)))"

record rule_locals =
  lr_name :: "string option"
  lr_match :: "addr judyL"
  lr_write :: "addr judyL"

definition rule_parse_pair ::
  "env \<Rightarrow> parse_mode \<Rightarrow> string \<Rightarrow> ynode \<Rightarrow> nat \<Rightarrow> rule_locals \<times> 'a rule_state_scheme \<Rightarrow>
   (bool \<times> nat \<times> rule_locals \<times> 'a rule_state_scheme) option"
where
  "rule_parse_pair E mode keyname val e ls =
     (let (l, s) = ls in
      case val of
        YScalar txt \<Rightarrow>
          if keyname = ''rule'' \<or> keyname = ''r'' then Some (False, e, (l\<lparr>lr_name := Some txt\<rparr>, s))
          else Some (False, e + 1, (l, s))
      | YSeq items \<Rightarrow>
          if mode \<noteq> PARSE_ADD then Some (False, e + 1, (l, s))
          else if keyname = ''match'' \<or> keyname = ''m'' then
            do { (died, e, q, s) \<leftarrow> y_for_seq (rule_parse_op E) items e (lr_match l, s);
                 Some (died, e, (l\<lparr>lr_match := q\<rparr>, s)) }
          else if keyname = ''write'' \<or> keyname = ''w'' then
            do { (died, e, q, s) \<leftarrow> y_for_seq (rule_parse_op E) items e (lr_write l, s);
                 Some (died, e, (l\<lparr>lr_write := q\<rparr>, s)) }
          else Some (False, e + 1, (l, s))
      | _ \<Rightarrow> Some (True, e + 1, (l, s)))"

definition rule_parse ::
  "env \<Rightarrow> parse_mode \<Rightarrow> (ynode \<times> ynode) list \<Rightarrow> yout \<Rightarrow> 'a rule_state_scheme \<Rightarrow>
   (nat \<times> yout \<times> 'a rule_state_scheme) option"
where
  "rule_parse E mode mapping out s =
     do { (died, e, l, s) \<leftarrow> y_for_map (rule_parse_pair E mode) mapping 0
            (\<lparr>lr_name = Some '''', lr_match = [], lr_write = []\<rparr>, s);
          if died then Some (e, out, s)
          else case mode of
            PARSE_ADD \<Rightarrow>
              do { (rp, s) \<leftarrow> rule_new E (lr_name l) (lr_match l) (lr_write l) s;
                   case rp of
                     None \<Rightarrow> Some (e + 1, out, s)
                   | Some p \<Rightarrow>
                       do { rule \<leftarrow> rule_heap s p; out \<leftarrow> rule_emit rule s out; Some (e, out, s) } }
          | PARSE_DEL \<Rightarrow>
              do { nm \<leftarrow> lr_name l;
                   case js_get (rule_JS s) nm of
                     None \<Rightarrow> Some (e + 1, out, s)
                   | Some p \<Rightarrow>
                       do { rule \<leftarrow> rule_heap s p;
                            if rl_refcnt rule \<noteq> 0 then Some (e + 1, out, s)
                            else do { out \<leftarrow> rule_emit rule s out;
                                      s \<leftarrow> rule_free (Some p) s;
                                      Some (e, out, s) } } }
          | PARSE_PRN \<Rightarrow>
              do { nm \<leftarrow> lr_name l;
                   if nm = '''' then do { out \<leftarrow> rule_emit_all s out; Some (e, out, s) }
                   else case js_get (rule_JS s) nm of
                          None \<Rightarrow> Some (e, out, s)
                        | Some p \<Rightarrow>
                            do { rule \<leftarrow> rule_heap s p; out \<leftarrow> rule_emit rule s out; Some (e, out, s) } }
          | PARSE_INVALID \<Rightarrow> Some (e + 1, out, s) }"

subsection \<open>The invariant\<close>

text \<open>How often a rule's queues hold an operation.\<close>

definition rule_ops :: "rule \<Rightarrow> addr list" where
  "rule_ops rule = jl_vals (rl_match rule) @ jl_vals (rl_write rule)"

definition rule_uses :: "rule \<Rightarrow> addr \<Rightarrow> nat" where
  "rule_uses rule q = count_list (rule_ops rule) q"

definition rule_ok :: "addr judySL \<Rightarrow> addr \<Rightarrow> addr \<Rightarrow> rule \<Rightarrow> bool" where
  "rule_ok js next p rule \<longleftrightarrow> p < next \<and> p < MAXALLOC \<and> jl_dense (rl_match rule) \<and> jl_dense (rl_write rule) \<and>
     (\<exists>n. rl_name rule = Some n \<and> js_get js n = Some p)"

text \<open>
  Every operation is in exactly one place: in a rule, in one of the queues \<open>qs\<close> that a function
  is still filling, or among the lost ones \<open>L\<close> that nothing leads to any more. What is held is
  live.
\<close>

definition rules_hold :: "addr set \<Rightarrow> (addr \<rightharpoonup> op) \<Rightarrow> (addr \<rightharpoonup> rule) \<Rightarrow> addr list \<Rightarrow> bool" where
  "rules_hold L ops rules qs \<longleftrightarrow>
     (\<forall>q. refs_to rule_uses rules q + count_list qs q + of_bool (q \<in> L) = of_bool (ops q \<noteq> None))"

definition rule_inv_with :: "addr set \<Rightarrow> addr list \<Rightarrow> 'a rule_state_scheme \<Rightarrow> bool" where
  "rule_inv_with L qs s \<longleftrightarrow> op_inv s \<and> finite (dom (rule_heap s)) \<and>
     registered rl_name (rule_JS s) (rule_heap s) \<and>
     (\<forall>p rule. rule_heap s p = Some rule \<longrightarrow> rule_ok (rule_JS s) (next_addr s) p rule) \<and>
     rules_hold L (op_heap s) (rule_heap s) qs"

definition rule_inv :: "'a rule_state_scheme \<Rightarrow> bool" where
  "rule_inv s \<longleftrightarrow> (\<exists>L. rule_inv_with L [] s)"

text \<open>No operation is lost.\<close>

definition rule_tight :: "'a rule_state_scheme \<Rightarrow> bool" where
  "rule_tight s \<longleftrightarrow> rule_inv_with {} [] s"

lemma rule_invD:
  assumes "rule_inv_with L qs s"
  shows "op_inv s" and "finite (dom (rule_heap s))" and "registered rl_name (rule_JS s) (rule_heap s)"
    and "\<And>p rule. rule_heap s p = Some rule \<Longrightarrow> rule_ok (rule_JS s) (next_addr s) p rule"
    and "rules_hold L (op_heap s) (rule_heap s) qs" and "judy_ok (rule_JS s)"
  using assms unfolding rule_inv_with_def registered_def by blast+

lemma rule_inv_get:
  assumes "rule_inv_with L qs s" and "js_get (rule_JS s) n = Some p"
  obtains rule where "rule_heap s p = Some rule" "rl_name rule = Some n"
  using reg.named_get[OF rule_invD(3)[OF assms(1)] assms(2)] by auto

lemma rule_inv_fresh: "rule_inv_with L qs s \<Longrightarrow> next_addr s \<le> p \<Longrightarrow> rule_heap s p = None"
  using rule_invD(4)[of L qs s p] by (cases "rule_heap s p") (auto simp: rule_ok_def)

text \<open>What is held is distinct and live.\<close>

lemma count_list_distinct: "(\<And>q. count_list qs q \<le> 1) \<Longrightarrow> distinct qs"
proof (induction qs)
  case (Cons a qs)
  have "count_list qs q \<le> 1" for q using Cons.prems[of q] by (auto split: if_splits)
  moreover have "count_list qs a = 0" using Cons.prems[of a] by simp
  ultimately show ?case using Cons.IH by (simp add: count_list_0_iff)
qed simp

lemma rules_hold_distinct:
  assumes "rules_hold L ops rules qs"
  shows "distinct qs"
    and "\<And>q. q \<in> set qs \<Longrightarrow> ops q \<noteq> None \<and> refs_to rule_uses rules q = 0 \<and> q \<notin> L"
proof -
  have eq: "refs_to rule_uses rules q + count_list qs q + of_bool (q \<in> L) = of_bool (ops q \<noteq> None)" for q
    using assms by (simp add: rules_hold_def)
  have le: "of_bool (ops q \<noteq> None) \<le> (1::nat)" for q by simp
  have "count_list qs q \<le> 1" for q using eq[of q] le[of q] by linarith
  then show "distinct qs" by (rule count_list_distinct)
  show "ops q \<noteq> None \<and> refs_to rule_uses rules q = 0 \<and> q \<notin> L" if "q \<in> set qs" for q
  proof -
    have "0 < count_list qs q" using that by (metis count_list_0_iff gr0I)
    with eq[of q] le[of q] show ?thesis by (auto simp: of_bool_def split: if_splits)
  qed
qed

text \<open>Freeing held operations, and taking a rule apart.\<close>

lemma rules_hold_drop:
  assumes "rules_hold L ops rules (vs @ qs)"
  shows "rules_hold L (\<lambda>q. if q \<in> set vs then None else ops q) rules qs"
  unfolding rules_hold_def
proof
  fix q
  have eq: "refs_to rule_uses rules q + (count_list vs q + count_list qs q) + of_bool (q \<in> L) = of_bool (ops q \<noteq> None)"
    using assms by (simp add: rules_hold_def)
  show "refs_to rule_uses rules q + count_list qs q + of_bool (q \<in> L) =
      of_bool ((if q \<in> set vs then None else ops q) \<noteq> None)"
  proof (cases "q \<in> set vs")
    case True
    then have "0 < count_list vs q" by (metis count_list_0_iff gr0I)
    moreover have "of_bool (ops q \<noteq> None) \<le> (1::nat)" by simp
    ultimately have "refs_to rule_uses rules q + count_list qs q + of_bool (q \<in> L) = 0" using eq by linarith
    with True show ?thesis by simp
  next
    case False
    then have "count_list vs q = 0" by (simp add: count_list_0_iff)
    with eq False show ?thesis by simp
  qed
qed

lemma rules_hold_unlink:
  assumes "rules_hold L ops rules qs" and "finite (dom rules)" and "rules p = Some rule"
  shows "rules_hold L ops (rules(p := None)) (rule_ops rule @ qs)"
  using assms(1) refs_to_remove[OF assms(2,3), of rule_uses]
  by (simp add: rules_hold_def rule_uses_def add.assoc)

lemma rules_hold_link:
  assumes "rules_hold L ops rules (rule_ops rule @ qs)" and "finite (dom rules)" and "rules p = None"
  shows "rules_hold L ops (rules(p \<mapsto> rule)) qs"
  using assms(1) refs_to_fresh[OF assms(2,3), of rule_uses]
  by (simp add: rules_hold_def rule_uses_def add.assoc)

subsection \<open>Freeing operations and rules\<close>

lemma more_rule:
  assumes "op_state.more s' = op_state.more (s :: 'a rule_state_scheme)"
  shows "rule_heap s' = rule_heap s" and "rule_JS s' = rule_JS s" and "rule_state.more s' = rule_state.more s"
  using assms by (cases s; cases s'; simp)+

text \<open>Freeing a list of operations frees exactly them.\<close>

lemma free_ops:
  fixes s :: "'a op_state_scheme"
  assumes "op_inv s" and "distinct qs" and "\<And>q. q \<in> set qs \<Longrightarrow> op_heap s q \<noteq> None"
  obtains s' where "loop_vals (\<lambda>q. op_free (Some q)) qs s = Some s'" "op_inv s'"
    "op_heap s' = (\<lambda>q. if q \<in> set qs then None else op_heap s q)"
    "op_state.more s' = op_state.more s" "next_addr s \<le> next_addr s'" "fields_kept s s'"
  using assms
proof (induction qs arbitrary: s thesis)
  case Nil
  then show ?case by simp
next
  case (Cons q qs)
  obtain op where op: "op_heap s q = Some op" using Cons.prems(4)[of q] by auto
  obtain s1 where s1: "op_free (Some q) s = Some s1" "op_inv s1" "op_heap s1 = (op_heap s)(q := None)"
    "op_state.more s1 = op_state.more s" "next_addr s \<le> next_addr s1" "fields_kept s s1"
    using op_free_inv[OF Cons.prems(2) op] .
  have "op_heap s1 r \<noteq> None" if "r \<in> set qs" for r
    using Cons.prems(3,4) that s1(3) by auto
  then obtain s2 where s2: "loop_vals (\<lambda>q. op_free (Some q)) qs s1 = Some s2" "op_inv s2"
    "op_heap s2 = (\<lambda>r. if r \<in> set qs then None else op_heap s1 r)"
    "op_state.more s2 = op_state.more s1" "next_addr s1 \<le> next_addr s2" "fields_kept s1 s2"
    using Cons.IH[of s1] s1(2) Cons.prems(3) by auto
  show ?case
  proof (rule Cons.prems(1))
    show "loop_vals (\<lambda>q. op_free (Some q)) (q # qs) s = Some s2" using s1(1) s2(1) by simp
    show "op_heap s2 = (\<lambda>r. if r \<in> set (q # qs) then None else op_heap s r)"
      using s2(3) s1(3) by (auto simp: fun_eq_iff)
    show "fields_kept s s2" using s1(6) s2(6) by (rule fields_kept_trans)
  qed (use s1 s2 in auto)
qed

lemma jl_dense_no_None: "jl_dense a \<Longrightarrow> None \<notin> snd ` set a"
  by (simp add: jl_dense_def)

lemma rule_release_refs_eq:
  fixes s :: "'a op_state_scheme"
  assumes "jl_dense m" and "jl_dense w"
  shows "rule_release_refs m w s = loop_vals (\<lambda>q. op_free (Some q)) (jl_vals m @ jl_vals w) s"
proof -
  have "jl_loop op_free w = (loop_vals (\<lambda>q. op_free (Some q)) (jl_vals w) :: 'a op_state_scheme \<Rightarrow> _)"
    using jl_loop_vals[OF jl_dense_no_None[OF assms(2)], of op_free] by (rule ext)
  then show ?thesis
    using jl_loop_vals[OF jl_dense_no_None[OF assms(1)], of op_free s]
    by (simp add: rule_release_refs_def loop_vals_append)
qed

text \<open>Releasing queues frees their operations.\<close>

lemma release_held:
  fixes s :: "'a op_state_scheme"
  assumes I: "op_inv s" and "jl_dense m" "jl_dense w"
    and hold: "rules_hold L (op_heap s) rules (jl_vals m @ jl_vals w @ qs)"
  obtains s' where "rule_release_refs m w s = Some s'" "op_inv s'"
    "rules_hold L (op_heap s') rules qs" "op_state.more s' = op_state.more s"
    "next_addr s \<le> next_addr s'" "fields_kept s s'"
proof -
  let ?vs = "jl_vals m @ jl_vals w"
  have hold': "rules_hold L (op_heap s) rules (?vs @ qs)" using hold by simp
  note live = rules_hold_distinct[OF hold']
  have "distinct ?vs" "\<And>q. q \<in> set ?vs \<Longrightarrow> op_heap s q \<noteq> None" using live by auto
  from free_ops[OF I this] obtain s' where
    s': "loop_vals (\<lambda>q. op_free (Some q)) ?vs s = Some s'" "op_inv s'"
    "op_heap s' = (\<lambda>q. if q \<in> set ?vs then None else op_heap s q)"
    "op_state.more s' = op_state.more s" "next_addr s \<le> next_addr s'" "fields_kept s s'" .
  with that[of s'] rules_hold_drop[OF hold'] rule_release_refs_eq[OF assms(2,3), of s] show ?thesis by simp
qed

text \<open>Putting the parts of the invariant together.\<close>

lemma rule_invI:
  assumes "op_inv s" and "finite (dom (rule_heap s))" and "registered rl_name (rule_JS s) (rule_heap s)"
    and "\<And>p rule. rule_heap s p = Some rule \<Longrightarrow> rule_ok (rule_JS s) (next_addr s) p rule"
    and "rules_hold L (op_heap s) (rule_heap s) qs"
  shows "rule_inv_with L qs s"
  using assms unfolding rule_inv_with_def by blast

text \<open>An operation of the lower components keeps the rules.\<close>

lemma rule_inv_ops:
  assumes I: "rule_inv_with L qs s" and s': "op_inv s'" "op_state.more s' = op_state.more s"
    "next_addr s \<le> next_addr s'" and hold: "rules_hold L' (op_heap s') (rule_heap s) qs'"
  shows "rule_inv_with L' qs' s'"
proof (rule rule_invI)
  note more = more_rule[OF s'(2)]
  show "op_inv s'" by fact
  show "finite (dom (rule_heap s'))" "registered rl_name (rule_JS s') (rule_heap s')"
    using rule_invD(2,3)[OF I] by (simp_all add: more)
  show "rule_ok (rule_JS s') (next_addr s') p rule" if "rule_heap s' p = Some rule" for p rule
    using rule_invD(4)[OF I, of p rule] that s'(3) by (auto simp: more rule_ok_def)
  show "rules_hold L' (op_heap s') (rule_heap s') qs'" using hold by (simp add: more)
qed

text \<open>
  Freeing a rule that nothing refers to frees its operations with it, and its name becomes
  available.
\<close>

lemma rule_free_inv:
  assumes I: "rule_inv_with L qs s" and p: "rule_heap s p = Some rule" "rl_refcnt rule = 0" "rl_name rule = Some nm"
  obtains s' where "rule_free (Some p) s = Some s'" "rule_inv_with L qs s'"
    "rule_heap s' = (rule_heap s)(p := None)" "rule_JS s' = js_delete (rule_JS s) nm"
    "rule_state.more s' = rule_state.more s" "next_addr s \<le> next_addr s'" "fields_kept s s'"
proof -
  have ok: "jl_dense (rl_match rule)" "jl_dense (rl_write rule)" "js_get (rule_JS s) nm = Some p"
    using rule_invD(4)[OF I p(1)] p(3) by (auto simp: rule_ok_def)
  let ?s1 = "s\<lparr>rule_JS := js_delete (rule_JS s) nm\<rparr>"
  have I1: "op_inv ?s1" by (rule op_inv_cong[OF rule_invD(1)[OF I]]) simp_all
  have "rules_hold L (op_heap ?s1) ((rule_heap s)(p := None)) (jl_vals (rl_match rule) @ jl_vals (rl_write rule) @ qs)"
    using rules_hold_unlink[OF rule_invD(5,2)[OF I] p(1)] by (simp add: rule_ops_def)
  from release_held[OF I1 ok(1,2) this] obtain s2 where
    s2: "rule_release_refs (rl_match rule) (rl_write rule) ?s1 = Some s2" "op_inv s2"
    "rules_hold L (op_heap s2) ((rule_heap s)(p := None)) qs" "op_state.more s2 = op_state.more ?s1"
    "next_addr ?s1 \<le> next_addr s2" "fields_kept ?s1 s2" .
  note more = more_rule[OF s2(4)]
  let ?s3 = "s2\<lparr>rule_heap := (rule_heap s2)(p := None)\<rparr>"
  have free: "rule_free (Some p) s = Some ?s3"
    using p ok(3) s2(1) more by (simp add: rule_free_def Let_def)
  have "rule_inv_with L qs ?s3"
  proof (rule rule_invI)
    show "op_inv ?s3" by (rule op_inv_cong[OF s2(2)]) simp_all
    show "finite (dom (rule_heap ?s3))" using rule_invD(2)[OF I] more by simp
    show "registered rl_name (rule_JS ?s3) (rule_heap ?s3)"
      using reg.named_unlink[OF rule_invD(3)[OF I] p(1,3)] ok(3) more by simp
    show "rules_hold L (op_heap ?s3) (rule_heap ?s3) qs" using s2(3) more by simp
    show "rule_ok (rule_JS ?s3) (next_addr ?s3) r rule'" if r: "rule_heap ?s3 r = Some rule'" for r rule'
    proof -
      have "r \<noteq> p" "rule_heap s r = Some rule'" using r more by (auto split: if_splits)
      moreover from this obtain n where n: "rl_name rule' = Some n" "js_get (rule_JS s) n = Some r"
        using rule_invD(4)[OF I] by (auto simp: rule_ok_def)
      moreover have "js_get (js_delete (rule_JS s) nm) n = Some r"
        using n ok(3) \<open>r \<noteq> p\<close> rule_invD(6)[OF I] by (auto simp: js.del_get)
      ultimately show ?thesis
        using rule_invD(4)[OF I, of r rule'] s2(5) more by (auto simp: rule_ok_def)
    qed
  qed
  with that[of ?s3] free more s2(5,6) show ?thesis by (simp add: fields_kept_def)
qed

subsection \<open>Creating rules\<close>

definition rule_of :: "string \<Rightarrow> addr judyL \<Rightarrow> addr judyL \<Rightarrow> rule" where
  "rule_of nm m w = \<lparr>rl_name = Some nm, rl_match = m, rl_write = w, rl_refcnt = 0\<rparr>"

text \<open>A failure of \<open>rule_new\<close>: the queues it was given are freed, and the rules are as before.\<close>

lemma rule_new_undo:
  fixes s :: "'a rule_state_scheme" and t :: string
  assumes I: "rule_inv_with L (jl_vals m @ jl_vals w @ qs) s" and d: "jl_dense m" "jl_dense w"
  defines "s1 \<equiv> s\<lparr>next_addr := next_addr s + 1, rule_heap := (rule_heap s)(next_addr s \<mapsto> rule_of t m w)\<rparr>"
  obtains s' where "rule_new_die (Some (next_addr s)) s1 = Some (None, s')" "rule_inv_with L qs s'"
    "rule_heap s' = rule_heap s" "rule_JS s' = rule_JS s" "rule_state.more s' = rule_state.more s"
    "next_addr s \<le> next_addr s'" "fields_kept s s'"
proof -
  let ?p = "next_addr s"
  have fresh: "rule_heap s ?p = None" using rule_inv_fresh[OF I] by simp
  then have nojs: "js_get (rule_JS s) t \<noteq> Some ?p" using reg.get_fresh[OF rule_invD(3)[OF I]] by metis
  have I1: "op_inv s1" by (rule op_inv_cong[OF rule_invD(1)[OF I]]) (simp_all add: s1_def)
  have "rules_hold L (op_heap s1) (rule_heap s) (jl_vals m @ jl_vals w @ qs)"
    using rule_invD(5)[OF I] by (simp add: s1_def)
  from release_held[OF I1 d this] obtain s2 where
    s2: "rule_release_refs m w s1 = Some s2" "op_inv s2" "rules_hold L (op_heap s2) (rule_heap s) qs"
    "op_state.more s2 = op_state.more s1" "next_addr s1 \<le> next_addr s2" "fields_kept s1 s2" .
  note more = more_rule[OF s2(4)]
  let ?s3 = "s2\<lparr>rule_heap := (rule_heap s2)(?p := None)\<rparr>"
  have heap: "(rule_heap s2)(?p := None) = rule_heap s" using more(1) fresh by (auto simp: s1_def)
  have die: "rule_new_die (Some ?p) s1 = Some (None, ?s3)"
    using nojs s2(1) by (simp add: rule_new_die_def rule_free_def s1_def rule_of_def)
  have "rule_inv_with L qs ?s3"
  proof (rule rule_invI)
    show "op_inv ?s3" by (rule op_inv_cong[OF s2(2)]) simp_all
    show "finite (dom (rule_heap ?s3))" "registered rl_name (rule_JS ?s3) (rule_heap ?s3)"
      using rule_invD(2,3)[OF I] heap more(2) by (simp_all add: s1_def)
    show "rules_hold L (op_heap ?s3) (rule_heap ?s3) qs" using s2(3) heap by simp
    show "rule_ok (rule_JS ?s3) (next_addr ?s3) r rule'" if "rule_heap ?s3 r = Some rule'" for r rule'
      using rule_invD(4)[OF I, of r rule'] that heap more(2) s2(5) by (auto simp: rule_ok_def s1_def)
  qed
  then show ?thesis
    using that[OF die] heap more s2(5,6) by (simp add: s1_def fields_kept_def)
qed

text \<open>Success: the rule is in the table and has its queues' operations.\<close>

lemma rule_new_link:
  fixes s :: "'a rule_state_scheme"
  assumes E: "env_ok E" and I: "rule_inv_with L (jl_vals m @ jl_vals w @ qs) s" and d: "jl_dense m" "jl_dense w"
    and mem: "calloc_ok E (next_addr s)"
    and new: "js_get (rule_JS s) nm = None" "js_insert (rule_JS s) nm (Some (next_addr s)) False = (0, js)"
      "js_get js = (js_get (rule_JS s))(nm \<mapsto> next_addr s)"
  shows "rule_inv_with L qs (s\<lparr>next_addr := next_addr s + 1,
    rule_heap := (rule_heap s)(next_addr s \<mapsto> rule_of nm m w), rule_JS := js\<rparr>)" (is "rule_inv_with L qs ?s'")
proof (rule rule_invI)
  let ?p = "next_addr s"
  have fresh: "rule_heap s ?p = None" using rule_inv_fresh[OF I] by simp
  have max: "?p < MAXALLOC" using env_okD(3)[OF E] mem by (simp add: calloc_bounded_def)
  show "op_inv ?s'" by (rule op_inv_cong[OF rule_invD(1)[OF I]]) simp_all
  show "finite (dom (rule_heap ?s'))" using rule_invD(2)[OF I] by simp
  show "registered rl_name (rule_JS ?s') (rule_heap ?s')"
    using reg.named_add[OF rule_invD(3)[OF I], of "rule_of nm m w" nm ?p False] fresh new
    by (simp add: rule_of_def)
  show "rules_hold L (op_heap ?s') (rule_heap ?s') qs"
    using rules_hold_link[of L "op_heap s" "rule_heap s" "rule_of nm m w" qs ?p] rule_invD(2,5)[OF I] fresh
    by (simp add: rule_ops_def rule_of_def)
  show "rule_ok (rule_JS ?s') (next_addr ?s') r rule'" if r: "rule_heap ?s' r = Some rule'" for r rule'
  proof (cases "r = ?p")
    case True
    with r d new(3) max show ?thesis by (auto simp: rule_ok_def rule_of_def)
  next
    case False
    with r have ok: "rule_ok (rule_JS s) ?p r rule'" using rule_invD(4)[OF I] by simp
    then obtain n where n: "rl_name rule' = Some n" "js_get (rule_JS s) n = Some r" by (auto simp: rule_ok_def)
    with new(1,3) have "js_get js n = Some r" by auto
    with ok n show ?thesis by (simp add: rule_ok_def)
  qed
qed

text \<open>No memory for the name: \<open>rule_free\<close> looks up a name that is NULL.\<close>

lemma rule_new_null:
  assumes "calloc_ok E (next_addr s)" and "\<not> copied E nm MAXLINELEN"
  shows "rule_new E (Some nm) m w s = None"
  using assms by (simp add: copied_def rule_new_def calloc_def rule_new_die_def rule_free_def split_beta Let_def)

text \<open>No memory for the rule: the queues are freed.\<close>

lemma rule_new_no_memory:
  fixes s :: "'a rule_state_scheme"
  assumes I: "rule_inv_with L (jl_vals m @ jl_vals w @ qs) s" and d: "jl_dense m" "jl_dense w"
    and no: "\<not> calloc_ok E (next_addr s)"
  obtains s' where "rule_new E (Some nm) m w s = Some (None, s')" "rule_inv_with L qs s'" "rule_heap s' = rule_heap s"
    "rule_JS s' = rule_JS s" "rule_state.more s' = rule_state.more s" "next_addr s \<le> next_addr s'" "fields_kept s s'"
proof -
  let ?s0 = "s\<lparr>next_addr := next_addr s + 1\<rparr>"
  have I0: "op_inv ?s0" by (rule op_inv_cong[OF rule_invD(1)[OF I]]) simp_all
  have "rules_hold L (op_heap ?s0) (rule_heap s) (jl_vals m @ jl_vals w @ qs)" using rule_invD(5)[OF I] by simp
  from release_held[OF I0 d this] obtain s2 where
    s2: "rule_release_refs m w ?s0 = Some s2" "op_inv s2" "rules_hold L (op_heap s2) (rule_heap s) qs"
    "op_state.more s2 = op_state.more ?s0" "next_addr ?s0 \<le> next_addr s2" "fields_kept ?s0 s2" .
  then have more: "op_state.more s2 = op_state.more s" "next_addr s \<le> next_addr s2" "fields_kept s s2"
    by (simp_all add: fields_kept_def)
  have "rule_new E (Some nm) m w s = Some (None, s2)"
    using no s2(1) by (simp add: rule_new_def calloc_def rule_new_die_def rule_free_def)
  then show ?thesis
    by (rule that) (use rule_inv_ops[OF I s2(2) more(1,2) s2(3)] more more_rule[OF more(1)] in simp_all)
qed

definition rule_new_ok :: "env \<Rightarrow> string \<Rightarrow> 'a rule_state_scheme \<Rightarrow> bool" where
  "rule_new_ok E nm s \<longleftrightarrow> calloc_ok E (next_addr s) \<and> snd (nstralloc E nm MAXLINELEN) \<noteq> E2BIG \<and>
     js_get (rule_JS s) nm = None"

lemma rule_new_spec:
  fixes s :: "'a rule_state_scheme"
  assumes E: "env_ok E" and I: "rule_inv_with L (jl_vals m @ jl_vals w @ qs) s" and d: "jl_dense m" "jl_dense w"
  obtains (made) s' where "rule_new_ok E nm s" "rule_new E (Some nm) m w s = Some (Some (next_addr s), s')"
      "rule_inv_with L qs s'" "rule_heap s' = (rule_heap s)(next_addr s \<mapsto> rule_of nm m w)"
      "js_get (rule_JS s') = (js_get (rule_JS s))(nm \<mapsto> next_addr s)" "op_heap s' = op_heap s"
      "rule_state.more s' = rule_state.more s" "next_addr s \<le> next_addr s'" "fields_kept s s'"
  | (refused) s' where "\<not> rule_new_ok E nm s" "rule_new E (Some nm) m w s = Some (None, s')"
      "rule_inv_with L qs s'" "rule_heap s' = rule_heap s" "rule_JS s' = rule_JS s"
      "rule_state.more s' = rule_state.more s" "next_addr s \<le> next_addr s'" "fields_kept s s'"
proof -
  let ?p = "next_addr s"
  let ?s1 = "\<lambda>t. s\<lparr>next_addr := ?p + 1, rule_heap := (rule_heap s)(?p \<mapsto> rule_of t m w)\<rparr>"
  show ?thesis
  proof (cases "calloc_ok E ?p")
    case False
    obtain s' where "rule_new E (Some nm) m w s = Some (None, s')" "rule_inv_with L qs s'" "rule_heap s' = rule_heap s"
      "rule_JS s' = rule_JS s" "rule_state.more s' = rule_state.more s" "next_addr s \<le> next_addr s'" "fields_kept s s'"
      by (rule rule_new_no_memory[OF I d False])
    then show ?thesis using refused False by (simp add: rule_new_ok_def)
  next
    case True
    note undo = rule_new_undo[OF I d]
    show ?thesis
    proof (rule nstralloc_cases[OF env_okD(1)[OF E], of nm MAXLINELEN])
      fix t
      assume t: "nstralloc E nm MAXLINELEN = (Some t, E2BIG)"
      obtain s' where "rule_new_die (Some ?p) (?s1 t) = Some (None, s')" "rule_inv_with L qs s'"
        "rule_heap s' = rule_heap s" "rule_JS s' = rule_JS s" "rule_state.more s' = rule_state.more s"
        "next_addr s \<le> next_addr s'" "fields_kept s s'"
        using undo[of t] by metis
      then show ?thesis
        using refused[of s'] True t by (simp add: rule_new_def calloc_def rule_of_def rule_new_ok_def)
    next
      fix e
      assume e: "nstralloc E nm MAXLINELEN = (Some nm, e)" "e \<noteq> E2BIG"
      show ?thesis
      proof (rule js.ins_cases[OF rule_invD(6)[OF I], of False nm ?p])
        assume dup: "js_get (rule_JS s) nm \<noteq> None" "js_insert (rule_JS s) nm (Some ?p) False = (1, rule_JS s)"
        obtain s' where "rule_new_die (Some ?p) (?s1 nm) = Some (None, s')" "rule_inv_with L qs s'"
          "rule_heap s' = rule_heap s" "rule_JS s' = rule_JS s" "rule_state.more s' = rule_state.more s"
          "next_addr s \<le> next_addr s'" "fields_kept s s'"
          using undo[of nm] by metis
        moreover have "?s1 nm\<lparr>rule_JS := rule_JS s\<rparr> = ?s1 nm" by simp
        ultimately show ?thesis
          using refused[of s'] True e dup by (simp add: rule_new_def calloc_def rule_of_def rule_new_ok_def)
      next
        fix js
        assume new: "False \<or> js_get (rule_JS s) nm = None" "js_insert (rule_JS s) nm (Some ?p) False = (0, js)"
          "judy_ok js" "js_get js = (js_get (rule_JS s))(nm \<mapsto> ?p)"
        then show ?thesis
          using made[of "?s1 nm\<lparr>rule_JS := js\<rparr>"] rule_new_link[OF E I d True _ new(2,4)] True e
          by (simp add: rule_new_def calloc_def rule_of_def rule_new_ok_def fields_kept_def)
      qed
    qed
  qed
qed

subsection \<open>Parsing rules\<close>

lemma op_parse_locals:
  assumes "ymap_ok ps"
  shows "\<exists>died e' l'. y_for_map op_parse_pair ps e l = Some (died, e', l')"
proof -
  have inner: "\<exists>died e' l'. body keyname v e l = Some (died, e', l') \<and> True"
    if "body = op_parse_dst \<or> body = op_parse_src" for body keyname v e l
  proof -
    have "\<exists>r. body keyname v e l = Some r"
      using that by (elim disjE) (simp_all add: op_parse_dst_def op_parse_src_def Let_def del: split_paired_Ex)
    then show ?thesis by (metis prod.collapse)
  qed
  have "\<exists>died e' l'. y_for_map op_parse_pair ps e l = Some (died, e', l') \<and> True"
  proof (rule y_for_map_total[OF assms])
    fix k v e and l :: op_locals
    assume v: "ynode_ok v"
    have "\<exists>died e' l'. y_for_map body qs e l = Some (died, e', l') \<and> True"
      if "ymap_ok qs" "body = op_parse_dst \<or> body = op_parse_src" for qs body
      by (rule y_for_map_total[OF that(1)], simp, rule inner[OF that(2)])
    with v show "\<exists>died e' l'. op_parse_pair k v e l = Some (died, e', l') \<and> True"
      by (cases v) (auto simp: op_parse_pair_def)
  qed simp
  then show ?thesis by blast
qed

lemma op_new_post_refl: "op_inv s \<Longrightarrow> op_new_post s dfn dsn sfn ssn sv None s"
  by (simp add: op_new_post_def)

text \<open>Parsing an operation, on every document with scalar keys.\<close>

lemma op_parse_new_spec:
  assumes E: "env_ok E" and I: "op_inv s" and ps: "ymap_ok ps"
  obtains r s' dfn dsn sfn ssn sv where "op_parse_new E ps s = Some (r, s')"
    "op_new_post s dfn dsn sfn ssn sv r s'"
proof -
  obtain died e l where l: "y_for_map op_parse_pair ps 0
      \<lparr>lo_dst_field_name = None, lo_dst_state_name = None, lo_src_field_name = None,
       lo_src_state_name = None, lo_src_value = None\<rparr> = Some (died, e, l)"
    using op_parse_locals[OF ps] by metis
  show ?thesis
  proof (cases died)
    case True
    with l that[of None s] op_new_post_refl[OF I] show ?thesis by (simp add: op_parse_new_def)
  next
    case False
    obtain r s' where "op_new E (lo_dst_field_name l) (lo_dst_state_name l) (lo_src_field_name l)
                 (lo_src_state_name l) (lo_src_value l) s = Some (r, s')"
      "op_new_post s (lo_dst_field_name l) (lo_dst_state_name l) (lo_src_field_name l)
                 (lo_src_state_name l) (lo_src_value l) r s'"
      using op_new_spec[OF E I] by blast
    with l False that show ?thesis by (simp add: op_parse_new_def)
  qed
qed

lemma rules_hold_perm:
  assumes "rules_hold L ops rules qs" and "\<And>q. count_list qs' q = count_list qs q"
  shows "rules_hold L ops rules qs'"
  using assms by (simp add: rules_hold_def)

text \<open>A new operation goes to the queue under construction; nothing else changes hands.\<close>

lemma rule_inv_op_new:
  fixes s :: "'a rule_state_scheme"
  assumes I: "rule_inv_with L qs s" and post: "op_new_post s dfn dsn sfn ssn sv r s'"
  shows "rule_inv_with L (case r of None \<Rightarrow> qs | Some p \<Rightarrow> p # qs) s'"
proof (rule rule_inv_ops[OF I])
  show "op_inv s'" "op_state.more s' = op_state.more s" "next_addr s \<le> next_addr s'"
    using post by (simp_all add: op_new_post_def)
  have hold: "rules_hold L (op_heap s) (rule_heap s) qs" using rule_invD(5)[OF I] .
  show "rules_hold L (op_heap s') (rule_heap s) (case r of None \<Rightarrow> qs | Some p \<Rightarrow> p # qs)"
  proof (cases r)
    case None
    with hold post show ?thesis by (simp add: op_new_post_def)
  next
    case (Some p)
    with post obtain op where "op_heap s' = (op_heap s)(p \<mapsto> op)" "op_heap s p = None"
      by (auto simp: op_new_post_def)
    moreover have "refs_to rule_uses (rule_heap s) q + count_list qs q + of_bool (q \<in> L) = of_bool (op_heap s q \<noteq> None)" for q
      using hold by (simp add: rules_hold_def)
    ultimately show ?thesis using Some by (auto simp: rules_hold_def)
  qed
qed

lemma jl_enqueue_opt:
  assumes "jl_dense q"
  shows "jl_dense (snd (jl_enqueue q r))" and "jl_vals (snd (jl_enqueue q r)) = jl_vals q @ (case r of None \<Rightarrow> [] | Some p \<Rightarrow> [p])"
  using jq.enq_ok[OF assms] jq.items_enq[OF assms, of r] by simp_all

definition below_kept :: "'a op_state_scheme \<Rightarrow> 'a op_state_scheme \<Rightarrow> bool" where
  "below_kept s s' \<longleftrightarrow> op_state.more s' = op_state.more s \<and> next_addr s \<le> next_addr s' \<and> fields_kept s s'"

lemma below_kept_refl [simp]: "below_kept s s"
  by (simp add: below_kept_def)

lemma below_kept_trans [trans]: "below_kept s t \<Longrightarrow> below_kept t u \<Longrightarrow> below_kept s u"
  using fields_kept_trans[of s t u] by (simp add: below_kept_def)

lemma rule_parse_op_total:
  fixes s :: "'a rule_state_scheme"
  assumes E: "env_ok E" and v: "ynode_ok v" and d: "jl_dense q"
    and I: "rule_inv_with L (jl_vals q @ rest) s"
  shows "\<exists>died e' qs'. rule_parse_op E v e (q, s) = Some (died, e', qs') \<and>
    jl_dense (fst qs') \<and> rule_inv_with L (jl_vals (fst qs') @ rest) (snd qs') \<and> below_kept s (snd qs')"
proof (cases v)
  case (YMap ps)
  then have "ymap_ok ps" using v by simp
  then obtain r s' dfn dsn sfn ssn sv where r: "op_parse_new E ps s = Some (r, s')"
    and post: "op_new_post s dfn dsn sfn ssn sv r s'"
    by (rule op_parse_new_spec[OF E rule_invD(1)[OF I]])
  obtain rc q' where q': "jl_enqueue q r = (rc, q')" by (cases "jl_enqueue q r")
  have "jl_dense q'" "jl_vals q' = jl_vals q @ (case r of None \<Rightarrow> [] | Some p \<Rightarrow> [p])"
    using jl_enqueue_opt[OF d, of r] q' by simp_all
  moreover have I': "rule_inv_with L (case r of None \<Rightarrow> jl_vals q @ rest | Some p \<Rightarrow> p # jl_vals q @ rest) s'"
    using rule_inv_op_new[OF I post] .
  have "rule_inv_with L (jl_vals q' @ rest) s'"
    by (rule rule_inv_ops[OF I' rule_invD(1)[OF I'] refl order_refl],
        rule rules_hold_perm[OF rule_invD(5)[OF I']])
      (simp add: calculation(2) split: option.split)
  moreover have "below_kept s s'" using post by (simp add: op_new_post_def below_kept_def)
  ultimately show ?thesis using YMap r q' by (simp add: rule_parse_op_def exI[of _ False])
qed (use assms in \<open>simp_all add: rule_parse_op_def exI[of _ False]\<close>)

end
