(* ===== verification/Ruleset.thy ===== *)
theory Ruleset
  imports Rule
begin

text \<open>
  What src/rule.c does as a whole: printing a rule never fails, parsing the text of a rule
  keeps the invariant and changes the set of rules by at most the rule it names, and
  \<open>rule_free_all\<close> leaves nothing behind.
\<close>

subsection \<open>Printing\<close>

lemma op_emit_side_total:
  assumes I: "op_inv s" and f: "\<And>p. fp = Some p \<Longrightarrow> field_heap s p \<noteq> None"
    and m: "\<And>p. mp = Some p \<Longrightarrow> memref_heap s p \<noteq> None"
  shows "\<exists>y. op_emit_side fp mp s = Some y"
proof -
  have FI: "field_inv s" and MI: "memref_inv s"
    using held_parts(1,2)[of "op_heap s" s] I by (auto simp: op_inv_def)
  have "\<exists>map. (case fp of None \<Rightarrow> Some []
      | Some f \<Rightarrow> do { fl \<leftarrow> field_heap s f; nm \<leftarrow> fl_name fl; Some (y_pair_insert [] ''field'' nm) }) = Some map"
  proof (cases fp)
    case (Some p)
    with f obtain fl where "field_heap s p = Some fl" by fastforce
    moreover from this FI obtain n where "fl_name fl = Some n" unfolding field_inv_def by blast
    ultimately show ?thesis using Some by simp
  qed simp
  moreover have "\<exists>y. (case mp of None \<Rightarrow> Some map
      | Some m \<Rightarrow> do { mr \<leftarrow> memref_heap s m; memref_emit mr map }) = Some y" for map
  proof (cases mp)
    case (Some p)
    with m obtain mr where mr: "memref_heap s p = Some mr" by fastforce
    from memref_inv_live[OF MI mr] have "\<exists>y. memref_emit mr map = Some y"
      by (cases "memref_is_value mr") (auto simp: memref_ok_def memref_emit_def)
    with Some mr show ?thesis by simp
  qed simp
  ultimately show ?thesis by (auto simp: op_emit_side_def)
qed

lemma op_emit_total:
  assumes I: "op_inv s" and op: "op_heap s p = Some op"
  shows "\<exists>y. op_emit p s out = Some (out @ [y])"
proof -
  have ok: "op_ok (field_heap s) (memref_heap s) op"
    using held_parts(4)[of "op_heap s" s] I op by (auto simp: op_inv_def)
  have "field_heap s q \<noteq> None" if "op_dst_field op = Some q \<or> op_src_field op = Some q" for q
    using ok that by (auto simp: op_ok_def field_uses_def)
  moreover have "memref_heap s q \<noteq> None" if "op_dst op = Some q \<or> op_src op = Some q" for q
    using ok that by (auto simp: op_ok_def memref_uses_def)
  ultimately obtain d sr where "op_emit_side (op_dst_field op) (op_dst op) s = Some d"
    "op_emit_side (op_src_field op) (op_src op) s = Some sr"
    using op_emit_side_total[OF I] by metis
  with op show ?thesis by (simp add: op_emit_def)
qed

lemma count_list_pos: "0 < count_list xs x \<longleftrightarrow> x \<in> set xs"
  by (metis count_list_0_iff gr0I less_irrefl)

text \<open>The operations of a rule are live.\<close>

lemma rule_ops_live:
  assumes I: "rule_inv_with L qs s" and p: "rule_heap s p = Some rule" and q: "q \<in> set (rule_ops rule)"
  shows "op_heap s q \<noteq> None"
proof -
  have "0 < rule_uses rule q" using q by (simp add: rule_uses_def count_list_pos)
  then have "0 < refs_to rule_uses (rule_heap s) q" using refs_to_pos[OF rule_invD(2)[OF I] p] by blast
  moreover have "refs_to rule_uses (rule_heap s) q + count_list qs q + of_bool (q \<in> L) = of_bool (op_heap s q \<noteq> None)"
    using rule_invD(5)[OF I] by (simp add: rules_hold_def)
  ultimately show ?thesis by (cases "op_heap s q") auto
qed

lemma emit_queue_total:
  assumes "op_inv s" and "jl_dense q" and "\<And>p. p \<in> set (jl_vals q) \<Longrightarrow> op_heap s p \<noteq> None"
  shows "\<exists>ys. jl_loop (\<lambda>val acc. do { p \<leftarrow> val; op_emit p s acc }) q [] = Some ys"
proof -
  have "\<exists>ys. loop_vals (\<lambda>p acc. op_emit p s acc) (jl_vals q) [] = Some ys \<and> True"
  proof (rule loop_vals_total)
    fix p and acc :: "ynode list" assume "p \<in> set (jl_vals q)"
    with assms(3) obtain op where "op_heap s p = Some op" by blast
    from op_emit_total[OF assms(1) this] show "\<exists>y. op_emit p s acc = Some y \<and> True" by blast
  qed simp
  then show ?thesis by (simp add: jl_loop_vals[OF jl_dense_no_None[OF assms(2)]])
qed

lemma rule_emit_total:
  assumes I: "rule_inv_with L qs s" and p: "rule_heap s p = Some rule"
  shows "\<exists>y. rule_emit rule s (Some items) = Some (Some (items @ [y]))"
proof -
  have ok: "jl_dense (rl_match rule)" "jl_dense (rl_write rule)" "\<exists>n. rl_name rule = Some n"
    using rule_invD(4)[OF I p] by (auto simp: rule_ok_def)
  have live: "op_heap s q \<noteq> None" if "q \<in> set (jl_vals (rl_match rule)) \<or> q \<in> set (jl_vals (rl_write rule))" for q
    using rule_ops_live[OF I p, of q] that by (auto simp: rule_ops_def)
  obtain ms ws where
    "jl_loop (\<lambda>val acc. do { p \<leftarrow> val; op_emit p s acc }) (rl_match rule) [] = Some ms"
    "jl_loop (\<lambda>val acc. do { p \<leftarrow> val; op_emit p s acc }) (rl_write rule) [] = Some ws"
    using emit_queue_total[OF rule_invD(1)[OF I] ok(1)] emit_queue_total[OF rule_invD(1)[OF I] ok(2)] live by metis
  with ok(3) show ?thesis by (auto simp: rule_emit_def)
qed

text \<open>What a table's values are.\<close>

lemma js_vals_get:
  assumes "judy_ok a" and "v \<in> set (jl_vals a)"
  obtains k where "js_get a k = Some v"
proof -
  from assms(2) obtain k where "(k, Some v) \<in> set a" by (auto simp: jl_vals_def map_filter_def)
  moreover have "distinct (map fst a)" using assms(1) by (simp add: judy_ok_def strict_sorted_iff)
  ultimately have "map_of a k = Some (Some v)" by simp
  then show ?thesis by (intro that[of k]) (simp add: js_get_def)
qed

lemma rule_emit_all_total:
  assumes I: "rule_inv_with L qs s"
  shows "\<exists>items'. rule_emit_all s (Some items) = Some (Some items')"
proof -
  have "\<exists>out. loop_vals (\<lambda>p out. do { rule \<leftarrow> rule_heap s p; rule_emit rule s out }) (jl_vals (rule_JS s)) (Some items) = Some out
      \<and> out \<noteq> None"
  proof (rule loop_vals_total)
    fix p and out :: yout assume p: "p \<in> set (jl_vals (rule_JS s))" and "out \<noteq> None"
    then obtain acc where acc: "out = Some acc" by blast
    obtain k where "js_get (rule_JS s) k = Some p" using js_vals_get[OF rule_invD(6)[OF I] p] .
    then obtain rule where "rule_heap s p = Some rule" by (rule rule_inv_get[OF I])
    with rule_emit_total[OF I this, of acc] acc
    show "\<exists>out'. do { rule \<leftarrow> rule_heap s p; rule_emit rule s out } = Some out' \<and> out' \<noteq> None" by auto
  qed simp
  then show ?thesis by (auto simp: rule_emit_all_def js_loop_const[OF rule_invD(6)[OF I]])
qed

subsection \<open>Parsing\<close>

text \<open>
  What holds while the pairs of a rule are read, after a start in \<open>s0\<close>: the operations made
  so far are in the two queues, and only fields and memrefs were touched besides.
\<close>

definition rule_reading ::
  "parse_mode \<Rightarrow> addr set \<Rightarrow> 'a rule_state_scheme \<Rightarrow> rule_locals \<times> 'a rule_state_scheme \<Rightarrow> bool" where
  "rule_reading mode L s0 ls \<longleftrightarrow> (let (l, s) = ls in
     (mode \<noteq> PARSE_ADD \<longrightarrow> lr_match l = [] \<and> lr_write l = []) \<and>
     jl_dense (lr_match l) \<and> jl_dense (lr_write l) \<and> lr_name l \<noteq> None \<and>
     rule_inv_with L (jl_vals (lr_match l) @ jl_vals (lr_write l)) s \<and> below_kept s0 s)"

lemma rule_inv_perm:
  assumes "rule_inv_with L qs s" and "\<And>q. count_list qs' q = count_list qs q"
  shows "rule_inv_with L qs' s"
  using rule_invI[OF rule_invD(1-4)[OF assms(1)] rules_hold_perm[OF rule_invD(5)[OF assms(1)] assms(2)]] .

lemma rule_parse_ops_total:
  fixes s :: "'a rule_state_scheme"
  assumes E: "env_ok E" and vs: "yseq_ok vs" and d: "jl_dense q" and I: "rule_inv_with L (jl_vals q @ rest) s"
  obtains died e' q' s' where "y_for_seq (rule_parse_op E) vs e (q, s) = Some (died, e', q', s')"
    "jl_dense q'" "rule_inv_with L (jl_vals q' @ rest) s'" "below_kept s s'"
proof -
  let ?P = "\<lambda>qs. jl_dense (fst qs) \<and> rule_inv_with L (jl_vals (fst qs) @ rest) (snd qs) \<and> below_kept s (snd qs)"
  have "\<exists>died e' qs'. y_for_seq (rule_parse_op E) vs e (q, s) = Some (died, e', qs') \<and> ?P qs'"
  proof (rule y_for_seq_total[OF vs])
    show "?P (q, s)" using d I by simp
  next
    fix v e and qs :: "addr judyL \<times> 'a rule_state_scheme" assume v: "ynode_ok v" and P: "?P qs"
    obtain q1 s1 where qs: "qs = (q1, s1)" by (cases qs)
    have "jl_dense q1" "rule_inv_with L (jl_vals q1 @ rest) s1" using P qs by simp_all
    from rule_parse_op_total[OF E v this, of e] obtain died e' qs' where
      r: "rule_parse_op E v e (q1, s1) = Some (died, e', qs')" "jl_dense (fst qs')"
      "rule_inv_with L (jl_vals (fst qs') @ rest) (snd qs')" "below_kept s1 (snd qs')" by blast
    have "below_kept s (snd qs')" by (rule below_kept_trans[OF _ r(4)]) (use P qs in simp)
    with r qs show "\<exists>died e' qs'. rule_parse_op E v e qs = Some (died, e', qs') \<and> ?P qs'" by blast
  qed
  then show ?thesis using that by auto
qed

lemma rule_parse_pair_total:
  fixes s0 :: "'a rule_state_scheme"
  assumes E: "env_ok E" and v: "ynode_ok v" and P: "rule_reading mode L s0 ls"
  shows "\<exists>died e' ls'. rule_parse_pair E mode k v e ls = Some (died, e', ls') \<and> rule_reading mode L s0 ls'"
proof -
  obtain l s where ls: "ls = (l, s)" by (cases ls)
  with P have l: "jl_dense (lr_match l)" "jl_dense (lr_write l)" "lr_name l \<noteq> None" "below_kept s0 s"
    and I: "rule_inv_with L (jl_vals (lr_match l) @ jl_vals (lr_write l)) s"
    by (simp_all add: rule_reading_def)
  show ?thesis
  proof (cases v)
    case (YScalar t)
    with P ls l I show ?thesis
      by (cases "k = ''rule'' \<or> k = ''r''") (auto simp: rule_parse_pair_def rule_reading_def intro: exI[of _ False])
  next
    case (YSeq items)
    then have items: "yseq_ok items" using v by simp
    consider (skip) "mode \<noteq> PARSE_ADD \<or> k \<notin> {''match'', ''m'', ''write'', ''w''}"
      | (matches) "mode = PARSE_ADD" "k = ''match'' \<or> k = ''m''"
      | (writes) "mode = PARSE_ADD" "k = ''write'' \<or> k = ''w''" by blast
    then show ?thesis
    proof cases
      case skip
      then have "rule_parse_pair E mode k v e ls = Some (False, e + 1, ls)"
        using YSeq ls by (auto simp: rule_parse_pair_def)
      with P show ?thesis by blast
    next
      case matches
      obtain died e' q' s' where r: "y_for_seq (rule_parse_op E) items e (lr_match l, s) = Some (died, e', q', s')"
        "jl_dense q'" "rule_inv_with L (jl_vals q' @ jl_vals (lr_write l)) s'" "below_kept s s'"
        by (rule rule_parse_ops_total[OF E items l(1) I])
      have "rule_parse_pair E mode k v e ls = Some (died, e', l\<lparr>lr_match := q'\<rparr>, s')"
        using matches YSeq ls r(1) by (auto simp: rule_parse_pair_def)
      moreover have "rule_reading mode L s0 (l\<lparr>lr_match := q'\<rparr>, s')"
        using matches l r(2,3) below_kept_trans[OF l(4) r(4)] by (simp add: rule_reading_def)
      ultimately show ?thesis by blast
    next
      case writes
      have I': "rule_inv_with L (jl_vals (lr_write l) @ jl_vals (lr_match l)) s"
        by (rule rule_inv_perm[OF I]) simp
      obtain died e' q' s' where r: "y_for_seq (rule_parse_op E) items e (lr_write l, s) = Some (died, e', q', s')"
        "jl_dense q'" "rule_inv_with L (jl_vals q' @ jl_vals (lr_match l)) s'" "below_kept s s'"
        by (rule rule_parse_ops_total[OF E items l(2) I'])
      have "rule_parse_pair E mode k v e ls = Some (died, e', l\<lparr>lr_write := q'\<rparr>, s')"
        using writes YSeq ls r(1) by (auto simp: rule_parse_pair_def)
      moreover have "rule_inv_with L (jl_vals (lr_match l) @ jl_vals q') s'"
        by (rule rule_inv_perm[OF r(3)]) simp
      then have "rule_reading mode L s0 (l\<lparr>lr_write := q'\<rparr>, s')"
        using writes l r(2) below_kept_trans[OF l(4) r(4)] by (simp add: rule_reading_def)
      ultimately show ?thesis by blast
    qed
  qed (use P ls in \<open>auto simp: rule_parse_pair_def\<close>)
qed

lemma distinct_count_one: "distinct xs \<Longrightarrow> x \<in> set xs \<Longrightarrow> count_list xs x = 1"
  by (induction xs) (auto simp: count_list_0_iff)

text \<open>A jump to \<open>die\<close> drops the queues: their operations are lost.\<close>

lemma rule_inv_lose:
  assumes I: "rule_inv_with L qs s"
  shows "rule_inv_with (L \<union> set qs) [] s"
proof (rule rule_invI[OF rule_invD(1-4)[OF I]])
  note hold = rule_invD(5)[OF I]
  have "count_list qs q + of_bool (q \<in> L) = of_bool (q \<in> L \<union> set qs)" for q
  proof (cases "q \<in> set qs")
    case True
    have "count_list qs q = 1"
      using rules_hold_distinct(1)[OF hold] True by (simp add: distinct_count_one)
    with True rules_hold_distinct(2)[OF hold True] show ?thesis by simp
  qed (simp add: count_list_0_iff)
  then show "rules_hold (L \<union> set qs) (op_heap s) (rule_heap s) []"
    using hold by (simp add: rules_hold_def add.assoc)
qed

text \<open>
  What a call of \<open>rule_parse\<close> may do to the rules: add one that nothing refers to, or free one
  that nothing refers to; the other components see no change in the names, lengths and
  masks of the fields.
\<close>

definition rule_effect :: "parse_mode \<Rightarrow> 'a rule_state_scheme \<Rightarrow> 'a rule_state_scheme \<Rightarrow> bool" where
  "rule_effect mode s s' \<longleftrightarrow>
     rule_state.more s' = rule_state.more s \<and> next_addr s \<le> next_addr s' \<and> fields_kept s s' \<and>
     (rule_heap s' = rule_heap s \<and> rule_JS s' = rule_JS s \<or>
      mode = PARSE_ADD \<and> (\<exists>p rule nm. rule_heap s p = None \<and> rl_refcnt rule = 0 \<and> rl_name rule = Some nm \<and>
        rule_heap s' = (rule_heap s)(p \<mapsto> rule) \<and> js_get (rule_JS s) nm = None \<and>
        js_get (rule_JS s') = (js_get (rule_JS s))(nm \<mapsto> p)) \<or>
      mode = PARSE_DEL \<and> (\<exists>p rule nm. rule_heap s p = Some rule \<and> rl_refcnt rule = 0 \<and> rl_name rule = Some nm \<and>
        js_get (rule_JS s) nm = Some p \<and> rule_heap s' = (rule_heap s)(p := None) \<and>
        rule_JS s' = js_delete (rule_JS s) nm))"

lemma below_kept_rules:
  "below_kept s s' \<Longrightarrow> rule_heap s' = rule_heap s \<and> rule_JS s' = rule_JS s \<and> rule_state.more s' = rule_state.more s"
  for s :: "'a rule_state_scheme"
  using more_rule[of s' s] by (simp add: below_kept_def)

lemma rule_effect_below: "below_kept s s' \<Longrightarrow> rule_effect mode s s'"
  for s :: "'a rule_state_scheme"
  using below_kept_rules[of s s'] by (simp add: rule_effect_def below_kept_def)

lemma rule_parse_pairs:
  fixes s :: "'a rule_state_scheme"
  assumes E: "env_ok E" and I: "rule_inv_with L [] s" and ps: "ymap_ok ps"
  obtains died e l s' where "y_for_map (rule_parse_pair E mode) ps 0 (\<lparr>lr_name = Some '''', lr_match = [], lr_write = []\<rparr>, s)
      = Some (died, e, l, s')" "rule_reading mode L s (l, s')"
proof -
  let ?l = "\<lparr>lr_name = Some '''', lr_match = [], lr_write = []\<rparr>"
  have "\<exists>died e ls'. y_for_map (rule_parse_pair E mode) ps 0 (?l, s) = Some (died, e, ls') \<and> rule_reading mode L s ls'"
  proof (rule y_for_map_total[OF ps])
    show "rule_reading mode L s (?l, s)"
      using I by (simp add: rule_reading_def jl_dense_def jl_vals_def map_filter_simps)
  qed (rule rule_parse_pair_total[OF E])
  then show ?thesis using that by auto
qed

text \<open>A document whose pairs are scalars and sequences is read to its end.\<close>

definition rule_doc_plain :: "(ynode \<times> ynode) list \<Rightarrow> bool" where
  "rule_doc_plain ps \<longleftrightarrow> (\<forall>(k, v) \<in> set ps. case v of YMap _ \<Rightarrow> False | _ \<Rightarrow> True)"

lemma rule_parse_op_lives: "rule_parse_op E v e qs = Some (d, e', qs') \<Longrightarrow> \<not> d"
  by (auto simp: rule_parse_op_def split: prod.splits ynode.splits Option.bind_splits)

lemma rule_parse_ops_live: "y_for_seq (rule_parse_op E) items e qs = Some (d, e', qs') \<Longrightarrow> \<not> d"
  by (erule y_for_seq_lives) (rule rule_parse_op_lives)

lemma rule_parse_pair_lives:
  assumes "rule_parse_pair E mode k v e ls = Some (d, e', ls')" and "case v of YMap _ \<Rightarrow> False | YNone \<Rightarrow> False | _ \<Rightarrow> True"
  shows "\<not> d"
proof -
  obtain l s where ls: "ls = (l, s)" by (cases ls)
  show ?thesis
  proof (cases v)
    case (YScalar t)
    with assms(1) ls show ?thesis by (auto simp: rule_parse_pair_def split: if_splits)
  next
    case (YSeq items)
    with assms(1) ls show ?thesis
      by (auto simp: rule_parse_pair_def dest: rule_parse_ops_live split: if_splits Option.bind_splits prod.splits)
  qed (use assms(2) in auto)
qed

lemma rule_parse_pairs_live:
  assumes "rule_doc_plain ps" and "y_for_map (rule_parse_pair E mode) ps e ls = Some (died, e', ls')"
  shows "\<not> died"
proof (rule y_for_map_lives[OF assms(2)])
  fix key v k e s d e' s'
  assume "(key, v) \<in> set ps" "v \<noteq> YNone"
  then have "case v of YMap _ \<Rightarrow> False | YNone \<Rightarrow> False | _ \<Rightarrow> True"
    using assms(1) by (auto simp: rule_doc_plain_def split: ynode.splits)
  then show "rule_parse_pair E mode k v e s = Some (d, e', s') \<Longrightarrow> \<not> d"
    by (rule rule_parse_pair_lives[rotated])
qed

lemma rule_effect_after:
  fixes s :: "'a rule_state_scheme"
  assumes "below_kept s s1" and "rule_effect mode s1 s'"
  shows "rule_effect mode s s'"
  using assms fields_kept_trans[of s s1 s'] below_kept_rules[OF assms(1)]
  unfolding rule_effect_def below_kept_def by auto

lemma rule_effect_addI:
  "rule_state.more s' = rule_state.more s \<Longrightarrow> next_addr s \<le> next_addr s' \<Longrightarrow> fields_kept s s' \<Longrightarrow>
   rule_heap s p = None \<Longrightarrow> rl_refcnt rule = 0 \<Longrightarrow> rl_name rule = Some nm \<Longrightarrow>
   rule_heap s' = (rule_heap s)(p \<mapsto> rule) \<Longrightarrow> js_get (rule_JS s) nm = None \<Longrightarrow>
   js_get (rule_JS s') = (js_get (rule_JS s))(nm \<mapsto> p) \<Longrightarrow> rule_effect PARSE_ADD s s'"
  unfolding rule_effect_def by blast

lemma rule_effect_delI:
  "rule_state.more s' = rule_state.more s \<Longrightarrow> next_addr s \<le> next_addr s' \<Longrightarrow> fields_kept s s' \<Longrightarrow>
   rule_heap s p = Some rule \<Longrightarrow> rl_refcnt rule = 0 \<Longrightarrow> rl_name rule = Some nm \<Longrightarrow>
   js_get (rule_JS s) nm = Some p \<Longrightarrow> rule_heap s' = (rule_heap s)(p := None) \<Longrightarrow>
   rule_JS s' = js_delete (rule_JS s) nm \<Longrightarrow> rule_effect PARSE_DEL s s'"
  unfolding rule_effect_def by blast

text \<open>The three modes, once the pairs are read.\<close>

lemma rule_add_spec:
  fixes s :: "'a rule_state_scheme"
  assumes E: "env_ok E" and I: "rule_inv_with L (jl_vals m @ jl_vals w) s" and d: "jl_dense m" "jl_dense w"
  shows "\<exists>e' items' s'. do { (rp, s) \<leftarrow> rule_new E (Some nm) m w s;
         case rp of
           None \<Rightarrow> Some (e + 1, Some items, s)
         | Some p \<Rightarrow> do { rule \<leftarrow> rule_heap s p; out \<leftarrow> rule_emit rule s (Some items); Some (e, out, s) } }
      = Some (e', Some items', s') \<and> rule_inv_with L [] s' \<and> rule_effect PARSE_ADD s s'"
proof -
  have I': "rule_inv_with L (jl_vals m @ jl_vals w @ []) s" using I by simp
  show ?thesis
  proof (rule rule_new_spec[OF E I' d, of nm])
    fix s' assume made: "rule_new_ok E nm s" "rule_new E (Some nm) m w s = Some (Some (next_addr s), s')"
      "rule_inv_with L [] s'" "rule_heap s' = (rule_heap s)(next_addr s \<mapsto> rule_of nm m w)"
      "js_get (rule_JS s') = (js_get (rule_JS s))(nm \<mapsto> next_addr s)" "op_heap s' = op_heap s"
      "rule_state.more s' = rule_state.more s" "next_addr s \<le> next_addr s'" "fields_kept s s'"
    have rl: "rule_heap s' (next_addr s) = Some (rule_of nm m w)" using made(4) by simp
    have "rule_effect PARSE_ADD s s'"
      by (rule rule_effect_addI[OF made(7,8,9) _ _ _ made(4) _ made(5)])
        (use made(1) rule_inv_fresh[OF I, of "next_addr s"] in \<open>simp_all add: rule_of_def rule_new_ok_def\<close>)
    with made(2,3) rl rule_emit_total[OF made(3) rl, of items] show ?thesis by auto
  next
    fix s' assume refused: "\<not> rule_new_ok E nm s" "rule_new E (Some nm) m w s = Some (None, s')"
      "rule_inv_with L [] s'" "rule_heap s' = rule_heap s" "rule_JS s' = rule_JS s"
      "rule_state.more s' = rule_state.more s" "next_addr s \<le> next_addr s'" "fields_kept s s'"
    then have "rule_effect PARSE_ADD s s'" by (simp add: rule_effect_def)
    with refused(2,3) show ?thesis by simp
  qed
qed

lemma rule_del_spec:
  fixes s :: "'a rule_state_scheme"
  assumes I: "rule_inv_with L [] s"
  shows "\<exists>e' items' s'. (case js_get (rule_JS s) nm of
           None \<Rightarrow> Some (e + 1, Some items, s)
         | Some p \<Rightarrow>
             do { rule \<leftarrow> rule_heap s p;
                  if rl_refcnt rule \<noteq> 0 then Some (e + 1, Some items, s)
                  else do { out \<leftarrow> rule_emit rule s (Some items); s \<leftarrow> rule_free (Some p) s; Some (e, out, s) } })
      = Some (e', Some items', s') \<and> rule_inv_with L [] s' \<and> rule_effect PARSE_DEL s s'"
proof (cases "js_get (rule_JS s) nm")
  case None
  with I show ?thesis by (simp add: rule_effect_below)
next
  case (Some p)
  then obtain rule where r: "rule_heap s p = Some rule" "rl_name rule = Some nm" by (rule rule_inv_get[OF I])
  show ?thesis
  proof (cases "rl_refcnt rule = 0")
    case True
    obtain s' where s': "rule_free (Some p) s = Some s'" "rule_inv_with L [] s'"
      "rule_heap s' = (rule_heap s)(p := None)" "rule_JS s' = js_delete (rule_JS s) nm"
      "rule_state.more s' = rule_state.more s" "next_addr s \<le> next_addr s'" "fields_kept s s'"
      using rule_free_inv[OF I r(1) True r(2)] .
    have "rule_effect PARSE_DEL s s'"
      by (rule rule_effect_delI[OF s'(5,6,7) r(1) True r(2) Some s'(3,4)])
    with Some r True s' rule_emit_total[OF I r(1), of items] show ?thesis by auto
  next
    case False
    with Some r I show ?thesis by (simp add: rule_effect_below)
  qed
qed

lemma rule_prn_spec:
  assumes I: "rule_inv_with L [] s"
  shows "\<exists>e' items'. (if nm = '''' then do { out \<leftarrow> rule_emit_all s (Some items); Some (e, out, s) }
           else case js_get (rule_JS s) nm of
                  None \<Rightarrow> Some (e, Some items, s)
                | Some p \<Rightarrow> do { rule \<leftarrow> rule_heap s p; out \<leftarrow> rule_emit rule s (Some items); Some (e, out, s) })
      = Some (e', Some items', s)"
proof (cases "js_get (rule_JS s) nm")
  case None
  with rule_emit_all_total[OF I, of items] show ?thesis by auto
next
  case (Some p)
  then obtain rule where r: "rule_heap s p = Some rule" by (rule rule_inv_get[OF I])
  with Some rule_emit_all_total[OF I, of items] rule_emit_total[OF I r, of items] show ?thesis by auto
qed

lemma rule_parse_spec:
  fixes s :: "'a rule_state_scheme"
  assumes E: "env_ok E" and I: "rule_inv_with L [] s" and ps: "ymap_ok ps"
  shows "\<exists>e items' s' L'. rule_parse E mode ps (Some items) s = Some (e, Some items', s') \<and>
     rule_inv_with L' [] s' \<and> rule_effect mode s s' \<and> (rule_doc_plain ps \<longrightarrow> L' = L)"
proof -
  obtain died e l s1 where l: "y_for_map (rule_parse_pair E mode) ps 0 (\<lparr>lr_name = Some '''', lr_match = [], lr_write = []\<rparr>, s)
      = Some (died, e, l, s1)" and reading: "rule_reading mode L s (l, s1)"
    using rule_parse_pairs[OF E I ps] .
  from reading obtain nm where q: "jl_dense (lr_match l)" "jl_dense (lr_write l)" "lr_name l = Some nm"
    and I1: "rule_inv_with L (jl_vals (lr_match l) @ jl_vals (lr_write l)) s1" and kept: "below_kept s s1"
    and none: "mode \<noteq> PARSE_ADD \<Longrightarrow> lr_match l = [] \<and> lr_write l = []"
    by (auto simp: rule_reading_def)
  have alive: "rule_doc_plain ps \<longrightarrow> \<not> died" using rule_parse_pairs_live[OF _ l] by blast
  note run = q(3) rule_parse_def
  have fin: ?thesis if "\<exists>e' items' s'. rule_parse E mode ps (Some items) s = Some (e', Some items', s') \<and>
      rule_inv_with L [] s' \<and> rule_effect mode s1 s'"
    using that rule_effect_after[OF kept] by blast
  have unchanged: ?thesis if "\<exists>e' items'. rule_parse E mode ps (Some items) s = Some (e', Some items', s1)" "rule_inv_with L [] s1"
    using that rule_effect_below[OF kept] by blast
  have I2: "rule_inv_with L [] s1" if "mode \<noteq> PARSE_ADD"
    using I1 none[OF that] by (simp add: jl_vals_def map_filter_simps)
  consider (died) "died" | (add) "\<not> died" "mode = PARSE_ADD" | (del) "\<not> died" "mode = PARSE_DEL"
    | (prn) "\<not> died" "mode = PARSE_PRN" | (inval) "\<not> died" "mode = PARSE_INVALID"
    by (cases mode) auto
  then show ?thesis
  proof cases
    case died
    with l have "rule_parse E mode ps (Some items) s = Some (e, Some items, s1)" by (simp add: run)
    with rule_inv_lose[OF I1] rule_effect_below[OF kept] alive died show ?thesis by blast
  next
    case add
    show ?thesis
      using rule_add_spec[OF E I1 q(1,2), where nm = nm and e = e and items = items] l
      by (intro fin) (simp add: run add)
  next
    case del
    then have I: "rule_inv_with L [] s1" using I2 by simp
    show ?thesis
      using rule_del_spec[OF I, where nm = nm and e = e and items = items] l
      by (intro fin) (simp add: run del)
  next
    case prn
    then have I: "rule_inv_with L [] s1" using I2 by simp
    show ?thesis
      using rule_prn_spec[OF I, where nm = nm and e = e and items = items] l
      by (intro unchanged) (simp_all add: run prn I)
  next
    case inval
    with l show ?thesis by (intro unchanged) (simp_all add: run I2)
  qed
qed

subsection \<open>What this gives\<close>

definition rule_state1 :: rule_state where
  "rule_state1 = \<lparr>next_addr = 2, field_heap = field_heap op_state1, field_JS = field_JS op_state1,
     memref_heap = Map.empty, state_JS = [], op_heap = Map.empty, rule_heap = Map.empty, rule_JS = []\<rparr>"

lemma op_inv_rule_state1: "op_inv rule_state1"
  by (rule op_inv_cong[OF op_inv1]) (simp_all add: rule_state1_def op_state1_def)

lemma rule_tight1: "rule_tight rule_state1"
  unfolding rule_tight_def
  by (rule rule_invI[OF op_inv_rule_state1]) (simp_all add: rule_state1_def registered_def rules_hold_def js_get_def)

lemma rule_inv1: "rule_inv rule_state1"
  using rule_tight1 by (auto simp: rule_inv_def rule_tight_def)

text \<open>The text of an operation that writes the state s to the field ttl, and of a rule with it.\<close>

definition op_text1 :: "(ynode \<times> ynode) list" where
  "op_text1 = [(YScalar ''dst'', YMap [(YScalar ''field'', YScalar ''ttl'')]),
     (YScalar ''src'', YMap [(YScalar ''state'', YScalar ''s'')])]"

definition rule_text1 :: "(ynode \<times> ynode) list" where
  "rule_text1 = [(YScalar ''rule'', YScalar ''r''), (YScalar ''write'', YSeq [YMap op_text1])]"

lemma text1_ok: "ymap_ok op_text1" "ymap_ok rule_text1" "rule_doc_plain rule_text1"
  by (simp_all add: op_text1_def rule_text1_def rule_doc_plain_def)

text \<open>
  C14: the invariant of the rules. Parsing the text of a rule, in any mode and for any
  document whose keys are scalars, returns without undefined behaviour and keeps the
  invariant: reference counts are exact, no rule has a freed operation, no operation is in two
  rules, every rule is found under its name. At most the one rule the document names is added,
  if its name was free, or deleted, if nothing referred to it.
\<close>

theorem rule_parse_correct:
  fixes s :: "'a rule_state_scheme"
  assumes "env_ok E" and "rule_inv s" and "ymap_ok ps"
  shows "\<exists>e items' s'. rule_parse E mode ps (Some items) s = Some (e, Some items', s') \<and>
     rule_inv s' \<and> rule_effect mode s s'"
  using rule_parse_spec[OF assms(1) _ assms(3), of _ s] assms(2) unfolding rule_inv_def by metis

theorem rule_parse_correct_witness:
  "\<exists>e items' s'. rule_parse env0 PARSE_ADD rule_text1 (Some []) rule_state1 = Some (e, Some items', s') \<and> rule_inv s'"
  using rule_parse_correct[OF env_ok_env0 rule_inv1 text1_ok(2), of PARSE_ADD "[]"] by blast

text \<open>
  C17: no leak in documents whose pairs are scalars and sequences. If every operation in
  memory belongs to a rule before such a text of a rule is parsed, then it does afterwards,
  also when an operation in it, or the whole rule, is refused.
\<close>

theorem rule_parse_tight:
  fixes s :: "'a rule_state_scheme"
  assumes "env_ok E" and "rule_tight s" and "ymap_ok ps" and "rule_doc_plain ps"
  shows "\<exists>e items' s'. rule_parse E mode ps (Some items) s = Some (e, Some items', s') \<and> rule_tight s'"
  using rule_parse_spec[OF assms(1) _ assms(3), of "{}" s mode items] assms(2,4) unfolding rule_tight_def by auto

theorem rule_parse_tight_witness:
  "\<exists>e items' s'. rule_parse env0 PARSE_ADD rule_text1 (Some []) rule_state1 = Some (e, Some items', s') \<and> rule_tight s'"
  using rule_parse_tight[OF env_ok_env0 rule_tight1 text1_ok(2,3), of PARSE_ADD "[]"] by blast

text \<open>
  C33: a mapping where a rule expects a scalar or a sequence loses the operations read before
  it. \<open>rule_parse\<close> jumps to \<open>die\<close>, reports one error, and the operation stays allocated
  though no rule has it: nothing will ever free it, nor its references to fields and states.
\<close>

theorem rule_parse_leak:
  fixes s :: "'a rule_state_scheme"
  assumes "env_ok E" and "rule_tight s" and "ymap_ok m" and "op_parse_new E m s = Some (Some p, s')"
    and "ps = [(YScalar ''match'', YSeq [YMap m]), (YScalar k, YMap x)]"
  shows "rule_parse E PARSE_ADD ps (Some items) s = Some (1, Some items, s') \<and>
    op_heap s' p \<noteq> None \<and> \<not> (\<exists>r rule. rule_heap s' r = Some rule \<and> p \<in> set (rule_ops rule))"
proof -
  have I: "rule_inv_with {} [] s" using assms(2) by (simp add: rule_tight_def)
  have parse: "rule_parse E PARSE_ADD ps (Some items) s = Some (1, Some items, s')"
    by (simp add: assms(5) rule_parse_def rule_parse_pair_def rule_parse_op_def assms(4) jl_enqueue_def
        jl_insert_def jxx_insert_def split: prod.split)
  have I': "rule_inv_with {} [p] s'"
  proof (rule op_parse_new_spec[OF assms(1) rule_invD(1)[OF I] assms(3)])
    fix r s1 dfn dsn sfn ssn sv
    assume "op_parse_new E m s = Some (r, s1)" and post: "op_new_post s dfn dsn sfn ssn sv r s1"
    with assms(4) rule_inv_op_new[OF I post] show ?thesis by simp
  qed
  note live = rules_hold_distinct(2)[OF rule_invD(5)[OF I'], of p]
  moreover have "\<not> (\<exists>r rule. rule_heap s' r = Some rule \<and> p \<in> set (rule_ops rule))"
  proof
    assume "\<exists>r rule. rule_heap s' r = Some rule \<and> p \<in> set (rule_ops rule)"
    then obtain r rule where "rule_heap s' r = Some rule" "0 < rule_uses rule p"
      unfolding rule_uses_def count_list_pos by blast
    then have "0 < refs_to rule_uses (rule_heap s') p" using refs_to_pos[OF rule_invD(2)[OF I']] by blast
    with live show False by simp
  qed
  ultimately show ?thesis using parse by simp
qed

lemma op_parse_example:
  "map_option fst (op_parse_new env0 op_text1 rule_state1) = Some (Some 2)"
  by (simp add: op_parse_new_def op_text1_def op_parse_pair_def op_parse_dst_def op_parse_src_def
      op_new_unfold op_build_def op_take_field_def op_take_state_def op_take_value_def field_get_def
      op_put_def memref_state_get_def memref_alloc_common_def calloc_def nstralloc_ref_def MAXLINELEN_def
      memref_take_def op_compile_def op_state1_def rule_state1_def op_zero_def js_get_def js_insert_def
      jxx_insert_def Let_def)

theorem rule_parse_leak_witness:
  "\<exists>s'. rule_parse env0 PARSE_ADD [(YScalar ''match'', YSeq [YMap op_text1]), (YScalar ''write'', YMap [])]
      (Some []) rule_state1 = Some (1, Some [], s') \<and> op_heap s' 2 \<noteq> None"
proof -
  obtain s' where "op_parse_new env0 op_text1 rule_state1 = Some (Some 2, s')"
    using op_parse_example by auto
  from rule_parse_leak[OF env_ok_env0 rule_tight1 text1_ok(1) this refl] show ?thesis by blast
qed

subsection \<open>Freeing everything\<close>

text \<open>With no operation left, no memref and no reference to a field is left.\<close>

lemma no_ops_empty:
  assumes I: "op_inv s" and ops: "op_heap s = Map.empty"
  shows "memref_heap s = Map.empty" and "\<And>p fl. field_heap s p = Some fl \<Longrightarrow> fl_refcnt fl = 0"
proof -
  have H: "held Map.empty s (\<lambda>_. 0) (\<lambda>_. 0)" using I ops by (simp add: op_inv_def)
  have "dom (memref_heap s) = {}"
    using op_inv_memref_dom[OF I] ops by (auto simp: dom_def)
  then show "memref_heap s = Map.empty" by simp
  show "fl_refcnt fl = 0" if "field_heap s p = Some fl" for p fl
    using held_parts(5)[OF H] that by (simp add: field_counts_def unat_eq_zero)
qed

lemma rule_free_all_spec:
  fixes s :: "'a rule_state_scheme"
  assumes tight: "rule_tight s" and idle: "\<And>p rule. rule_heap s p = Some rule \<Longrightarrow> rl_refcnt rule = 0"
  obtains s' where "rule_free_all s = Some s'" "rule_tight s'" "rule_JS s' = []" "rule_heap s' = Map.empty"
    "op_heap s' = Map.empty" "rule_state.more s' = rule_state.more s" "fields_kept s s'" "next_addr s \<le> next_addr s'"
proof -
  let ?I = "\<lambda>t. rule_tight t \<and> (\<forall>p rule. rule_heap t p = Some rule \<longrightarrow> rl_refcnt rule = 0) \<and>
    rule_state.more t = rule_state.more s \<and> fields_kept s t \<and> next_addr s \<le> next_addr t"
  have "\<exists>s'. js_loop rule_JS rule_free s = Some s' \<and> ?I s' \<and> rule_JS s' = []"
  proof (rule js_loop_frees)
    fix k v and t :: "'a rule_state_scheme" assume I: "?I t" and get: "map_of (rule_JS t) k = Some v"
    have R: "rule_inv_with {} [] t" using I by (simp add: rule_tight_def)
    have "map_of (rule_JS t) k = map_option Some (js_get (rule_JS t) k)"
      by (rule map_of_js_get[OF rule_invD(6)[OF R]])
    with get obtain p where p: "v = Some p" "js_get (rule_JS t) k = Some p" by (cases "js_get (rule_JS t) k") auto
    obtain rule where r: "rule_heap t p = Some rule" "rl_name rule = Some k" using rule_inv_get[OF R p(2)] .
    have z: "rl_refcnt rule = 0" using I r(1) by blast
    obtain t' where t': "rule_free (Some p) t = Some t'" "rule_inv_with {} [] t'" "rule_heap t' = (rule_heap t)(p := None)"
      "rule_JS t' = js_delete (rule_JS t) k" "rule_state.more t' = rule_state.more t" "next_addr t \<le> next_addr t'" "fields_kept t t'"
      by (rule rule_free_inv[OF R r(1) z r(2)])
    have "?I t'" using t' I fields_kept_trans[of s t t'] by (auto simp: rule_tight_def split: if_splits)
    with t' p show "\<exists>s'. rule_free v t = Some s' \<and> ?I s' \<and> rule_JS s' = judy_del (rule_JS t) k"
      by (auto simp: js_delete_def)
  next
    show "judy_ok (rule_JS t)" if "?I t" for t
      using that rule_invD(6)[of "{}" "[]" t] by (simp add: rule_tight_def)
  qed (use tight idle in simp)
  then obtain s' where s': "rule_free_all s = Some s'" "?I s'" "rule_JS s' = []"
    unfolding rule_free_all_def by blast
  have R: "rule_inv_with {} [] s'" using s'(2) by (simp add: rule_tight_def)
  have rules: "rule_heap s' = Map.empty"
  proof
    fix p
    show "rule_heap s' p = None"
      using rule_invD(4)[OF R, of p] s'(3) by (cases "rule_heap s' p") (auto simp: rule_ok_def js_get_def)
  qed
  have "op_heap s' = Map.empty"
  proof
    fix q
    show "op_heap s' q = None" using rule_invD(5)[OF R] rules by (cases "op_heap s' q") (auto simp: rules_hold_def)
  qed
  with that s' rules show ?thesis by simp
qed

text \<open>
  C16: \<open>rule_free_all\<close> leaves nothing behind. If no operation was lost and nothing refers to
  the rules, the loop frees every rule, every operation, every state and value, and no field
  is referred to any more.
\<close>

theorem rule_free_all_correct:
  fixes s :: "'a rule_state_scheme"
  assumes "rule_tight s" and "\<And>p rule. rule_heap s p = Some rule \<Longrightarrow> rl_refcnt rule = 0"
  shows "\<exists>s'. rule_free_all s = Some s' \<and> rule_heap s' = Map.empty \<and> rule_JS s' = [] \<and>
    op_heap s' = Map.empty \<and> memref_heap s' = Map.empty \<and>
    (\<forall>p fl. field_heap s' p = Some fl \<longrightarrow> fl_refcnt fl = 0)"
proof -
  obtain s' where s': "rule_free_all s = Some s'" "rule_tight s'" "rule_JS s' = []" "rule_heap s' = Map.empty"
    "op_heap s' = Map.empty" using rule_free_all_spec[OF assms] .
  have "op_inv s'" using s'(2) rule_invD(1) by (auto simp: rule_tight_def)
  from s' no_ops_empty[OF this s'(5)] show ?thesis by blast
qed

text \<open>A state with a rule.\<close>

definition rule_state2 :: rule_state where
  "rule_state2 = rule_state1\<lparr>next_addr := 3, rule_heap := [2 \<mapsto> rule_of ''r'' [] []], rule_JS := [(''r'', Some 2)]\<rparr>"

lemma rule_tight2: "rule_tight rule_state2"
  unfolding rule_tight_def
proof (rule rule_invI)
  show "op_inv rule_state2"
    by (rule op_inv_cong[OF op_inv_rule_state1]) (simp_all add: rule_state2_def rule_state1_def)
  have "refs_to rule_uses [2 \<mapsto> rule_of ''r'' [] []] q = 0" for q
    using refs_to_fresh[of Map.empty 2 rule_uses "rule_of ''r'' [] []"]
    by (simp add: rule_uses_def rule_ops_def rule_of_def jl_vals_def map_filter_simps)
  then show "rules_hold {} (op_heap rule_state2) (rule_heap rule_state2) []"
    by (simp add: rules_hold_def rule_state2_def rule_state1_def)
qed (auto simp: rule_state2_def rule_of_def registered_def rule_ok_def js_get_def judy_ok_def jl_dense_def MAXALLOC_def
    split: if_splits)

theorem rule_free_all_correct_witness:
  "\<exists>s'. rule_free_all rule_state2 = Some s' \<and> rule_heap s' = Map.empty \<and> rule_heap rule_state2 \<noteq> Map.empty"
proof -
  have "rl_refcnt rule = 0" if "rule_heap rule_state2 p = Some rule" for p rule
    using that by (auto simp: rule_state2_def rule_of_def split: if_splits)
  then obtain s' where "rule_free_all rule_state2 = Some s'" "rule_heap s' = Map.empty"
    using rule_free_all_correct[OF rule_tight2] by blast
  moreover have "rule_heap rule_state2 \<noteq> Map.empty" by (simp add: rule_state2_def)
  ultimately show ?thesis by blast
qed

end
