(* ===== verification/Checksums.thy ===== *)
theory Checksums
  imports Prelude
begin

text \<open>
  src/checksums.c: the checksums of an Ethernet frame before it is sent. The frame is a pointer
  into a buffer; \<open>len\<close> is the length of the packet, the list is all the memory behind the
  pointer. \<open>None\<close> is an access outside of it. Integers in the frame are read and written through
  pointers, so the byte order of the machine is a parameter.

  The specification is the one's complement sum of RFC 1071: a receiver adds the 16-bit words
  of a block in network order and accepts when the sum is a multiple of 65535.
\<close>

subsection \<open>The sums\<close>

datatype checksum_err = CHK_OK | CHK_INVAL | CHK_UNSUPPORTED | CHK_MALFORMED

definition checksum_strerr :: "checksum_err \<Rightarrow> string" where
  "checksum_strerr error =
     (case error of
        CHK_OK \<Rightarrow> ''CHK_OK: success''
      | CHK_INVAL \<Rightarrow> ''CHK_INVAL: provided values are not sane''
      | CHK_UNSUPPORTED \<Rightarrow> ''CHK_UNSUPPORTED: protocol or extension not supported''
      | CHK_MALFORMED \<Rightarrow> ''CHK_MALFORMED: malformed (invalid) header data'')"

definition byte_at :: "byte list \<Rightarrow> nat \<Rightarrow> byte option" where
  "byte_at buf i = (if i < length buf then Some (buf ! i) else None)"

text \<open>The loop over the 16-bit words, from offset \<open>i\<close> on.\<close>

fun ones_loop :: "endian \<Rightarrow> byte list \<Rightarrow> nat \<Rightarrow> nat \<Rightarrow> u32 \<Rightarrow> u32 option" where
  "ones_loop e buf i 0 acc = Some acc"
| "ones_loop e buf i (Suc n) acc =
     do { a \<leftarrow> byte_at buf i; b \<leftarrow> byte_at buf (i + 1);
          ones_loop e buf (i + 2) n (acc + ucast (load16 e a b)) }"

definition ones_sum :: "endian \<Rightarrow> byte list \<Rightarrow> nat \<Rightarrow> nat \<Rightarrow> u32 \<Rightarrow> u32 option" where
  "ones_sum e buf i byte_count acc =
     do { acc \<leftarrow> ones_loop e buf i (byte_count div 2) acc;
          if odd byte_count
          then do { a \<leftarrow> byte_at buf (i + byte_count - 1); Some (acc + ucast (load16 e a 0)) }
          else Some acc }"

definition ones_final :: "u32 \<Rightarrow> u16" where
  "ones_final acc =
     (let acc = drop_bit 16 acc + (acc AND 0xFFFF);
          acc = drop_bit 16 acc + (acc AND 0xFFFF)
      in ucast (NOT acc))"

subsection \<open>Checksums in a frame\<close>

text \<open>A store of two bytes.\<close>

definition store16 :: "byte list \<Rightarrow> nat \<Rightarrow> byte list \<Rightarrow> byte list option" where
  "store16 buf i bs = (if i + 2 \<le> length buf then Some (write_at buf i bs) else None)"

text \<open>
  \<open>check = 0; check = ones_final(ones_sum(start, n, sum));\<close> where \<open>check\<close> is at offset \<open>pos\<close>.
\<close>

definition put_check :: "endian \<Rightarrow> nat \<Rightarrow> nat \<Rightarrow> nat \<Rightarrow> u32 \<Rightarrow> byte list \<Rightarrow> byte list option" where
  "put_check e pos start n acc buf =
     do { buf \<leftarrow> store16 buf pos [0, 0];
          acc \<leftarrow> ones_sum e buf start n acc;
          store16 buf pos (host16 e (ones_final acc)) }"

text \<open>The last part of \<open>checksum\<close>: the protocol above IP.\<close>

definition checksum_l4 ::
  "endian \<Rightarrow> byte \<Rightarrow> nat \<Rightarrow> u16 \<Rightarrow> u32 \<Rightarrow> byte list \<Rightarrow> (checksum_err \<times> byte list) option"
where
  "checksum_l4 e proto l4 l4_len l4_sum buf =
     (if proto = 6 then
        do { buf \<leftarrow> put_check e (l4 + 16) l4 (unat l4_len) l4_sum buf; Some (CHK_OK, buf) }
      else if proto = 17 then
        do { buf \<leftarrow> put_check e (l4 + 6) l4 (unat l4_len) l4_sum buf;
             buf \<leftarrow> (if read_at buf (l4 + 6) 2 = [0, 0] then store16 buf (l4 + 6) [0xff, 0xff] else Some buf);
             Some (CHK_OK, buf) }
      else if proto = 1 then
        do { buf \<leftarrow> put_check e (l4 + 2) l4 (unat l4_len) 0 buf; Some (CHK_OK, buf) }
      else if proto = 58 then
        do { buf \<leftarrow> put_check e (l4 + 2) l4 (unat l4_len) l4_sum buf; Some (CHK_OK, buf) }
      else Some (CHK_UNSUPPORTED, buf))"

text \<open>
  The branches for IPv4 and IPv6. \<open>l3\<close> is the frame at offset 14, right after the Ethernet
  header. The length of what follows the IP header has 16 bits, and \<open>len - sizeof(*l2) -
  head_len\<close> is computed in \<open>size_t\<close>; both wrap around. \<open>stack\<close> is a 16-bit integer in memory.
\<close>

definition checksum_ip4 :: "endian \<Rightarrow> byte list \<Rightarrow> nat \<Rightarrow> (checksum_err \<times> byte list) option" where
  "checksum_ip4 e buf len =
     do { vihl \<leftarrow> byte_at buf 14;
          let head_len = 4 * unat (vihl AND 0x0f);
          if head_len < 20 \<or> head_len > 60 then Some (CHK_MALFORMED, buf)
          else do {
            t0 \<leftarrow> byte_at buf 16; t1 \<leftarrow> byte_at buf 17;
            let l4_len = load16 BE t0 t1 - of_nat head_len;
            if unat l4_len > unat ((of_nat len :: u64) - 14 - of_nat head_len) then Some (CHK_MALFORMED, buf)
            else do {
              buf \<leftarrow> put_check e 24 14 head_len 0 buf;
              l4_sum \<leftarrow> ones_sum e buf 26 4 0;
              l4_sum \<leftarrow> ones_sum e buf 30 4 l4_sum;
              proto \<leftarrow> byte_at buf 23;
              l4_sum \<leftarrow> ones_sum e (host16 e (push_bit 8 (ucast proto))) 0 2 l4_sum;
              l4_sum \<leftarrow> ones_sum e (host16 BE l4_len) 0 2 l4_sum;
              checksum_l4 e proto (14 + head_len) l4_len l4_sum buf } } }"

definition checksum_ip6 :: "endian \<Rightarrow> byte list \<Rightarrow> nat \<Rightarrow> (checksum_err \<times> byte list) option" where
  "checksum_ip6 e buf len =
     do { p0 \<leftarrow> byte_at buf 18; p1 \<leftarrow> byte_at buf 19;
          let l4_len = load16 BE p0 p1;
          if unat l4_len > unat ((of_nat len :: u64) - 14 - 40) then Some (CHK_UNSUPPORTED, buf)
          else do {
            l4_sum \<leftarrow> ones_sum e buf 22 16 0;
            l4_sum \<leftarrow> ones_sum e buf 38 16 l4_sum;
            l4_sum \<leftarrow> ones_sum e buf 18 2 l4_sum;
            nexthdr \<leftarrow> byte_at buf 20;
            l4_sum \<leftarrow> ones_sum e (host16 e (push_bit 8 (ucast nexthdr))) 0 2 l4_sum;
            checksum_l4 e nexthdr 54 l4_len l4_sum buf } }"

text \<open>The whole. \<open>frame\<close> is \<open>None\<close> for a NULL pointer.\<close>

definition checksum :: "endian \<Rightarrow> byte list option \<Rightarrow> nat \<Rightarrow> (checksum_err \<times> byte list) option" where
  "checksum e frame len =
     (case frame of
        None \<Rightarrow> Some (CHK_INVAL, [])
      | Some buf \<Rightarrow>
          if len \<le> 34 \<or> len > 65535 then Some (CHK_INVAL, buf)
          else do {
            h0 \<leftarrow> byte_at buf 12; h1 \<leftarrow> byte_at buf 13;
            if load16 BE h0 h1 \<noteq> 0x0800 then Some (CHK_UNSUPPORTED, buf)
            else do {
              v \<leftarrow> byte_at buf 14;
              if drop_bit 4 v = 4 then checksum_ip4 e buf len
              else if drop_bit 4 v = 6 then checksum_ip6 e buf len
              else Some (CHK_MALFORMED, buf) } })"

subsection \<open>What the sums are\<close>

text \<open>The sum of the 16-bit words of a block, an odd last byte padded with 0, as a number.\<close>

fun word_sum :: "endian \<Rightarrow> byte list \<Rightarrow> nat" where
  "word_sum e (a # b # bs) = unat (load16 e a b) + word_sum e bs"
| "word_sum e [a] = unat (load16 e a 0)"
| "word_sum e [] = 0"

lemma word_sum_append: "even (length xs) \<Longrightarrow> word_sum e (xs @ ys) = word_sum e xs + word_sum e ys"
  by (induction e xs rule: word_sum.induct) auto

lemma unat_load16:
  "unat (load16 LE a b) = unat a + 256 * unat b" "unat (load16 BE a b) = 256 * unat a + unat b"
proof -
  have or: "unat ((ucast x :: u16) OR push_bit 8 (ucast y)) = unat x + 256 * unat y" for x y :: byte
  proof -
    have "(ucast x :: u16) AND push_bit 8 (ucast y) = 0"
      by (rule bit_word_eqI) (auto simp: bit_simps dest: bit_imp_le_length)
    then have "(ucast x :: u16) OR push_bit 8 (ucast y) = ucast x + push_bit 8 (ucast y)"
      by (rule disjunctive_add_eq_or[symmetric])
    moreover have "unat x < 2 ^ 8" "unat y < 2 ^ 8"
      using unsigned_less[of x, where 'a = nat] unsigned_less[of y, where 'a = nat] by simp_all
    ultimately show ?thesis
      by (simp add: unat_word_ariths unsigned_ucast_eq push_bit_eq_mult take_bit_eq_mod)
  qed
  show "unat (load16 LE a b) = unat a + 256 * unat b" by (simp add: load16_def or)
  have "push_bit 8 (ucast a) OR (ucast b :: u16) = ucast b OR push_bit 8 (ucast a)" by (rule or.commute)
  then show "unat (load16 BE a b) = 256 * unat a + unat b" by (simp add: load16_def or)
qed

lemma load16_lt: "unat (load16 e a b) \<le> 65535"
  using unsigned_less[of "load16 e a b", where 'a = nat] by simp

lemma word_sum_le: "word_sum e bs \<le> 65535 * ((length bs + 1) div 2)"
proof (induction e bs rule: word_sum.induct)
  case (1 e a b bs)
  have "(length (a # b # bs) + 1) div 2 = (length bs + 1) div 2 + 1" by simp
  with 1 load16_lt[of e a b] show ?case by (simp add: algebra_simps)
qed (use load16_lt in auto)

text \<open>The loop computes it, in 32 bits.\<close>

lemma byte_at_eq [simp]: "i < length buf \<Longrightarrow> byte_at buf i = Some (buf ! i)"
  by (simp add: byte_at_def)

lemma read_at_Suc: "i < length buf \<Longrightarrow> read_at buf i (Suc n) = buf ! i # read_at buf (i + 1) n"
  by (simp add: read_at_def Cons_nth_drop_Suc[symmetric])

lemma ones_loop_eq:
  "i + 2 * n \<le> length buf \<Longrightarrow> ones_loop e buf i n acc = Some (acc + of_nat (word_sum e (read_at buf i (2 * n))))"
proof (induction n arbitrary: i acc)
  case (Suc n)
  have "read_at buf i (2 * Suc n) = buf ! i # buf ! (i + 1) # read_at buf (i + 2) (2 * n)"
    using Suc.prems by (simp add: read_at_Suc)
  with Suc show ?case by (simp add: add.assoc)
qed (simp add: read_at_def)

lemma read_at_split: "read_at buf i (m + n) = read_at buf i m @ read_at buf (i + m) n"
  by (simp add: read_at_def take_add add.commute)

lemma ones_sum_eq:
  assumes "i + n \<le> length buf"
  shows "ones_sum e buf i n acc = Some (acc + of_nat (word_sum e (read_at buf i n)))"
proof (cases "even n")
  case True
  then have "2 * (n div 2) = n" by simp
  with True assms ones_loop_eq[of i "n div 2" buf e acc] show ?thesis by (simp add: ones_sum_def)
next
  case False
  define k where "k = n div 2"
  have n: "n = 2 * k + 1" using False by (simp add: k_def)
  have "word_sum e (read_at buf i n) = word_sum e (read_at buf i (2 * k)) + unat (load16 e (buf ! (i + 2 * k)) 0)"
  proof -
    have "read_at buf (i + 2 * k) 1 = [buf ! (i + 2 * k)]"
      using assms read_at_Suc[of "i + 2 * k" buf 0] by (simp add: n) (simp add: read_at_def)
    then show ?thesis using assms by (simp add: n read_at_split[of buf i "2 * k" 1] word_sum_append del: One_nat_def add_Suc_right)
  qed
  with assms ones_loop_eq[of i k buf e acc] show ?thesis
    by (simp add: ones_sum_def n add.assoc)
qed

text \<open>It reads all of its block.\<close>

lemma ones_loop_oob: "length buf < i + 2 * n \<Longrightarrow> 0 < n \<Longrightarrow> ones_loop e buf i n acc = None"
proof (induction n arbitrary: i acc)
  case (Suc n)
  show ?case
  proof (cases "i + 1 < length buf")
    case True
    with Suc.prems have "0 < n" "length buf < i + 2 + 2 * n" by (cases n; simp)+
    with Suc.IH True show ?thesis by simp
  qed (simp add: byte_at_def)
qed simp

lemma ones_sum_oob:
  assumes "length buf < i + n" and "1 < n"
  shows "ones_sum e buf i n acc = None"
proof (cases "length buf < i + 2 * (n div 2)")
  case True
  with assms ones_loop_oob[OF True, of e acc] show ?thesis by (simp add: ones_sum_def)
next
  case False
  then have "odd n" using assms by (cases "even n") auto
  with False assms ones_loop_eq[of i "n div 2" buf e acc] show ?thesis
    by (auto simp: ones_sum_def byte_at_def)
qed

text \<open>Two folds are enough.\<close>

definition fold16 :: "nat \<Rightarrow> nat" where
  "fold16 n = n div 65536 + n mod 65536"

lemma fold16_mod: "fold16 n mod 65535 = n mod 65535"
proof -
  have "n = fold16 n + 65535 * (n div 65536)"
    unfolding fold16_def using div_mult_mod_eq[of n 65536] by linarith
  then show ?thesis by (metis mod_mult_self2)
qed

lemma unat_fold16: "unat (drop_bit 16 x + (x AND 0xFFFF) :: u32) = fold16 (unat x)"
proof -
  have small: "unat x < 2 ^ 32" using unsigned_less[of x, where 'a = nat] by simp
  have "x AND 0xFFFF = take_bit 16 x" by (simp add: take_bit_eq_mask mask_eq_exp_minus_1)
  then have lo: "unat (x AND 0xFFFF) = unat x mod 65536"
    by (simp only: unsigned_take_bit_eq) (simp add: take_bit_eq_mod)
  have hi: "unat (drop_bit 16 x) = unat x div 65536"
    by (simp only: unsigned_drop_bit_eq) (simp add: drop_bit_eq_div take_bit_nat_eq_self[OF small])
  from small have "unat x div 65536 < 65536" by (simp add: less_mult_imp_div_less)
  then have "unat x div 65536 + unat x mod 65536 < 2 ^ 32" by simp
  then show ?thesis by (simp add: unat_word_ariths lo hi fold16_def)
qed

lemma fold16_le:
  assumes "n \<le> 131070"
  shows "fold16 n \<le> 65535"
proof (cases "n < 65536")
  case False
  then have "n div 65536 = 1" using assms by (intro div_nat_eqI) simp_all
  moreover from this have "n mod 65536 = n - 65536" by (simp add: minus_div_mult_eq_mod[symmetric])
  ultimately show ?thesis using assms by (simp add: fold16_def)
qed (simp add: fold16_def)

lemma fold16_32: "n < 2 ^ 32 \<Longrightarrow> fold16 n \<le> 131070"
  unfolding fold16_def using less_mult_imp_div_less[of n 65536 65536] mod_less_divisor[of 65536 n] by simp

lemma fold16_zero: "fold16 n = 0 \<longleftrightarrow> n = 0"
  unfolding fold16_def using div_mult_mod_eq[of n 65536] by auto

lemma unat_not16: "unat (NOT u :: u16) = 65535 - unat u"
proof -
  have "NOT u = 65535 - u" by (simp add: not_eq_complement)
  moreover have "u \<le> 65535" using unsigned_less[of u, where 'a = nat] by (simp add: word_le_nat_alt)
  ultimately show ?thesis by (simp add: unat_sub_if' word_le_nat_alt)
qed

lemma unat_ones_final: "unat (ones_final acc) = 65535 - fold16 (fold16 (unat acc))"
proof -
  define w where "w = (let s = drop_bit 16 acc + (acc AND 0xFFFF) in drop_bit 16 s + (s AND 0xFFFF))"
  have w: "unat w = fold16 (fold16 (unat acc))" by (simp add: w_def Let_def unat_fold16)
  have "unat acc < 2 ^ 32" using unsigned_less[of acc, where 'a = nat] by simp
  then have "unat w \<le> 65535" unfolding w by (intro fold16_le fold16_32)
  then have "unat (ucast w :: u16) = unat w" by (simp add: unsigned_ucast_eq take_bit_nat_eq_self)
  moreover have "ucast (NOT w) = (NOT (ucast w) :: u16)" by (rule bit_word_eqI) (simp add: bit_simps)
  moreover have "ones_final acc = ucast (NOT w)" by (simp add: ones_final_def w_def Let_def)
  ultimately show ?thesis by (simp add: unat_not16 w)
qed

text \<open>Storing the result where the block had two zero bytes makes the sum come out right.\<close>

lemma ones_final_cancels: "(unat acc + unat (ones_final acc)) mod 65535 = 0"
proof -
  let ?f = "fold16 (fold16 (unat acc))"
  have "unat acc < 2 ^ 32" using unsigned_less[of acc, where 'a = nat] by simp
  then have le: "?f \<le> 65535" by (intro fold16_le fold16_32)
  have "(unat acc + (65535 - ?f)) mod 65535 = (?f + (65535 - ?f)) mod 65535"
    by (rule mod_add_cong) (simp_all add: fold16_mod)
  then show ?thesis using le by (simp add: unat_ones_final)
qed

lemma host16_load16: "host16 e (load16 e a b) = [a, b]"
  by (cases e) (auto simp: host16_def load16_def bit_simps intro!: bit_word_eqI, (drule bit_imp_le_length, simp)+)

lemma load16_host16:
  obtains a b where "host16 e c = [a, b]" "load16 e a b = c"
proof
  show "host16 e c = [case e of LE \<Rightarrow> ucast c | BE \<Rightarrow> ucast (drop_bit 8 c),
      case e of LE \<Rightarrow> ucast (drop_bit 8 c) | BE \<Rightarrow> ucast c]"
    by (simp add: host16_def split: endian.split)
  show "load16 e (case e of LE \<Rightarrow> ucast c | BE \<Rightarrow> ucast (drop_bit 8 c))
      (case e of LE \<Rightarrow> ucast (drop_bit 8 c) | BE \<Rightarrow> ucast c) = c"
    by (cases e) (auto simp: load16_def bit_simps intro!: bit_word_eqI)
qed

text \<open>The two byte orders give sums that differ by a factor of 256, modulo 65535.\<close>

lemma word_sum_orders: "word_sum BE bs mod 65535 = 256 * word_sum LE bs mod 65535"
proof (induction LE bs rule: word_sum.induct)
  case (1 a b bs)
  have "256 * unat (load16 LE a b) = unat (load16 BE a b) + 65535 * unat b" by (simp add: unat_load16)
  then have "256 * unat (load16 LE a b) mod 65535 = unat (load16 BE a b) mod 65535" by simp
  with 1 show ?case by (simp add: distrib_left) (metis mod_add_cong)
next
  case (2 a)
  have "256 * unat (load16 LE a 0) = unat (load16 BE a 0)" by (simp add: unat_load16)
  then show ?case by simp
qed simp

lemma word_sum_zero: "word_sum e bs = 0 \<longleftrightarrow> set bs \<subseteq> {0}"
proof (induction e bs rule: word_sum.induct)
  case (1 e a b bs)
  have "unat (load16 e a b) = 0 \<longleftrightarrow> a = 0 \<and> b = 0"
    by (cases e) (auto simp: unat_load16 unat_eq_zero)
  with 1 show ?case by auto
next
  case (2 e a)
  have "unat (load16 e a 0) = 0 \<longleftrightarrow> a = 0" by (cases e) (auto simp: unat_load16 unat_eq_zero)
  then show ?case by auto
qed simp

lemma mod_65535_inj:
  fixes x y :: nat
  assumes "x mod 65535 = y mod 65535" "x \<le> 65535" "y \<le> 65535" "x = 0 \<longleftrightarrow> y = 0"
  shows "x = y"
  using assms by (cases "x = 65535"; cases "y = 65535") auto

definition swap16 :: "nat \<Rightarrow> nat" where
  "swap16 n = 256 * (n mod 256) + n div 256"

lemma swap16_mod: "swap16 n mod 65535 = 256 * n mod 65535"
proof -
  have "256 * n = 65535 * (n div 256) + swap16 n"
    unfolding swap16_def using div_mult_mod_eq[of n 256] by linarith
  then show ?thesis by (metis mod_mult_self4 mult.commute)
qed

lemma swap16_le:
  assumes "n \<le> 65535"
  shows "swap16 n \<le> 65535"
proof -
  have "n < 256 * 256" using assms by simp
  then have "n div 256 < 256" by (rule less_mult_imp_div_less)
  moreover have "n mod 256 \<le> 255" using mod_less_divisor[of 256 n] by linarith
  ultimately show ?thesis by (simp add: swap16_def)
qed

lemma word_sum_bound: "length bs \<le> 131070 \<Longrightarrow> word_sum e bs < 2 ^ 32"
  using word_sum_le[of e bs] div_le_mono[of "length bs + 1" 131071 2] by simp

lemma ones_final_orders:
  assumes "length bs \<le> 131070"
  shows "host16 LE (ones_final (of_nat (word_sum LE bs))) = host16 BE (ones_final (of_nat (word_sum BE bs)))"
proof -
  let ?f = "\<lambda>e. fold16 (fold16 (word_sum e bs))"
  have u: "unat (of_nat (word_sum e bs) :: u32) = word_sum e bs" for e
    using word_sum_bound[OF assms, of e] by (simp add: unat_of_nat take_bit_nat_eq_self)
  have le: "?f e \<le> 65535" for e using word_sum_bound[OF assms, of e] by (intro fold16_le fold16_32)
  have "?f BE = swap16 (?f LE)"
  proof (rule mod_65535_inj)
    show "?f BE mod 65535 = swap16 (?f LE) mod 65535"
      unfolding swap16_mod fold16_mod word_sum_orders
      by (metis fold16_mod mod_mult_right_eq)
    have "swap16 m = 0 \<longleftrightarrow> m = 0" for m
      unfolding swap16_def using div_mult_mod_eq[of m 256] by auto
    then show "?f BE = 0 \<longleftrightarrow> swap16 (?f LE) = 0" by (simp add: fold16_zero word_sum_zero)
  qed (use le swap16_le in auto)
  then have BE: "unat (ones_final (of_nat (word_sum BE bs))) = 65535 - swap16 (?f LE)"
    by (simp add: unat_ones_final u)
  obtain a b where ab: "host16 LE (ones_final (of_nat (word_sum LE bs))) = [a, b]"
    "load16 LE a b = ones_final (of_nat (word_sum LE bs))" by (rule load16_host16)
  have "unat a + 256 * unat b = 65535 - ?f LE"
    using arg_cong[OF ab(2), of unat] by (simp add: unat_load16 unat_ones_final u)
  then have f: "?f LE = 256 * (255 - unat b) + (255 - unat a)"
    using le[of LE] unsigned_less[of a, where 'a = nat] unsigned_less[of b, where 'a = nat] by simp
  have "swap16 (?f LE) = 256 * (255 - unat a) + (255 - unat b)" unfolding f swap16_def by simp
  then have "unat (ones_final (of_nat (word_sum BE bs))) = unat (load16 BE a b)"
    unfolding BE using unsigned_less[of a, where 'a = nat] unsigned_less[of b, where 'a = nat]
    by (simp add: unat_load16)
  then have "ones_final (of_nat (word_sum BE bs)) = load16 BE a b" by (rule unsigned_word_eqI)
  then show ?thesis using ab(1) by (simp add: host16_load16)
qed

text \<open>
  The checksum of RFC 1071: the words of the block in network order, an odd last byte padded
  with a zero, are added in ones' complement arithmetic, where a carry out of the top comes in
  again at the bottom, and the sum is complemented.
\<close>

definition oc_add :: "u16 \<Rightarrow> u16 \<Rightarrow> u16" where
  "oc_add x y = (if unat x + unat y < 65536 then x + y else x + y + 1)"

fun oc_sum :: "byte list \<Rightarrow> u16" where
  "oc_sum (a # b # bs) = oc_add (of_nat (256 * unat a + unat b)) (oc_sum bs)"
| "oc_sum [a] = of_nat (256 * unat a)"
| "oc_sum [] = 0"

definition rfc1071 :: "byte list \<Rightarrow> u16" where
  "rfc1071 bs = NOT (oc_sum bs)"

lemma unat_oc_add:
  "unat (oc_add x y) = (if unat x + unat y < 65536 then unat x + unat y else unat x + unat y - 65535)"
proof (cases "unat x + unat y < 65536")
  case True
  then show ?thesis by (simp add: oc_add_def unat_word_ariths)
next
  case False
  have "unat x < 65536" "unat y < 65536"
    using unsigned_less[of x, where 'a = nat] unsigned_less[of y, where 'a = nat] by simp_all
  with False have "(unat x + unat y) mod 65536 = unat x + unat y - 65536"
    by (simp add: le_mod_geq)
  with False \<open>unat x < 65536\<close> \<open>unat y < 65536\<close> show ?thesis by (simp add: oc_add_def unat_word_ariths)
qed

lemma oc_add_mod: "unat (oc_add x y) mod 65535 = (unat x + unat y) mod 65535"
  by (simp add: unat_oc_add le_mod_geq)

lemma oc_add_zero: "unat (oc_add x y) = 0 \<longleftrightarrow> unat x + unat y = 0"
  by (auto simp: unat_oc_add)

lemma unat_small16: "n < 65536 \<Longrightarrow> unat (of_nat n :: u16) = n"
  by (simp add: unat_of_nat take_bit_nat_eq_self)

lemma unat_net16: "unat (of_nat (256 * unat a + unat (b :: byte)) :: u16) = 256 * unat (a :: byte) + unat b"
  by (rule unat_small16) (use unsigned_less[of a, where 'a = nat] unsigned_less[of b, where 'a = nat] in simp)

lemma oc_sum_word_sum:
  "unat (oc_sum bs) mod 65535 = word_sum BE bs mod 65535 \<and> (unat (oc_sum bs) = 0 \<longleftrightarrow> word_sum BE bs = 0)"
proof (induction bs rule: oc_sum.induct)
  case (1 a b bs)
  then show ?case
    unfolding oc_sum.simps word_sum.simps oc_add_mod oc_add_zero unat_net16 unat_load16
    by (auto intro: mod_add_cong)
next
  case (2 a)
  then show ?case using unat_net16[of a 0] by (simp add: unat_load16)
qed simp

lemma ones_final_rfc1071:
  assumes "length bs \<le> 131070"
  shows "ones_final (of_nat (word_sum BE bs)) = rfc1071 bs"
proof -
  let ?f = "fold16 (fold16 (word_sum BE bs))"
  note bound = word_sum_bound[OF assms, of BE]
  have "unat (oc_sum bs) = ?f"
  proof (rule mod_65535_inj)
    show "unat (oc_sum bs) mod 65535 = ?f mod 65535" using oc_sum_word_sum[of bs] by (simp add: fold16_mod)
    show "unat (oc_sum bs) = 0 \<longleftrightarrow> ?f = 0" using oc_sum_word_sum[of bs] by (simp add: fold16_zero)
    show "?f \<le> 65535" using bound by (intro fold16_le fold16_32)
    show "unat (oc_sum bs) \<le> 65535" using unsigned_less[of "oc_sum bs", where 'a = nat] by simp
  qed
  then have "unat (ones_final (of_nat (word_sum BE bs))) = unat (rfc1071 bs)"
    using bound by (simp add: unat_ones_final rfc1071_def unat_not16 unat_of_nat take_bit_nat_eq_self)
  then show ?thesis by (rule unsigned_word_eqI)
qed

text \<open>
  C23: the checksum is that of RFC 1071, for both byte orders of the machine. Over any block of
  up to 65535 bytes that lies in memory, also of odd length, \<open>ones_sum\<close> and \<open>ones_final\<close> leave a
  word whose bytes, as the machine stores them, are those of the checksum in network order.
\<close>

theorem ones_sum_rfc1071:
  assumes "i + n \<le> length buf" and "n \<le> 65535"
  shows "\<exists>a. ones_sum e buf i n 0 = Some a \<and> host16 e (ones_final a) = host16 BE (rfc1071 (read_at buf i n))"
proof -
  have "length (read_at buf i n) \<le> 131070" using assms by simp
  from ones_final_orders[OF this] ones_final_rfc1071[OF this]
  have "host16 e (ones_final (of_nat (word_sum e (read_at buf i n)))) = host16 BE (rfc1071 (read_at buf i n))"
    by (cases e) simp_all
  then show ?thesis using ones_sum_eq[OF assms(1), of e 0] by simp
qed

text \<open>The example of RFC 1071, section 3: its words sum up to 0xddf2.\<close>

theorem ones_sum_rfc1071_witness:
  "\<exists>a. ones_sum LE [0x00, 0x01, 0xf2, 0x03, 0xf4, 0xf5, 0xf6, 0xf7] 0 8 0 = Some a \<and>
     host16 LE (ones_final a) = [0x22, 0x0d]"
proof -
  have "host16 BE (rfc1071 (read_at [0x00, 0x01, 0xf2, 0x03, 0xf4, 0xf5, 0xf6, 0xf7] 0 8)) = [0x22, 0x0d]"
    by (simp add: rfc1071_def read_at_def oc_add_def host16_def)
  with ones_sum_rfc1071[of 0 8 "[0x00, 0x01, 0xf2, 0x03, 0xf4, 0xf5, 0xf6, 0xf7]" LE] show ?thesis by simp
qed

subsection \<open>Storing a checksum\<close>

lemma read_at_write_split:
  assumes "start \<le> pos" and "pos + length bs \<le> start + n" and "start + n \<le> length buf"
  shows "read_at (write_at buf pos bs) start n =
    read_at buf start (pos - start) @ bs @ read_at buf (pos + length bs) (start + n - (pos + length bs))"
  using assms by (intro nth_equalityI) (auto simp: nth_write_at nth_append add.commute)

lemma word_sum_two: "word_sum e (host16 e c @ bs) = unat c + word_sum e bs"
proof -
  obtain a b where "host16 e c = [a, b]" "load16 e a b = c" by (rule load16_host16)
  then show ?thesis by simp
qed

lemma load16_zero [simp]: "load16 e 0 0 = 0"
  by (cases e) (simp_all add: load16_def)

text \<open>What is stored makes the sum of the block, and of what was summed before, a multiple of 65535.\<close>

lemma put_check_ok:
  assumes b: "start \<le> pos" "even (pos - start)" "pos + 2 \<le> start + n" "start + n \<le> length buf"
    and n: "n \<le> 65535" and acc: "unat acc < 2 ^ 24"
  obtains c where "put_check e pos start n acc buf = Some (write_at buf pos c)" "length c = 2"
    "(unat acc + word_sum e (read_at (write_at buf pos c) start n)) mod 65535 = 0"
proof -
  let ?w = "\<lambda>c. write_at buf pos c"
  let ?rest = "word_sum e (read_at buf start (pos - start)) + word_sum e (read_at buf (pos + 2) (start + n - (pos + 2)))"
  define acc' where "acc' = acc + of_nat (word_sum e (read_at (?w [0, 0]) start n))"
  let ?c = "host16 e (ones_final acc')"
  have len: "length (?w [0, 0]) = length buf" using b by simp
  have ev: "even (length (read_at buf start (pos - start)))" using b by simp
  have sum: "word_sum e (read_at (?w c) start n) =
      word_sum e (read_at buf start (pos - start)) + word_sum e (c @ read_at buf (pos + 2) (start + n - (pos + 2)))"
    if "length c = 2" for c
    using read_at_write_split[of start pos c n buf] b that by (simp add: word_sum_append[OF ev])
  have s0: "word_sum e (read_at (?w [0, 0]) start n) = ?rest" using sum[of "[0, 0]"] by simp
  have s1: "word_sum e (read_at (?w ?c) start n) = unat (ones_final acc') + ?rest"
    using sum[of ?c] by (simp add: word_sum_two)
  have "word_sum e (read_at (?w [0, 0]) start n) < 2 ^ 31"
    using word_sum_le[of e "read_at (?w [0, 0]) start n"] div_le_mono[of "n + 1" 65536 2] b n len by simp
  then have "unat acc' = unat acc + ?rest"
    using acc unfolding acc'_def s0
    by (simp add: unat_word_ariths unat_of_nat take_bit_nat_eq_self)
  then have ok: "(unat acc + word_sum e (read_at (?w ?c) start n)) mod 65535 = 0"
    using ones_final_cancels[of acc'] unfolding s1 by (simp only: ac_simps)
  have "write_at (?w [0, 0]) pos ?c = ?w ?c"
    using b by (simp add: write_at_def)
  then have "put_check e pos start n acc buf = Some (?w ?c)"
    using b len ones_sum_eq[of start n "?w [0, 0]" e acc]
    by (simp add: put_check_def store16_def acc'_def)
  with that[of ?c] ok show ?thesis by simp
qed

text \<open>The offset of the checksum in the header of each protocol.\<close>

definition l4_check :: "byte \<Rightarrow> nat" where
  "l4_check proto = (if proto = 6 then 16 else if proto = 17 then 6 else 2)"

lemma checksum_l4_ok:
  assumes proto: "proto \<in> {1, 6, 17, 58}"
    and len: "l4_check proto + 2 \<le> unat l4_len" "l4 + unat l4_len \<le> length buf" and acc: "unat acc < 2 ^ 24"
  obtains c where "checksum_l4 e proto l4 l4_len acc buf = Some (CHK_OK, write_at buf (l4 + l4_check proto) c)"
    "length c = 2" "proto = 17 \<Longrightarrow> c \<noteq> [0, 0]"
    "((if proto = 1 then 0 else unat acc) +
      word_sum e (read_at (write_at buf (l4 + l4_check proto) c) l4 (unat l4_len))) mod 65535 = 0"
proof -
  let ?pos = "l4 + l4_check proto" and ?acc = "if proto = 1 then 0 else acc"
  let ?n = "unat l4_len"
  have n: "?n \<le> 65535" using unsigned_less[of l4_len, where 'a = nat] by simp
  have ev: "even (?pos - l4)" by (simp add: l4_check_def)
  obtain c where c: "put_check e ?pos l4 ?n ?acc buf = Some (write_at buf ?pos c)" "length c = 2"
    "(unat ?acc + word_sum e (read_at (write_at buf ?pos c) l4 ?n)) mod 65535 = 0"
    by (rule put_check_ok[of l4 ?pos ?n buf ?acc e]) (use len n acc ev in auto)
  have u: "unat ?acc = (if proto = 1 then 0 else unat acc)" by simp
  show ?thesis
  proof (cases "proto = 17 \<and> c = [0, 0]")
    case False
    have "read_at (write_at buf ?pos c) ?pos 2 = c" using read_write_same[of ?pos c buf] c(2) len by simp
    then have "checksum_l4 e proto l4 l4_len acc buf = Some (CHK_OK, write_at buf ?pos c)"
      using c(1) proto False by (auto simp: checksum_l4_def l4_check_def)
    with that[of c] c(2,3) False u show ?thesis by auto
  next
    case True
    let ?c = "[0xff, 0xff] :: byte list"
    have "read_at (write_at buf ?pos c) ?pos 2 = [0, 0]" using read_write_same[of ?pos c buf] True len by (simp add: numeral_2_eq_2)
    moreover have "write_at (write_at buf ?pos c) ?pos ?c = write_at buf ?pos ?c"
      using True len by (simp add: write_at_def)
    ultimately have "checksum_l4 e proto l4 l4_len acc buf = Some (CHK_OK, write_at buf ?pos ?c)"
      using c(1) True len by (simp add: checksum_l4_def l4_check_def store16_def)
    moreover have "word_sum e (read_at (write_at buf ?pos ?c) l4 ?n) =
        65535 + word_sum e (read_at (write_at buf ?pos c) l4 ?n)"
    proof -
      have even: "even (length (read_at buf l4 (l4_check 17)))" using len True by (simp add: l4_check_def)
      have "unat (load16 e 0xff 0xff) = 65535" by (cases e) (simp_all add: unat_load16)
      then show ?thesis
        using read_at_write_split[of l4 ?pos ?c ?n buf] read_at_write_split[of l4 ?pos c ?n buf] len True
        by (simp add: word_sum_append[OF even])
    qed
    ultimately show ?thesis using that[of ?c] c(3) True u by (simp add: add.left_commute[of _ 65535])
  qed
qed

subsection \<open>What a receiver checks\<close>

text \<open>
  RFC 1071, RFC 791, RFC 768, RFC 793, RFC 8200: a block is valid when its words in network
  order sum up to a multiple of 65535; TCP, UDP and ICMPv6 prepend a pseudo header.
\<close>

definition inet_valid :: "byte list \<Rightarrow> bool" where
  "inet_valid bs \<longleftrightarrow> word_sum BE bs mod 65535 = 0"

definition pseudo4 :: "byte list \<Rightarrow> nat \<Rightarrow> byte list" where
  "pseudo4 buf l4_len = read_at buf 26 4 @ read_at buf 30 4 @ [0, buf ! 23] @ host16 BE (of_nat l4_len)"

definition pseudo6 :: "byte list \<Rightarrow> nat \<Rightarrow> byte list" where
  "pseudo6 buf l4_len = read_at buf 22 16 @ read_at buf 38 16 @ host32 BE (of_nat l4_len) @ [0, 0, 0, buf ! 20]"

lemma inet_valid_LE: "word_sum LE bs mod 65535 = 0 \<Longrightarrow> inet_valid bs"
  unfolding inet_valid_def word_sum_orders by (simp add: mod_mult_right_eq[symmetric])

text \<open>
  A frame with an IPv4 packet whose lengths are consistent: the header has at least its 20
  bytes, the frame is as long as the packet says, and the protocol is a known one with
  room for its checksum.
\<close>

definition ip4_head :: "byte list \<Rightarrow> nat" where
  "ip4_head buf = 4 * unat (buf ! 14 AND 0x0f)"

definition ip4_total :: "byte list \<Rightarrow> nat" where
  "ip4_total buf = unat (load16 BE (buf ! 16) (buf ! 17))"

definition ip4_frame :: "byte list \<Rightarrow> nat \<Rightarrow> bool" where
  "ip4_frame buf len \<longleftrightarrow> 34 < len \<and> len \<le> 65535 \<and> len \<le> length buf \<and>
     load16 BE (buf ! 12) (buf ! 13) = 0x0800 \<and> drop_bit 4 (buf ! 14) = 4 \<and> 20 \<le> ip4_head buf \<and>
     buf ! 23 \<in> {1, 6, 17, 58} \<and> ip4_head buf + l4_check (buf ! 23) + 2 \<le> ip4_total buf \<and>
     14 + ip4_total buf \<le> len"

definition ip4_checked :: "byte list \<Rightarrow> byte list \<Rightarrow> bool" where
  "ip4_checked buf buf' \<longleftrightarrow>
     (let h = ip4_head buf; n = ip4_total buf - h; proto = buf ! 23; pos = 14 + h + l4_check proto
      in length buf' = length buf \<and>
         (\<forall>i < length buf. i \<notin> {24, 25, pos, pos + 1} \<longrightarrow> buf' ! i = buf ! i) \<and>
         inet_valid (read_at buf' 14 h) \<and>
         inet_valid ((if proto = 1 then [] else pseudo4 buf' n) @ read_at buf' (14 + h) n) \<and>
         (proto = 17 \<longrightarrow> read_at buf' pos 2 \<noteq> [0, 0]))"

lemma ip4_head_le: "ip4_head buf \<le> 60"
proof -
  have "buf ! 14 AND 0x0f \<le> 0x0f" by (rule word_and_le1)
  then show ?thesis by (simp add: ip4_head_def word_le_nat_alt)
qed

lemma ip4_head_even: "even (ip4_head buf)"
  by (simp add: ip4_head_def)

text \<open>Sums over bytes that a store leaves alone.\<close>

lemma stack16_LE: "host16 LE (push_bit 8 (ucast p)) = [0, p :: byte]"
  by (auto simp: host16_def bit_simps intro!: bit_word_eqI)

lemma ones_sum_stack: "length bs = 2 \<Longrightarrow> ones_sum e bs 0 2 acc = Some (acc + of_nat (word_sum e bs))"
  using ones_sum_eq[of 0 2 bs e acc] by (simp add: read_at_def)

lemma word_sum_LE_small: "length bs \<le> 256 \<Longrightarrow> word_sum LE bs < 2 ^ 24"
  using word_sum_le[of LE bs] div_le_mono[of "length bs + 1" 257 2] by simp

lemma unat_small: "n < 2 ^ 24 \<Longrightarrow> unat (of_nat n :: u32) = n"
  by (simp add: unat_of_nat take_bit_nat_eq_self)

lemma ones_sum_pseudo4:
  assumes "34 \<le> length buf"
  shows "do { s \<leftarrow> ones_sum LE buf 26 4 0; s \<leftarrow> ones_sum LE buf 30 4 s;
      p \<leftarrow> byte_at buf 23;
      s \<leftarrow> ones_sum LE (host16 LE (push_bit 8 (ucast p))) 0 2 s;
      s \<leftarrow> ones_sum LE (host16 BE l4_len) 0 2 s; f p s } =
    f (buf ! 23) (of_nat (word_sum LE (pseudo4 buf (unat l4_len))))"
proof -
  obtain a b where ab: "host16 BE l4_len = [a, b]" by (rule load16_host16)
  have "word_sum LE (pseudo4 buf (unat l4_len)) = word_sum LE (read_at buf 26 4) + (word_sum LE (read_at buf 30 4) +
      (unat (load16 LE 0 (buf ! 23)) + unat (load16 LE a b)))"
    using assms by (simp add: pseudo4_def word_sum_append ab)
  moreover have "ones_sum LE buf 26 4 acc = Some (acc + of_nat (word_sum LE (read_at buf 26 4)))"
    "ones_sum LE buf 30 4 acc = Some (acc + of_nat (word_sum LE (read_at buf 30 4)))" for acc
    using assms by (simp_all add: ones_sum_eq)
  ultimately show ?thesis
    using assms by (simp add: stack16_LE ones_sum_stack ab add.assoc)
qed

lemma unat_l4_len:
  assumes "h \<le> unat (t :: u16)"
  shows "unat (t - of_nat h) = unat t - h"
proof -
  have "unat t < 65536" using unsigned_less[of t, where 'a = nat] by simp
  then have "unat (of_nat h :: u16) = h" using assms by (simp add: unat_of_nat take_bit_nat_eq_self)
  with assms show ?thesis by (simp add: unat_sub_if' )
qed

lemma unat_available:
  assumes "14 + h \<le> len" and "len \<le> 65535"
  shows "unat ((of_nat len :: u64) - 14 - of_nat h) = len - 14 - h"
proof -
  define k where "k = len - 14 - h"
  then have len: "len = k + 14 + h" using assms by simp
  have "(of_nat len :: u64) - 14 - of_nat h = of_nat k" by (simp add: len)
  moreover have "k < 2 ^ 64" using assms len by simp
  ultimately show ?thesis by (simp add: unat_of_nat take_bit_nat_eq_self len)
qed

lemma read_at_write_before:
  "length c = 2 \<Longrightarrow> i + n \<le> pos \<Longrightarrow> pos + 2 \<le> length buf \<Longrightarrow> read_at (write_at buf pos c) i n = read_at buf i n"
  by (rule read_write_other) auto

lemma checksum_ip4_spec:
  assumes F: "ip4_frame buf len"
  shows "\<exists>buf'. checksum LE (Some buf) len = Some (CHK_OK, buf') \<and> ip4_checked buf buf'"
proof -
  define h where "h = ip4_head buf"
  define n where "n = ip4_total buf - h"
  define proto where "proto = buf ! 23"
  define l4_len where "l4_len = load16 BE (buf ! 16) (buf ! 17) - of_nat h"
  let ?pos = "14 + h + l4_check proto"
  have len: "34 < len" "len \<le> 65535" "len \<le> length buf" and p: "proto \<in> {1, 6, 17, 58}"
    and h: "20 \<le> h" "h \<le> 60" "even h" and tot: "h + l4_check proto + 2 \<le> ip4_total buf" "14 + ip4_total buf \<le> len"
    using F ip4_head_le ip4_head_even by (simp_all add: ip4_frame_def h_def proto_def)
  have un: "unat l4_len = n"
    using unat_l4_len[of h "load16 BE (buf ! 16) (buf ! 17)"] tot by (simp add: l4_len_def n_def ip4_total_def)
  have n: "l4_check proto + 2 \<le> n" "14 + h + n \<le> len" using tot by (simp_all add: n_def)
  obtain c1 where c1: "put_check LE 24 14 h 0 buf = Some (write_at buf 24 c1)" "length c1 = 2"
    "(unat (0 :: u32) + word_sum LE (read_at (write_at buf 24 c1) 14 h)) mod 65535 = 0"
    by (rule put_check_ok[of 14 24 h buf 0 LE]) (use h len n in auto)
  define buf1 where "buf1 = write_at buf 24 c1"
  have l1: "length buf1 = length buf" using c1(2) len by (simp add: buf1_def)
  define acc where "acc = (of_nat (word_sum LE (pseudo4 buf1 n)) :: u32)"
  have lp: "length (pseudo4 buf1 n) = 12" using l1 len by (simp add: pseudo4_def)
  have acc: "unat acc = word_sum LE (pseudo4 buf1 n)" "unat acc < 2 ^ 24"
    using unat_small[OF word_sum_LE_small[of "pseudo4 buf1 n"]] word_sum_LE_small[of "pseudo4 buf1 n"] lp
    by (simp_all add: acc_def)
  obtain c2 where c2: "checksum_l4 LE proto (14 + h) l4_len acc buf1 = Some (CHK_OK, write_at buf1 ?pos c2)"
    "length c2 = 2" "proto = 17 \<Longrightarrow> c2 \<noteq> [0, 0]"
    "((if proto = 1 then 0 else unat acc) + word_sum LE (read_at (write_at buf1 ?pos c2) (14 + h) (unat l4_len))) mod 65535 = 0"
    by (rule checksum_l4_ok[OF p, of l4_len "14 + h" buf1 acc LE]) (use n len l1 un acc in auto)
  define buf2 where "buf2 = write_at buf1 ?pos c2"
  have l2: "length buf2 = length buf" using c2(2) n len l1 by (simp add: buf2_def)
  have "buf1 ! 23 = proto" using c1(2) len by (simp add: buf1_def nth_write_at proto_def)
  moreover have "5 \<le> unat (buf ! 14 AND 0x0f)" "unat (buf ! 14 AND 0x0f) \<le> 15" "\<not> len - (14 + h) < n"
    using h n by (simp_all add: h_def ip4_head_def)
  ultimately have "checksum_ip4 LE buf len = Some (CHK_OK, buf2)"
    using len h n ones_sum_pseudo4[of buf1 l4_len "\<lambda>p s. checksum_l4 LE p (14 + h) l4_len s buf1"]
      unat_available[of h len] c1(1) c2(1) l1 un
    by (simp add: checksum_ip4_def Let_def h_def[symmetric, unfolded ip4_head_def] l4_len_def[symmetric]
        buf1_def[symmetric] acc_def buf2_def)
  then have run: "checksum LE (Some buf) len = Some (CHK_OK, buf2)"
    using F by (simp add: checksum_def ip4_frame_def)
  have "read_at buf2 14 h = read_at buf1 14 h"
    unfolding buf2_def by (rule read_at_write_before[OF c2(2)]) (use n len l1 in auto)
  then have head: "inet_valid (read_at buf2 14 h)"
    using c1(3) by (intro inet_valid_LE) (simp add: buf1_def)
  have same: "read_at buf2 i k = read_at buf1 i k" if "i + k \<le> 34" for i k
    unfolding buf2_def by (rule read_at_write_before[OF c2(2)]) (use that n h len l1 in auto)
  have "pseudo4 buf2 n = pseudo4 buf1 n"
    using same[of 26 4] same[of 30 4] c2(2) n h len l1 by (simp add: pseudo4_def buf2_def nth_write_at)
  then have body: "inet_valid ((if proto = 1 then [] else pseudo4 buf2 n) @ read_at buf2 (14 + h) n)"
    using c2(4) acc(1) lp by (intro inet_valid_LE) (auto simp: word_sum_append buf2_def un)
  have keep: "buf2 ! i = buf ! i" if "i < length buf" "i \<notin> {24, 25, ?pos, ?pos + 1}" for i
    using that c1(2) c2(2) n len l1 by (auto simp: buf2_def buf1_def nth_write_at)
  have "read_at buf2 ?pos 2 = c2"
    using read_write_same[of ?pos c2 buf1] c2(2) n len l1 by (simp add: buf2_def numeral_2_eq_2)
  with run l2 head body keep c2(3) show ?thesis
    by (auto simp: ip4_checked_def Let_def h_def[symmetric] proto_def[symmetric] n_def[symmetric])
qed

text \<open>
  C7: what \<open>checksum\<close> does to an IPv4 frame. On a little-endian machine, for every frame with
  consistent lengths that carries TCP, UDP or ICMP, it succeeds within the memory of the
  frame, changes nothing but the two checksums, and a receiver accepts both: the header sums
  up, and so does the packet with the pseudo header of its protocol. The checksum of UDP is
  never the reserved value 0.
\<close>

theorem checksum_ip4_correct:
  assumes "ip4_frame buf len"
  shows "\<exists>buf'. checksum LE (Some buf) len = Some (CHK_OK, buf') \<and> ip4_checked buf buf'"
  using assms by (rule checksum_ip4_spec)

text \<open>A UDP packet of 10 bytes: 14 bytes of Ethernet, 20 of IPv4, 8 of UDP, 2 of data.\<close>

definition udp_frame :: "byte list" where
  "udp_frame = [2, 0, 0, 0, 0, 1, 2, 0, 0, 0, 0, 2, 8, 0,
     0x45, 0, 0, 30, 0, 1, 0, 0, 64, 17, 0, 0, 192, 168, 0, 1, 192, 168, 0, 2,
     0x10, 0, 0x20, 0, 0, 10, 0, 0, 0xde, 0xad]"

lemma udp_frame_ok: "ip4_frame udp_frame 44"
  by (simp add: ip4_frame_def ip4_head_def ip4_total_def udp_frame_def unat_load16 l4_check_def load16_def)

theorem checksum_ip4_correct_witness:
  "\<exists>buf'. checksum LE (Some udp_frame) 44 = Some (CHK_OK, buf') \<and> ip4_checked udp_frame buf'"
  by (rule checksum_ip4_correct[OF udp_frame_ok])

text \<open>
  C37: frames that are not IPv4 are refused. Whatever the byte order, a frame whose Ethernet
  type is not 0x0800 is left as it is and not supported, so the branch for IPv6, whose
  Ethernet type is 0x86dd, is out of reach for IPv6 packets.
\<close>

theorem checksum_only_ip4:
  assumes "34 < len" and "len \<le> length buf" and "len \<le> 65535" and "load16 BE (buf ! 12) (buf ! 13) \<noteq> 0x0800"
  shows "checksum e (Some buf) len = Some (CHK_UNSUPPORTED, buf)"
  using assms by (simp add: checksum_def)

theorem checksum_only_ip4_witness:
  "checksum LE (Some (replicate 12 0 @ [0x86, 0xdd] @ replicate 46 0)) 60 =
     Some (CHK_UNSUPPORTED, replicate 12 0 @ [0x86, 0xdd] @ replicate 46 0)"
  by (rule checksum_only_ip4) (simp_all add: nth_append load16_def)

text \<open>
  C35: a frame that is shorter than its own IP header makes \<open>checksum\<close> read out of bounds. The
  subtraction \<open>len - sizeof(*l2) - head_len\<close> wraps around to a huge number, so that no total
  length is too large: a UDP frame of 35 to 73 bytes with a header length of 60 and a total
  length of 65535 is summed up to byte 65549, far behind the receive buffer of 16384 bytes.
\<close>

theorem checksum_overread:
  assumes "34 < len" and "len < 74" and "length buf = 16384"
    and "load16 BE (buf ! 12) (buf ! 13) = 0x0800" and "buf ! 14 = 0x4f" and "buf ! 16 = 0xff" and "buf ! 17 = 0xff"
    and "buf ! 23 = 17"
  shows "checksum e (Some buf) len = None"
proof -
  have vihl: "drop_bit 4 (buf ! 14) = 4" "buf ! 14 AND 0x0f = 15" by (simp_all add: assms(5))
  define l4_len where "l4_len = load16 BE (buf ! 16) (buf ! 17) - of_nat 60"
  have n: "unat l4_len = 65475" by (simp add: l4_len_def assms(6,7) load16_def)
  have "unat l4_len \<le> unat ((of_nat len :: u64) - 14 - of_nat 60)"
  proof -
    define k where "k = 74 - len"
    then have len: "len = 74 - k" "0 < k" "k < 40" using assms(1,2) by simp_all
    have "(of_nat len :: u64) = 74 - of_nat k" using len by (simp add: of_nat_diff)
    then have "(of_nat len :: u64) - 14 - of_nat 60 = - of_nat k" by simp
    moreover have "unat (- of_nat k :: u64) = 2 ^ 64 - k"
    proof -
      have "(- of_nat k :: u64) = of_nat (2 ^ 64 - k)" using len by (simp add: of_nat_diff)
      moreover have "unat (of_nat m :: u64) = m" if "m < 2 ^ 64" for m
        using that by (simp add: unat_of_nat take_bit_nat_eq_self)
      ultimately show ?thesis using len(2) by (metis diff_less zero_less_numeral zero_less_power)
    qed
    ultimately show ?thesis using n len by simp
  qed
  then have pass: "\<not> unat ((of_nat len :: u64) - 14 - of_nat 60) < unat l4_len" by simp
  obtain c1 where c1: "put_check e 24 14 60 0 buf = Some (write_at buf 24 c1)" "length c1 = 2"
    by (rule put_check_ok[of 14 24 60 buf 0 e]) (use assms(3) in auto)
  define buf1 where "buf1 = write_at buf 24 c1"
  have l1: "length buf1 = 16384" "buf1 ! 23 = 17"
    using c1(2) assms(3,8) by (simp_all add: buf1_def nth_write_at)
  have oob: "put_check e 80 74 65475 acc buf1 = None" for acc
    using l1 ones_sum_oob[of "write_at buf1 80 [0, 0]" 74 65475 e acc] by (simp add: put_check_def store16_def)
  have "checksum_l4 e 17 74 l4_len acc buf1 = None" for acc
    by (simp add: checksum_l4_def n oob)
  moreover have "load16 BE (buf ! 16) (buf ! 17) - 60 = l4_len" by (simp add: l4_len_def)
  ultimately have "checksum_ip4 e buf len = None"
    using vihl(2) pass c1(1) assms(3) l1
    by (simp add: checksum_ip4_def Let_def buf1_def[symmetric] ones_sum_eq ones_sum_stack)
  with vihl(1) assms show ?thesis by (simp add: checksum_def)
qed

theorem checksum_overread_witness:
  "checksum LE (Some ((replicate 12 0 @ [8, 0, 0x4f, 0, 0xff, 0xff, 0, 0, 0, 0, 64, 17]) @ replicate 16360 0)) 60 = None"
  (is "checksum LE (Some ?buf) 60 = None")
proof (rule checksum_overread)
  have "?buf ! i = (replicate 12 0 @ [8, 0, 0x4f, 0, 0xff, 0xff, 0, 0, 0, 0, 64, 17]) ! i" if "i < 24" for i
    using that by (simp only: nth_append) simp
  then show "?buf ! 14 = 0x4f" "?buf ! 16 = 0xff" "?buf ! 17 = 0xff" "?buf ! 23 = 17"
    "load16 BE (?buf ! 12) (?buf ! 13) = 0x0800"
    by (simp_all add: nth_append load16_def)
qed simp_all

text \<open>
  C36: a datagram without room for its own header has its checksum written behind its end. An
  IPv4 frame of TCP whose total length is its header length is accepted, and two bytes
  of the buffer that are not part of the packet are overwritten.
\<close>

theorem checksum_overwrite:
  assumes "len = 35" and "54 \<le> length buf"
    and "load16 BE (buf ! 12) (buf ! 13) = 0x0800" and "buf ! 14 = 0x45" and "buf ! 16 = 0" and "buf ! 17 = 20"
    and "buf ! 23 = 6"
  shows "\<exists>c1 c2. checksum LE (Some buf) len = Some (CHK_OK, write_at (write_at buf 24 c1) 50 c2) \<and>
    length c1 = 2 \<and> length c2 = 2"
proof -
  have vihl: "drop_bit 4 (buf ! 14) = 4" "buf ! 14 AND 0x0f = 5" by (simp_all add: assms(4))
  have n: "load16 BE (buf ! 16) (buf ! 17) - of_nat 20 = 0" by (simp add: assms(5,6) load16_def)
  obtain c1 where c1: "put_check LE 24 14 20 0 buf = Some (write_at buf 24 c1)" "length c1 = 2"
    by (rule put_check_ok[of 14 24 20 buf 0 LE]) (use assms(2) in auto)
  define buf1 where "buf1 = write_at buf 24 c1"
  have l1: "54 \<le> length buf1" "buf1 ! 23 = 6"
    using c1(2) assms(2,7) by (simp_all add: buf1_def nth_write_at)
  have l4: "checksum_l4 LE 6 34 0 acc buf1 = Some (CHK_OK, write_at buf1 50 (host16 LE (ones_final acc)))" for acc
    using l1 by (simp add: checksum_l4_def put_check_def store16_def ones_sum_def write_at_def)
  have "checksum_ip4 LE buf len = checksum_l4 LE 6 34 0 (of_nat (word_sum LE (pseudo4 buf1 0))) buf1"
    using ones_sum_pseudo4[of buf1 0 "\<lambda>p s. checksum_l4 LE p 34 0 s buf1"] vihl n c1(1) assms(1,2) l1
    by (simp add: checksum_ip4_def Let_def buf1_def[symmetric])
  then have "checksum LE (Some buf) len =
      Some (CHK_OK, write_at buf1 50 (host16 LE (ones_final (of_nat (word_sum LE (pseudo4 buf1 0))))))"
    using l4 vihl(1) assms by (simp add: checksum_def)
  then show ?thesis unfolding buf1_def using c1(2) length_host(1) by blast
qed

theorem checksum_overwrite_witness:
  "\<exists>c1 c2. checksum LE (Some ([2, 0, 0, 0, 0, 1, 2, 0, 0, 0, 0, 2, 8, 0, 0x45, 0, 0, 20, 0, 0, 0, 0, 64, 6] @ replicate 40 0)) 35
     = Some (CHK_OK, write_at (write_at ([2, 0, 0, 0, 0, 1, 2, 0, 0, 0, 0, 2, 8, 0, 0x45, 0, 0, 20, 0, 0, 0, 0, 64, 6] @
       replicate 40 0) 24 c1) 50 c2) \<and> length c1 = 2 \<and> length c2 = 2"
  by (rule checksum_overwrite) (simp_all add: load16_def)

end
