(* ===== verification/Iface.thy ===== *)
theory Iface
  imports Ruleset Checksums
begin

text \<open>
  include/iface.h and src/iface.c: an interface is a raw socket on a network device, with the
  handler of its packets and four counters. The state adds the heap of interfaces, the table
  of their names and the history of what was asked of the operating system and of the
  epoll tracker, newest first. Both are outside of the program: the record \<open>os\<close> says what
  they answer, as functions of the history.

  The printing of an address dereferences \<open>hwaddr\<close>: \<open>iface_free\<close> does so in the text of a
  warning.
\<close>

subsection \<open>The outside\<close>

datatype io =
    Io_socket int
  | Io_close int
  | Io_send int "byte list"
  | Io_register int addr nat
  | Io_remove int

text \<open>
  The file descriptor that \<open>socket\<close> returns; what the ioctls SIOCGIFINDEX, SIOCGIFMTU,
  SIOCGIFADDR, SIOCGIFHWADDR return for the device of a name, \<open>None\<close> when they fail; whether
  SIOCGIFFLAGS, SIOCSIFFLAGS and \<open>bind\<close> succeed; what \<open>send\<close> returns; the error count of
  \<open>eptk_register\<close>; the contexts whose destructor \<open>eptk_remove\<close> runs, and what it returns.
\<close>

record os =
  os_socket :: "io list \<Rightarrow> int"
  os_ifindex :: "io list \<Rightarrow> string \<Rightarrow> int option"
  os_ifmtu :: "io list \<Rightarrow> string \<Rightarrow> int option"
  os_ifaddr :: "io list \<Rightarrow> string \<Rightarrow> (byte \<times> byte \<times> byte \<times> byte) option"
  os_ifhwaddr :: "io list \<Rightarrow> string \<Rightarrow> byte list option"
  os_getflags :: "io list \<Rightarrow> string \<Rightarrow> bool"
  os_setpromisc :: "io list \<Rightarrow> string \<Rightarrow> bool"
  os_bind :: "io list \<Rightarrow> int \<Rightarrow> bool"
  os_send :: "io list \<Rightarrow> int \<Rightarrow> byte list \<Rightarrow> int"
  ek_register :: "io list \<Rightarrow> int \<Rightarrow> addr \<Rightarrow> nat"
  ek_remove :: "io list \<Rightarrow> int \<Rightarrow> addr list \<times> int"

subsection \<open>Data\<close>

text \<open>
  A handler is a function pointer, a context the queue that \<open>process_new\<close> registers (the only
  caller); the empty queue is the NULL pointer.
\<close>

record iface =
  if_fd :: int
  if_ifindex :: int
  if_mtu :: int
  if_handler :: ptr
  if_context :: "addr judyL"
  if_count_in :: u64
  if_count_out :: u64
  if_count_checkfail :: u64
  if_count_sockdrop :: u64
  if_hwaddr :: "byte list option"
  if_addr :: "(byte \<times> byte \<times> byte \<times> byte) option"
  if_name :: "string option"
  if_ip_prn :: "string option"
  if_refcnt :: u32

record iface_state = rule_state +
  iface_heap :: "addr \<rightharpoonup> iface"
  iface_JS :: "addr judySL"
  io_log :: "io list"

definition iface_zero :: iface where
  "iface_zero = \<lparr>if_fd = 0, if_ifindex = 0, if_mtu = 0, if_handler = None, if_context = [],
     if_count_in = 0, if_count_out = 0, if_count_checkfail = 0, if_count_sockdrop = 0,
     if_hwaddr = None, if_addr = None, if_name = None, if_ip_prn = None, if_refcnt = 0\<rparr>"

definition io_do :: "io \<Rightarrow> 'a iface_state_scheme \<Rightarrow> 'a iface_state_scheme" where
  "io_do x s = s\<lparr>io_log := x # io_log s\<rparr>"

subsection \<open>Life cycle\<close>

definition iface_free :: "ptr \<Rightarrow> 'a iface_state_scheme \<Rightarrow> 'a iface_state_scheme option" where
  "iface_free arg s =
     (case arg of
        None \<Rightarrow> Some s
      | Some p \<Rightarrow>
          do { iface \<leftarrow> iface_heap s p;
               if if_refcnt iface \<noteq> 0 then Some s
               else do { nm \<leftarrow> if_name iface;
                         let s = (if js_get (iface_JS s) nm = Some p
                                  then s\<lparr>iface_JS := js_delete (iface_JS s) nm\<rparr> else s);
                         hwaddr \<leftarrow> if_hwaddr iface;
                         let s = (if if_fd iface \<noteq> -1 then io_do (Io_close (if_fd iface)) s else s);
                         Some (s\<lparr>iface_heap := (iface_heap s)(p := None)\<rparr>) } })"

definition iface_free_all :: "'a iface_state_scheme \<Rightarrow> 'a iface_state_scheme option" where
  "iface_free_all s = js_loop iface_JS iface_free s"

definition iface_die :: "ptr \<Rightarrow> 'a iface_state_scheme \<Rightarrow> (ptr \<times> 'a iface_state_scheme) option" where
  "iface_die ret s = do { s \<leftarrow> iface_free ret s; Some (None, s) }"

definition iface_put :: "(iface \<Rightarrow> iface) \<Rightarrow> addr \<Rightarrow> 'a iface_state_scheme \<Rightarrow> 'a iface_state_scheme option" where
  "iface_put f p s = do { iface \<leftarrow> iface_heap s p; Some (s\<lparr>iface_heap := (iface_heap s)(p \<mapsto> f iface)\<rparr>) }"

text \<open>
  The device of a name: \<open>ifr_name\<close> has room for 15 characters. The second half of \<open>iface_new\<close>
  asks for its index, its MTU, its address and its hardware address, makes it promiscuous and
  binds the socket to it.
\<close>

definition ifr_name :: "string \<Rightarrow> string" where
  "ifr_name name = take 15 name"

definition iface_grok :: "os \<Rightarrow> string \<Rightarrow> addr \<Rightarrow> 'a iface_state_scheme \<Rightarrow> (ptr \<times> 'a iface_state_scheme) option"
where
  "iface_grok os name p s =
     (let io = io_log s; dev = ifr_name name in
      case os_ifindex os io dev of None \<Rightarrow> iface_die (Some p) s | Some i \<Rightarrow>
      do { s \<leftarrow> iface_put (\<lambda>x. x\<lparr>if_ifindex := i\<rparr>) p s;
      case os_ifmtu os io dev of None \<Rightarrow> iface_die (Some p) s | Some m \<Rightarrow>
      do { s \<leftarrow> iface_put (\<lambda>x. x\<lparr>if_mtu := m\<rparr>) p s;
      case os_ifaddr os io dev of None \<Rightarrow> iface_die (Some p) s | Some (a, b, c, d) \<Rightarrow>
      do { s \<leftarrow> iface_put (\<lambda>x. x\<lparr>if_addr := Some (a, b, c, d), if_ip_prn := Some (dotted a b c d)\<rparr>) p s;
      case os_ifhwaddr os io dev of None \<Rightarrow> iface_die (Some p) s | Some hw \<Rightarrow>
      do { s \<leftarrow> iface_put (\<lambda>x. x\<lparr>if_hwaddr := Some hw\<rparr>) p s;
      if \<not> os_getflags os io dev then iface_die (Some p) s
      else if \<not> os_setpromisc os io dev then iface_die (Some p) s
      else do { iface \<leftarrow> iface_heap s p;
      if \<not> os_bind os io (if_fd iface) then iface_die (Some p) s
      else do { nm \<leftarrow> if_name iface;
      let (rc, js) = js_insert (iface_JS s) nm (Some p) True;
      let s = s\<lparr>iface_JS := js\<rparr>;
      if rc \<noteq> 0 then iface_die (Some p) s else Some (Some p, s) } } } } } })"

text \<open>The middle of \<open>iface_new\<close>: the strings and structures, then the socket.\<close>

definition iface_open ::
  "env \<Rightarrow> os \<Rightarrow> string \<Rightarrow> addr \<Rightarrow> 'a iface_state_scheme \<Rightarrow> (ptr \<times> 'a iface_state_scheme) option"
where
  "iface_open E os name p s =
     (let (copy, err) = nstralloc E name MAXLINELEN in
      do { s \<leftarrow> iface_put (\<lambda>x. x\<lparr>if_name := copy\<rparr>) p s;
      if copy = None then iface_die (Some p) s
      else if err = E2BIG then iface_die (Some p) s
      else case calloc E s of (None, s) \<Rightarrow> iface_die (Some p) s | (Some ip, s) \<Rightarrow>
      do { s \<leftarrow> iface_put (\<lambda>x. x\<lparr>if_ip_prn := Some ''''\<rparr>) p s;
      case calloc E s of (None, s) \<Rightarrow> iface_die (Some p) s | (Some ad, s) \<Rightarrow>
      do { s \<leftarrow> iface_put (\<lambda>x. x\<lparr>if_addr := Some (0, 0, 0, 0)\<rparr>) p s;
      case calloc E s of (None, s) \<Rightarrow> iface_die (Some p) s | (Some hw, s) \<Rightarrow>
      do { s \<leftarrow> iface_put (\<lambda>x. x\<lparr>if_hwaddr := Some (replicate 16 0)\<rparr>) p s;
      let fd = os_socket os (io_log s);
      s \<leftarrow> iface_put (\<lambda>x. x\<lparr>if_fd := fd\<rparr>) p s;
      if fd < 0 then iface_die (Some p) s
      else iface_grok os name p (io_do (Io_socket fd) s) } } } })"

definition iface_new ::
  "env \<Rightarrow> os \<Rightarrow> string option \<Rightarrow> 'a iface_state_scheme \<Rightarrow> (ptr \<times> 'a iface_state_scheme) option"
where
  "iface_new E os name s =
     (case name of
        None \<Rightarrow> iface_die None s
      | Some nm \<Rightarrow>
          if js_get (iface_JS s) nm \<noteq> None then iface_die None s
          else case calloc E s of
            (None, s) \<Rightarrow> iface_die None s
          | (Some p, s) \<Rightarrow> iface_open E os nm p (s\<lparr>iface_heap := (iface_heap s)(p \<mapsto> iface_zero)\<rparr>))"

definition iface_release :: "ptr \<Rightarrow> 'a iface_state_scheme \<Rightarrow> 'a iface_state_scheme option" where
  "iface_release ip s =
     (case ip of
        None \<Rightarrow> Some s
      | Some p \<Rightarrow> iface_put (\<lambda>x. x\<lparr>if_refcnt := refcnt_release (if_refcnt x)\<rparr>) p s)"

definition iface_get :: "string \<Rightarrow> 'a iface_state_scheme \<Rightarrow> (ptr \<times> 'a iface_state_scheme) option" where
  "iface_get nm s =
     (case js_get (iface_JS s) nm of
        None \<Rightarrow> Some (None, s)
      | Some p \<Rightarrow>
          do { s \<leftarrow> iface_put (\<lambda>x. x\<lparr>if_refcnt := refcnt_take (if_refcnt x)\<rparr>) p s; Some (Some p, s) })"

subsection \<open>Packets\<close>

text \<open>
  What \<open>recvfrom\<close> delivers: nothing, or whether the packet is one that the host sent itself,
  the buffer, whose first bytes are the packet, and the length. The call through the handler
  is \<open>exec\<close>.
\<close>

datatype rx = Rx_none | Rx_packet bool "byte list" nat

definition iface_callback ::
  "(addr \<Rightarrow> addr judyL \<Rightarrow> byte list \<Rightarrow> nat \<Rightarrow> 'a iface_state_scheme \<Rightarrow> 'a iface_state_scheme option) \<Rightarrow>
   rx \<Rightarrow> addr \<Rightarrow> 'a iface_state_scheme \<Rightarrow> (int \<times> 'a iface_state_scheme) option"
where
  "iface_callback exec rx p s =
     (case rx of
        Rx_none \<Rightarrow> Some (1, s)
      | Rx_packet outgoing buf len \<Rightarrow>
          if outgoing then
            do { s \<leftarrow> iface_put (\<lambda>x. x\<lparr>if_count_out := if_count_out x + 1\<rparr>) p s; Some (0, s) }
          else
            do { s \<leftarrow> iface_put (\<lambda>x. x\<lparr>if_count_in := if_count_in x + 1\<rparr>) p s;
                 sk \<leftarrow> iface_heap s p;
                 case if_handler sk of
                   None \<Rightarrow> Some (0, s)
                 | Some h \<Rightarrow> do { s \<leftarrow> exec h (if_context sk) buf len s; Some (0, s) } })"

definition iface_handler_register ::
  "addr \<Rightarrow> addr \<Rightarrow> addr judyL \<Rightarrow> 'a iface_state_scheme \<Rightarrow> (nat \<times> 'a iface_state_scheme) option"
where
  "iface_handler_register p handler context s =
     do { iface \<leftarrow> iface_heap s p;
          if if_handler iface \<noteq> None \<and> (if_handler iface \<noteq> Some handler \<or> if_context iface \<noteq> context)
          then Some (1, s)
          else do { s \<leftarrow> iface_put (\<lambda>x. x\<lparr>if_handler := Some handler\<rparr>) p s;
                    s \<leftarrow> iface_put (\<lambda>x. x\<lparr>if_context := context\<rparr>) p s;
                    Some (0, s) } }"

definition iface_handler_clear ::
  "ptr \<Rightarrow> addr \<Rightarrow> addr judyL \<Rightarrow> 'a iface_state_scheme \<Rightarrow> (nat \<times> 'a iface_state_scheme) option"
where
  "iface_handler_clear ip handler context s =
     (case ip of
        None \<Rightarrow> Some (1, s)
      | Some p \<Rightarrow>
          do { iface \<leftarrow> iface_heap s p;
               if if_handler iface = None \<or> (if_handler iface \<noteq> Some handler \<or> if_context iface \<noteq> context)
               then Some (1, s)
               else do { s \<leftarrow> iface_put (\<lambda>x. x\<lparr>if_context := [], if_handler := None\<rparr>) p s; Some (0, s) } })"

text \<open>
  \<open>iface_output\<close> returns the packet too, which \<open>checksum\<close> writes to. \<open>send\<close> is given the first
  \<open>plen\<close> bytes; it returns how many it took, or a negative number.
\<close>

definition iface_output ::
  "endian \<Rightarrow> os \<Rightarrow> addr \<Rightarrow> byte list \<Rightarrow> nat \<Rightarrow> 'a iface_state_scheme \<Rightarrow>
   (int \<times> byte list \<times> 'a iface_state_scheme) option"
where
  "iface_output en os p pkt plen s =
     do { iface \<leftarrow> iface_heap s p;
          (ret, pkt) \<leftarrow> checksum en (Some pkt) plen;
          if ret \<noteq> CHK_OK then
            do { s \<leftarrow> iface_put (\<lambda>x. x\<lparr>if_count_checkfail := if_count_checkfail x + 1\<rparr>) p s; Some (1, pkt, s) }
          else if plen > length pkt then None
          else
            let fd = if_fd iface; r = os_send os (io_log s) fd (take plen pkt);
                s = io_do (Io_send fd (take plen pkt)) s
            in if r \<noteq> int plen then
                 do { s \<leftarrow> iface_put (\<lambda>x. x\<lparr>if_count_sockdrop := if_count_sockdrop x + 1\<rparr>) p s; Some (1, pkt, s) }
               else Some (0, pkt, s) }"

subsection \<open>Printing and parsing\<close>

definition iface_emit :: "addr \<Rightarrow> 'a iface_state_scheme \<Rightarrow> yout \<Rightarrow> yout option" where
  "iface_emit p s out =
     do { items \<leftarrow> out;
          iface \<leftarrow> iface_heap s p;
          nm \<leftarrow> if_name iface;
          ip \<leftarrow> if_ip_prn iface;
          let reply = y_pair_insert [] ''iface'' nm;
          let reply = y_pair_insert_nf reply ''address'' ip;
          let reply = y_pair_insert_nf reply ''pkt in'' (fmt_u (unat (if_count_in iface)));
          let reply = y_pair_insert_nf reply ''pkt out'' (fmt_u (unat (if_count_out iface)));
          let reply = y_pair_insert_nf reply ''pkt drop/truncate'' (fmt_u (unat (if_count_sockdrop iface)));
          let reply = y_pair_insert_nf reply ''pkt fail checksum'' (fmt_u (unat (if_count_checkfail iface)));
          Some (Some (items @ [YMap reply])) }"

definition iface_emit_all :: "'a iface_state_scheme \<Rightarrow> yout \<Rightarrow> yout option" where
  "iface_emit_all s out =
     js_loop (\<lambda>_. iface_JS s) (\<lambda>v out. do { p \<leftarrow> v; iface_emit p s out }) out"

text \<open>The loop over the pairs: whether it jumped to \<open>die\<close>, the errors, the name.\<close>

fun iface_parse_pairs :: "(ynode \<times> ynode) list \<Rightarrow> nat \<Rightarrow> string \<Rightarrow> (bool \<times> nat \<times> string) option" where
  "iface_parse_pairs [] e name = Some (False, e, name)"
| "iface_parse_pairs ((key, val) # ps) e name =
     do { keyname \<leftarrow> scalar_value key;
          case val of
            YScalar valtxt \<Rightarrow>
              if keyname = ''iface'' \<or> keyname = ''i'' then iface_parse_pairs ps e valtxt
              else iface_parse_pairs ps (e + 1) name
          | _ \<Rightarrow> Some (True, e + 1, name) }"

fun iface_free_list :: "addr list \<Rightarrow> 'a iface_state_scheme \<Rightarrow> 'a iface_state_scheme option" where
  "iface_free_list [] s = Some s"
| "iface_free_list (p # ps) s = do { s \<leftarrow> iface_free (Some p) s; iface_free_list ps s }"

definition iface_parse ::
  "env \<Rightarrow> os \<Rightarrow> parse_mode \<Rightarrow> (ynode \<times> ynode) list \<Rightarrow> yout \<Rightarrow> 'a iface_state_scheme \<Rightarrow>
   (nat \<times> yout \<times> 'a iface_state_scheme) option"
where
  "iface_parse E os mode mapping out s =
     do { (died, e, name) \<leftarrow> iface_parse_pairs mapping 0 '''';
          if died then Some (e, out, s)
          else case mode of
            PARSE_ADD \<Rightarrow>
              do { (ip, s) \<leftarrow> iface_new E os (Some name) s;
                   case ip of
                     None \<Rightarrow> Some (e + 1, out, s)
                   | Some p \<Rightarrow>
                       do { iface \<leftarrow> iface_heap s p;
                            let rc = ek_register os (io_log s) (if_fd iface) p;
                            let s = io_do (Io_register (if_fd iface) p rc) s;
                            if rc \<noteq> 0 then Some (e + 1, out, s)
                            else do { out \<leftarrow> iface_emit p s out; Some (e, out, s) } } }
          | PARSE_DEL \<Rightarrow>
              (case js_get (iface_JS s) name of
                 None \<Rightarrow> Some (e + 1, out, s)
               | Some p \<Rightarrow>
                   do { iface \<leftarrow> iface_heap s p;
                        if if_refcnt iface \<noteq> 0 then Some (e + 1, out, s)
                        else do { out \<leftarrow> iface_emit p s out;
                                  let (ctxs, rc) = ek_remove os (io_log s) (if_fd iface);
                                  s \<leftarrow> iface_free_list ctxs (io_do (Io_remove (if_fd iface)) s);
                                  Some (if rc \<noteq> 1 then e + 1 else e, out, s) } })
          | PARSE_PRN \<Rightarrow>
              if name = '''' then do { out \<leftarrow> iface_emit_all s out; Some (e, out, s) }
              else (case js_get (iface_JS s) name of
                      None \<Rightarrow> Some (e, out, s)
                    | Some p \<Rightarrow> do { out \<leftarrow> iface_emit p s out; Some (e, out, s) })
          | PARSE_INVALID \<Rightarrow> Some (e + 1, out, s) }"

end
