(* ===== verification/Ifaces.thy ===== *)
theory Ifaces
  imports Iface
begin

text \<open>
  The invariant of src/iface.c and what its operations do to it: every interface is found
  under its name, has all its parts, and owns one open socket; every open socket belongs to
  an interface. The properties are about \<open>iface_new\<close>, \<open>iface_parse\<close>, the handlers, and what
  happens to a packet.
\<close>

subsection \<open>The invariant\<close>

text \<open>The sockets that are open after a history.\<close>

fun open_fds :: "io list \<Rightarrow> int set" where
  "open_fds [] = {}"
| "open_fds (Io_socket fd # l) = insert fd (open_fds l)"
| "open_fds (Io_close fd # l) = open_fds l - {fd}"
| "open_fds (Io_send fd bs # l) = open_fds l"
| "open_fds (Io_register fd p rc # l) = open_fds l"
| "open_fds (Io_remove fd # l) = open_fds l"

text \<open>What is registered with the epoll tracker after a history.\<close>

fun tracked :: "io list \<Rightarrow> int \<Rightarrow> addr option" where
  "tracked [] fd = None"
| "tracked (Io_register fd' p rc # l) fd = (if fd = fd' \<and> rc = 0 then Some p else tracked l fd)"
| "tracked (Io_remove fd' # l) fd = (if fd = fd' then None else tracked l fd)"
| "tracked (Io_socket _ # l) fd = tracked l fd"
| "tracked (Io_close _ # l) fd = tracked l fd"
| "tracked (Io_send _ _ # l) fd = tracked l fd"

text \<open>What the code relies on of \<open>socket\<close>: it fails, or returns a descriptor that is not open.\<close>

definition sock_ok :: "os \<Rightarrow> bool" where
  "sock_ok os \<longleftrightarrow> (\<forall>l. os_socket os l \<notin> open_fds l)"

definition iface_ok :: "addr judySL \<Rightarrow> addr \<Rightarrow> addr \<Rightarrow> iface \<Rightarrow> bool" where
  "iface_ok js next p iface \<longleftrightarrow> p < next \<and> p < MAXALLOC \<and> if_hwaddr iface \<noteq> None \<and> if_ip_prn iface \<noteq> None \<and>
     0 \<le> if_fd iface \<and> (\<exists>n. if_name iface = Some n \<and> js_get js n = Some p)"

definition fds_held :: "(addr \<rightharpoonup> iface) \<Rightarrow> io list \<Rightarrow> bool" where
  "fds_held h l \<longleftrightarrow> (\<forall>p q x y. h p = Some x \<longrightarrow> h q = Some y \<longrightarrow> if_fd x = if_fd y \<longrightarrow> p = q) \<and>
     (\<forall>fd. fd \<in> open_fds l \<longleftrightarrow> (\<exists>p x. h p = Some x \<and> if_fd x = fd))"

definition ifaces_inv :: "'a iface_state_scheme \<Rightarrow> bool" where
  "ifaces_inv s \<longleftrightarrow> finite (dom (iface_heap s)) \<and>
     registered if_name (iface_JS s) (iface_heap s) \<and>
     (\<forall>p x. iface_heap s p = Some x \<longrightarrow> iface_ok (iface_JS s) (next_addr s) p x) \<and>
     fds_held (iface_heap s) (io_log s)"

lemma ifaces_invD:
  assumes "ifaces_inv s"
  shows "finite (dom (iface_heap s))" and "registered if_name (iface_JS s) (iface_heap s)"
    and "\<And>p x. iface_heap s p = Some x \<Longrightarrow> iface_ok (iface_JS s) (next_addr s) p x"
    and "fds_held (iface_heap s) (io_log s)" and "judy_ok (iface_JS s)"
  using assms unfolding ifaces_inv_def registered_def by blast+

lemma ifaces_invI:
  assumes "finite (dom (iface_heap s))" and "registered if_name (iface_JS s) (iface_heap s)"
    and "\<And>p x. iface_heap s p = Some x \<Longrightarrow> iface_ok (iface_JS s) (next_addr s) p x"
    and "fds_held (iface_heap s) (io_log s)"
  shows "ifaces_inv s"
  using assms unfolding ifaces_inv_def by blast

lemma ifaces_inv_get:
  assumes "ifaces_inv s" and "js_get (iface_JS s) n = Some p"
  obtains x where "iface_heap s p = Some x" "if_name x = Some n"
  using reg.named_get[OF ifaces_invD(2)[OF assms(1)] assms(2)] by auto

lemma ifaces_inv_fresh: "ifaces_inv s \<Longrightarrow> next_addr s \<le> p \<Longrightarrow> iface_heap s p = None"
  using ifaces_invD(3)[of s p] by (cases "iface_heap s p") (auto simp: iface_ok_def)

text \<open>It does not depend on the other components.\<close>

lemma ifaces_inv_cong:
  assumes "ifaces_inv s" and "iface_heap s' = iface_heap s" "iface_JS s' = iface_JS s" "open_fds (io_log s') = open_fds (io_log s)"
    "next_addr s \<le> next_addr s'"
  shows "ifaces_inv s'"
proof (rule ifaces_invI)
  show "iface_ok (iface_JS s') (next_addr s') p x" if "iface_heap s' p = Some x" for p x
    using ifaces_invD(3)[OF assms(1), of p x] that assms by (auto simp: iface_ok_def)
qed (use ifaces_invD[OF assms(1)] assms in \<open>simp_all add: fds_held_def\<close>)

text \<open>An update of one interface that keeps its name, its socket and its address texts.\<close>

lemma ifaces_inv_update:
  assumes I: "ifaces_inv s" and p: "iface_heap s p = Some x"
    and x': "if_name x' = if_name x" "if_fd x' = if_fd x" "if_hwaddr x' = if_hwaddr x" "if_ip_prn x' = if_ip_prn x"
  shows "ifaces_inv (s\<lparr>iface_heap := (iface_heap s)(p \<mapsto> x')\<rparr>)" (is "ifaces_inv ?s'")
proof (rule ifaces_invI)
  show "finite (dom (iface_heap ?s'))" using ifaces_invD(1)[OF I] by simp
  show "registered if_name (iface_JS ?s') (iface_heap ?s')"
    using reg.named_update[OF ifaces_invD(2)[OF I] p x'(1)] by simp
  show "iface_ok (iface_JS ?s') (next_addr ?s') q y" if "iface_heap ?s' q = Some y" for q y
    using ifaces_invD(3)[OF I p] ifaces_invD(3)[OF I, of q y] that x' by (auto simp: iface_ok_def split: if_splits)
  have "(\<exists>q y. ((iface_heap s)(p \<mapsto> x')) q = Some y \<and> if_fd y = fd) \<longleftrightarrow> (\<exists>q y. iface_heap s q = Some y \<and> if_fd y = fd)" for fd
    using p x'(2) by (metis fun_upd_apply option.inject)
  then show "fds_held (iface_heap ?s') (io_log ?s')"
    using ifaces_invD(4)[OF I] p x'(2) unfolding fds_held_def by auto
qed

lemma iface_put_Some: "iface_heap s p = Some x \<Longrightarrow> iface_put f p s = Some (s\<lparr>iface_heap := (iface_heap s)(p \<mapsto> f x)\<rparr>)"
  by (simp add: iface_put_def)

subsection \<open>Freeing\<close>

lemma iface_free_spec:
  assumes I: "ifaces_inv s" and p: "iface_heap s p = Some x" "if_refcnt x = 0" "if_name x = Some nm"
  obtains s' where "iface_free (Some p) s = Some s'" "ifaces_inv s'"
    "s' = s\<lparr>iface_heap := (iface_heap s)(p := None), iface_JS := js_delete (iface_JS s) nm,
       io_log := Io_close (if_fd x) # io_log s\<rparr>"
proof -
  have ok: "js_get (iface_JS s) nm = Some p" "if_hwaddr x \<noteq> None" "0 \<le> if_fd x"
    using ifaces_invD(3)[OF I p(1)] p(3) by (auto simp: iface_ok_def)
  let ?s' = "s\<lparr>iface_heap := (iface_heap s)(p := None), iface_JS := js_delete (iface_JS s) nm,
       io_log := Io_close (if_fd x) # io_log s\<rparr>"
  have run: "iface_free (Some p) s = Some ?s'"
    using p ok by (auto simp: iface_free_def Let_def io_do_def)
  have fds: "fds_held ((iface_heap s)(p := None)) (Io_close (if_fd x) # io_log s)"
  proof -
    note F = ifaces_invD(4)[OF I]
    have "(\<exists>q y. ((iface_heap s)(p := None)) q = Some y \<and> if_fd y = fd) \<longleftrightarrow>
        fd \<noteq> if_fd x \<and> (\<exists>q y. iface_heap s q = Some y \<and> if_fd y = fd)" for fd
    proof
      assume "\<exists>q y. ((iface_heap s)(p := None)) q = Some y \<and> if_fd y = fd"
      then obtain q y where y: "if_fd y = fd" "q \<noteq> p" "iface_heap s q = Some y" by (auto split: if_splits)
      then have "if_fd y \<noteq> if_fd x" using F p(1) unfolding fds_held_def by blast
      with y show "fd \<noteq> if_fd x \<and> (\<exists>q y. iface_heap s q = Some y \<and> if_fd y = fd)" by blast
    next
      assume "fd \<noteq> if_fd x \<and> (\<exists>q y. iface_heap s q = Some y \<and> if_fd y = fd)"
      then obtain q y where y: "if_fd y = fd" "fd \<noteq> if_fd x" "iface_heap s q = Some y" by blast
      with p(1) have "((iface_heap s)(p := None)) q = Some y" by auto
      with y(1) show "\<exists>q y. ((iface_heap s)(p := None)) q = Some y \<and> if_fd y = fd" by blast
    qed
    with F show ?thesis unfolding fds_held_def by (auto split: if_splits)
  qed
  have "ifaces_inv ?s'"
  proof (rule ifaces_invI)
    show "registered if_name (iface_JS ?s') (iface_heap ?s')"
      using reg.named_unlink[OF ifaces_invD(2)[OF I] p(1,3)] ok(1) by simp
    show "iface_ok (iface_JS ?s') (next_addr ?s') q y" if "iface_heap ?s' q = Some y" for q y
    proof -
      have q: "q \<noteq> p" "iface_heap s q = Some y" using that by (auto split: if_splits)
      then have y: "iface_ok (iface_JS s) (next_addr s) q y" using ifaces_invD(3)[OF I] by blast
      then obtain n where n: "if_name y = Some n" "js_get (iface_JS s) n = Some q" by (auto simp: iface_ok_def)
      with q(1) ok(1) have "n \<noteq> nm" by auto
      with y n show ?thesis
        using ifaces_invD(5)[OF I] by (simp add: iface_ok_def js.del_get)
    qed
  qed (use fds ifaces_invD(1)[OF I] in simp_all)
  with that run show ?thesis by blast
qed

subsection \<open>Opening an interface\<close>

text \<open>A state with an interface \<open>x\<close> under construction at the fresh address \<open>p\<close>.\<close>

definition iface_wip :: "'a iface_state_scheme \<Rightarrow> addr \<Rightarrow> addr \<Rightarrow> iface \<Rightarrow> io list \<Rightarrow> 'a iface_state_scheme" where
  "iface_wip s n p x l = s\<lparr>next_addr := n, iface_heap := (iface_heap s)(p \<mapsto> x), io_log := l\<rparr>"

lemma iface_wip_sel [simp]:
  "iface_heap (iface_wip s n p x l) = (iface_heap s)(p \<mapsto> x)" "iface_JS (iface_wip s n p x l) = iface_JS s"
  "io_log (iface_wip s n p x l) = l" "next_addr (iface_wip s n p x l) = n"
  by (simp_all add: iface_wip_def)

lemma iface_wip_put [simp]: "iface_put f p (iface_wip s n p x l) = Some (iface_wip s n p (f x) l)"
  by (simp add: iface_put_def iface_wip_def)

lemma iface_wip_calloc: "calloc E (iface_wip s n p x l) = (if calloc_ok E n then Some n else None, iface_wip s (n + 1) p x l)"
  by (simp add: calloc_def iface_wip_def)

lemma iface_wip_io [simp]: "io_do i (iface_wip s n p x l) = iface_wip s n p x (i # l)"
  by (simp add: io_do_def iface_wip_def)

lemma iface_wip_die:
  assumes fresh: "iface_heap s p = None" and nojs: "\<And>n. js_get (iface_JS s) n \<noteq> Some p"
    and x: "if_refcnt x = 0" "if_name x = Some t" "if_hwaddr x = Some hw"
  shows "iface_die (Some p) (iface_wip s n p x l) =
    Some (None, s\<lparr>next_addr := n, io_log := (if if_fd x = -1 then l else Io_close (if_fd x) # l)\<rparr>)"
proof -
  have "(iface_heap s)(p := None) = iface_heap s" using fresh by auto
  then show ?thesis
    using x nojs by (simp add: iface_die_def iface_free_def iface_wip_def io_do_def Let_def)
qed

text \<open>The devices that can be opened: the system answers every question about them.\<close>

definition device_ok :: "os \<Rightarrow> io list \<Rightarrow> int \<Rightarrow> string \<Rightarrow> bool" where
  "device_ok os l fd dev \<longleftrightarrow> os_ifindex os l dev \<noteq> None \<and> os_ifmtu os l dev \<noteq> None \<and> os_ifaddr os l dev \<noteq> None \<and>
     os_ifhwaddr os l dev \<noteq> None \<and> os_getflags os l dev \<and> os_setpromisc os l dev \<and> os_bind os l fd"

text \<open>What a new interface looks like.\<close>

definition iface_made :: "string \<Rightarrow> int \<Rightarrow> iface \<Rightarrow> bool" where
  "iface_made nm fd x \<longleftrightarrow> if_name x = Some nm \<and> if_fd x = fd \<and> if_refcnt x = 0 \<and> if_handler x = None \<and>
     if_hwaddr x \<noteq> None \<and> if_ip_prn x \<noteq> None \<and> if_count_in x = 0 \<and> if_count_out x = 0 \<and>
     if_count_checkfail x = 0 \<and> if_count_sockdrop x = 0"

lemma iface_grok_spec:
  assumes fresh: "iface_heap s p = None" and nojs: "\<And>n. js_get (iface_JS s) n \<noteq> Some p"
    and x: "iface_made nm fd x" "fd \<noteq> -1" and js: "judy_ok (iface_JS s)"
  shows "if device_ok os l fd (ifr_name nm)
    then \<exists>x'. iface_made nm fd x' \<and> iface_grok os nm p (iface_wip s n p x l) =
      Some (Some p, (iface_wip s n p x' l)\<lparr>iface_JS := snd (js_insert (iface_JS s) nm (Some p) True)\<rparr>)
    else iface_grok os nm p (iface_wip s n p x l) = Some (None, s\<lparr>next_addr := n, io_log := Io_close fd # l\<rparr>)"
proof -
  obtain hw where hw: "if_hwaddr x = Some hw" using x(1) by (auto simp: iface_made_def)
  have die: "iface_die (Some p) (iface_wip s n p y l) = Some (None, s\<lparr>next_addr := n, io_log := Io_close fd # l\<rparr>)"
    if "iface_made nm fd y" for y
    using iface_wip_die[OF fresh nojs, of y nm _ n l] that x(2) by (auto simp: iface_made_def)
  have rc: "fst (js_insert (iface_JS s) nm (Some p) True) = 0"
    using js by (simp add: js.ins_fst_0)
  note m = x(1)[unfolded iface_made_def]
  let ?dev = "ifr_name nm"
  show ?thesis
  proof (cases "os_ifindex os l ?dev")
    case None
    then show ?thesis by (simp add: iface_grok_def device_ok_def die x Let_def)
  next
    case i: (Some i)
    show ?thesis
    proof (cases "os_ifmtu os l ?dev")
      case None
      with i show ?thesis by (simp add: iface_grok_def device_ok_def die iface_made_def m Let_def)
    next
      case mtu: (Some mtu)
      show ?thesis
      proof (cases "os_ifaddr os l ?dev")
        case None
        with i mtu show ?thesis by (simp add: iface_grok_def device_ok_def die iface_made_def m Let_def)
      next
        case ad: (Some ad)
        obtain a b c d where ad4: "ad = (a, b, c, d)" by (cases ad)
        show ?thesis
        proof (cases "os_ifhwaddr os l ?dev")
          case None
          with i mtu ad ad4 show ?thesis by (simp add: iface_grok_def device_ok_def die iface_made_def m Let_def)
        next
          case h: (Some h)
          obtain rc js' where ins: "js_insert (iface_JS s) nm (Some p) True = (rc, js')" by (cases "js_insert (iface_JS s) nm (Some p) True")
          let ?x = "x\<lparr>if_ifindex := i, if_mtu := mtu, if_addr := Some (a, b, c, d), if_ip_prn := Some (dotted a b c d), if_hwaddr := Some h\<rparr>"
          have made: "iface_made nm fd ?x" using m by (simp add: iface_made_def)
          show ?thesis
          proof (cases "device_ok os l fd ?dev")
            case True
            then have "iface_grok os nm p (iface_wip s n p x l) = Some (Some p, (iface_wip s n p ?x l)\<lparr>iface_JS := js'\<rparr>)"
              using i mtu ad ad4 h m ins rc by (simp add: iface_grok_def device_ok_def Let_def)
            with True made ins show ?thesis by auto
          next
            case False
            with i mtu ad ad4 h have "\<not> (os_getflags os l ?dev \<and> os_setpromisc os l ?dev \<and> os_bind os l fd)"
              by (simp add: device_ok_def)
            then have "iface_grok os nm p (iface_wip s n p x l) = iface_die (Some p) (iface_wip s n p ?x l)"
              using i mtu ad ad4 h m by (auto simp: iface_grok_def Let_def)
            with False die[OF made] show ?thesis by simp
          qed
        qed
      qed
    qed
  qed
qed

text \<open>Memory that lasts for one interface: once the structure is there, its three parts are too.\<close>

definition iface_memory :: "env \<Rightarrow> addr \<Rightarrow> bool" where
  "iface_memory E n \<longleftrightarrow> calloc_ok E n \<longrightarrow> calloc_ok E (n + 1) \<and> calloc_ok E (n + 2) \<and> calloc_ok E (n + 3)"

text \<open>
  The failures that are not survived. \<open>iface_free\<close> prints the hardware address, so the structure
  cannot be given up before it has one: when the name is not copied or not whole, or memory
  for one of the three parts is refused.
\<close>

definition iface_new_lost :: "env \<Rightarrow> string \<Rightarrow> 'a iface_state_scheme \<Rightarrow> bool" where
  "iface_new_lost E nm s \<longleftrightarrow> js_get (iface_JS s) nm = None \<and> calloc_ok E (next_addr s) \<and>
     (\<not> copied E nm MAXLINELEN \<or> snd (nstralloc E nm MAXLINELEN) = E2BIG \<or>
      \<not> (calloc_ok E (next_addr s + 1) \<and> calloc_ok E (next_addr s + 2) \<and> calloc_ok E (next_addr s + 3)))"

definition iface_new_ok :: "env \<Rightarrow> os \<Rightarrow> string \<Rightarrow> 'a iface_state_scheme \<Rightarrow> bool" where
  "iface_new_ok E os nm s \<longleftrightarrow> (let fd = os_socket os (io_log s) in
     js_get (iface_JS s) nm = None \<and> calloc_ok E (next_addr s) \<and> 0 \<le> fd \<and>
     device_ok os (Io_socket fd # io_log s) fd (ifr_name nm))"

definition iface_added :: "os \<Rightarrow> string \<Rightarrow> iface \<Rightarrow> 'a iface_state_scheme \<Rightarrow> 'a iface_state_scheme" where
  "iface_added os nm x s = s\<lparr>next_addr := next_addr s + 4, iface_heap := (iface_heap s)(next_addr s \<mapsto> x),
     iface_JS := snd (js_insert (iface_JS s) nm (Some (next_addr s)) True),
     io_log := Io_socket (os_socket os (io_log s)) # io_log s\<rparr>"

lemma fds_held_added:
  assumes F: "fds_held h l" and fresh: "h p = None" and x: "if_fd x = fd" and new: "fd \<notin> open_fds l"
  shows "fds_held (h(p \<mapsto> x)) (Io_socket fd # l)"
proof -
  note F = F[unfolded fds_held_def]
  let ?h = "h(p \<mapsto> x)"
  have other: "if_fd y \<noteq> fd" if "h q = Some y" for q y
    using new F that by blast
  have inj: "q = r" if "?h q = Some y" "?h r = Some z" "if_fd y = if_fd z" for q r y z
    using that other[of q y] other[of r z] F x by (cases "q = p"; cases "r = p") auto
  have cover: "f \<in> insert fd (open_fds l) \<longleftrightarrow> (\<exists>q y. ?h q = Some y \<and> if_fd y = f)" for f
  proof
    assume "f \<in> insert fd (open_fds l)"
    then consider "f = fd" | q y where "h q = Some y" "if_fd y = f" using F by blast
    then show "\<exists>q y. ?h q = Some y \<and> if_fd y = f"
    proof cases
      case 1
      with x show ?thesis by (intro exI[of _ p]) simp
    next
      case 2
      with fresh have "?h q = Some y" by auto
      with 2(2) show ?thesis by blast
    qed
  next
    assume "\<exists>q y. ?h q = Some y \<and> if_fd y = f"
    then obtain q y where y: "?h q = Some y" "if_fd y = f" by blast
    with x F show "f \<in> insert fd (open_fds l)" by (cases "q = p") auto
  qed
  show ?thesis
    unfolding fds_held_def open_fds.simps using inj cover by blast
qed

lemma ifaces_inv_added:
  assumes E: "calloc_bounded E" and os: "sock_ok os" and I: "ifaces_inv s" and ok: "iface_new_ok E os nm s"
    and x: "iface_made nm (os_socket os (io_log s)) x"
  shows "ifaces_inv (iface_added os nm x s)"
proof (rule ifaces_invI)
  let ?p = "next_addr s" and ?fd = "os_socket os (io_log s)"
  note m = x[unfolded iface_made_def]
  have fresh: "iface_heap s ?p = None" using ifaces_inv_fresh[OF I] by simp
  have none: "js_get (iface_JS s) nm = None" and fd: "0 \<le> ?fd" and "calloc_ok E ?p"
    using ok by (simp_all add: iface_new_ok_def Let_def)
  have p: "?p < MAXALLOC" using E \<open>calloc_ok E ?p\<close> by (simp add: calloc_bounded_def)
  have get: "js_get (snd (js_insert (iface_JS s) nm (Some ?p) True)) = (js_get (iface_JS s))(nm \<mapsto> ?p)"
    using ifaces_invD(5)[OF I] none by (simp add: js.ins_get)
  show "finite (dom (iface_heap (iface_added os nm x s)))"
    using ifaces_invD(1)[OF I] by (simp add: iface_added_def)
  show "registered if_name (iface_JS (iface_added os nm x s)) (iface_heap (iface_added os nm x s))"
    using reg.named_add[OF ifaces_invD(2)[OF I] _ fresh, of x nm True] m by (simp add: iface_added_def)
  show "iface_ok (iface_JS (iface_added os nm x s)) (next_addr (iface_added os nm x s)) q y"
    if "iface_heap (iface_added os nm x s) q = Some y" for q y
  proof (cases "q = ?p")
    case True
    with that m p fd get show ?thesis by (simp add: iface_added_def iface_ok_def)
  next
    case False
    with that have y: "iface_heap s q = Some y" by (simp add: iface_added_def)
    from ifaces_invD(3)[OF I y] obtain n where n: "if_name y = Some n" "js_get (iface_JS s) n = Some q"
      by (auto simp: iface_ok_def)
    with none have "n \<noteq> nm" by auto
    with ifaces_invD(3)[OF I y] n get show ?thesis by (simp add: iface_added_def iface_ok_def)
  qed
  have "fds_held ((iface_heap s)(?p \<mapsto> x)) (Io_socket ?fd # io_log s)"
    by (rule fds_held_added[OF ifaces_invD(4)[OF I] fresh]) (use os m in \<open>simp_all add: sock_ok_def\<close>)
  then show "fds_held (iface_heap (iface_added os nm x s)) (io_log (iface_added os nm x s))"
    by (simp add: iface_added_def)
qed

text \<open>The interface before the system is asked about its device.\<close>

definition iface_blank :: "string \<Rightarrow> int \<Rightarrow> iface" where
  "iface_blank nm fd = iface_zero\<lparr>if_name := Some nm, if_ip_prn := Some '''', if_addr := Some (0, 0, 0, 0),
     if_hwaddr := Some (replicate 16 0), if_fd := fd\<rparr>"

lemma iface_blank_made: "iface_made nm fd (iface_blank nm fd)"
  by (simp add: iface_made_def iface_blank_def iface_zero_def)

lemma iface_new_opens:
  assumes E: "nstralloc_spec E" and live: "\<not> iface_new_lost E nm s"
    and none: "js_get (iface_JS s) nm = None" and ok: "calloc_ok E (next_addr s)" and fd: "fd = os_socket os (io_log s)"
  shows "iface_new E os (Some nm) s =
    (if fd < 0 then iface_die (Some (next_addr s)) (iface_wip s (next_addr s + 4) (next_addr s) (iface_blank nm fd) (io_log s))
     else iface_grok os nm (next_addr s)
            (iface_wip s (next_addr s + 4) (next_addr s) (iface_blank nm fd) (Io_socket fd # io_log s)))"
proof -
  let ?p = "next_addr s"
  have "calloc E s = (Some ?p, s\<lparr>next_addr := ?p + 1\<rparr>)" using ok by (simp add: calloc_def)
  then have "iface_new E os (Some nm) s = iface_open E os nm ?p (iface_wip s (?p + 1) ?p iface_zero (io_log s))"
    using none by (simp add: iface_new_def iface_wip_def)
  moreover have c: "copied E nm MAXLINELEN" "snd (nstralloc E nm MAXLINELEN) \<noteq> E2BIG"
    "calloc_ok E (?p + 1)" "calloc_ok E (?p + 2)" "calloc_ok E (?p + 3)"
    using live none ok by (simp_all add: iface_new_lost_def)
  moreover obtain e where "nstralloc E nm MAXLINELEN = (Some nm, e)" "e \<noteq> E2BIG"
    using copied_cases[OF E c(1)] c(2) by (metis snd_conv)
  ultimately show ?thesis
    by (simp add: iface_open_def iface_wip_calloc iface_blank_def fd Let_def numeral_eq_Suc)
qed

lemma iface_new_refused:
  assumes E: "nstralloc_spec E" and os: "sock_ok os" and I: "ifaces_inv s" and live: "\<not> iface_new_lost E nm s"
    and no: "\<not> iface_new_ok E os nm s"
  obtains n l where "iface_new E os (Some nm) s = Some (None, s\<lparr>next_addr := n, io_log := l\<rparr>)"
    "next_addr s \<le> n" "open_fds l = open_fds (io_log s)" "tracked l = tracked (io_log s)"
proof -
  let ?p = "next_addr s" and ?fd = "os_socket os (io_log s)"
  have fresh: "iface_heap s ?p = None" using ifaces_inv_fresh[OF I] by simp
  have nojs: "js_get (iface_JS s) n \<noteq> Some ?p" for n using reg.get_fresh[OF ifaces_invD(2)[OF I] fresh] .
  have closed: "open_fds (Io_close ?fd # Io_socket ?fd # io_log s) = open_fds (io_log s)"
    "open_fds (Io_close ?fd # io_log s) = open_fds (io_log s)"
    using os by (auto simp: sock_ok_def)
  have tr: "tracked (Io_close ?fd # l) = tracked l" "tracked (Io_socket ?fd # l) = tracked l" for l
    by (simp_all add: fun_eq_iff)
  consider (taken) "js_get (iface_JS s) nm \<noteq> None" | (memory) "js_get (iface_JS s) nm = None" "\<not> calloc_ok E ?p"
    | (socket) "js_get (iface_JS s) nm = None" "calloc_ok E ?p" "?fd < 0"
    | (device) "js_get (iface_JS s) nm = None" "calloc_ok E ?p" "\<not> ?fd < 0"
        "\<not> device_ok os (Io_socket ?fd # io_log s) ?fd (ifr_name nm)"
    using no unfolding iface_new_ok_def Let_def by fastforce
  then show ?thesis
  proof cases
    case taken
    then show ?thesis
      using that[where n = ?p and l = "io_log s"] by (simp add: iface_new_def iface_die_def iface_free_def Let_def)
  next
    case memory
    then show ?thesis
      using that[where n = "?p + 1" and l = "io_log s"]
      by (simp add: iface_new_def iface_die_def iface_free_def calloc_def Let_def)
  next
    case socket
    note m = iface_blank_made[of nm ?fd, unfolded iface_made_def]
    obtain hw where "if_hwaddr (iface_blank nm ?fd) = Some hw" using m by blast
    from iface_wip_die[OF fresh nojs _ _ this, of nm "?p + 4" "io_log s"] m
    have "iface_new E os (Some nm) s =
        Some (None, s\<lparr>next_addr := ?p + 4, io_log := (if ?fd = -1 then io_log s else Io_close ?fd # io_log s)\<rparr>)"
      unfolding iface_new_opens[OF E live socket(1,2) refl] using socket(3) by simp
    then show ?thesis by (rule that) (use closed(2) tr(1) in auto)
  next
    case device
    then have "?fd \<noteq> -1" by simp
    from iface_grok_spec[OF fresh nojs iface_blank_made this ifaces_invD(5)[OF I], where os = os and nm = nm and l = "Io_socket ?fd # io_log s" and n = "?p + 4"] device(4)
    have "iface_new E os (Some nm) s = Some (None, s\<lparr>next_addr := ?p + 4, io_log := Io_close ?fd # Io_socket ?fd # io_log s\<rparr>)"
      unfolding iface_new_opens[OF E live device(1,2) refl] using device(3) by simp
    then show ?thesis by (rule that) (use closed(1) tr in simp_all)
  qed
qed

lemma iface_new_made:
  assumes E: "nstralloc_spec E" "calloc_bounded E" and os: "sock_ok os" and I: "ifaces_inv s"
    and live: "\<not> iface_new_lost E nm s" and ok: "iface_new_ok E os nm s"
  obtains x where "iface_made nm (os_socket os (io_log s)) x"
    "iface_new E os (Some nm) s = Some (Some (next_addr s), iface_added os nm x s)" "ifaces_inv (iface_added os nm x s)"
proof -
  let ?p = "next_addr s" and ?fd = "os_socket os (io_log s)"
  have c: "js_get (iface_JS s) nm = None" "calloc_ok E ?p" "\<not> ?fd < 0" "?fd \<noteq> -1"
    "device_ok os (Io_socket ?fd # io_log s) ?fd (ifr_name nm)" using ok by (auto simp: iface_new_ok_def Let_def)
  have fresh: "iface_heap s ?p = None" using ifaces_inv_fresh[OF I] by simp
  have nojs: "js_get (iface_JS s) n \<noteq> Some ?p" for n using reg.get_fresh[OF ifaces_invD(2)[OF I] fresh] .
  from iface_grok_spec[OF fresh nojs iface_blank_made c(4) ifaces_invD(5)[OF I], where os = os and nm = nm and l = "Io_socket ?fd # io_log s" and n = "?p + 4"] c(5)
  obtain x where x: "iface_made nm ?fd x"
    "iface_grok os nm ?p (iface_wip s (?p + 4) ?p (iface_blank nm ?fd) (Io_socket ?fd # io_log s)) =
     Some (Some ?p, (iface_wip s (?p + 4) ?p x (Io_socket ?fd # io_log s))
       \<lparr>iface_JS := snd (js_insert (iface_JS s) nm (Some ?p) True)\<rparr>)" by auto
  have "iface_new E os (Some nm) s = Some (Some ?p, iface_added os nm x s)"
    unfolding iface_new_opens[OF E(1) live c(1,2) refl] if_not_P[OF c(3)] x(2) by (simp add: iface_wip_def iface_added_def)
  then show ?thesis using that[OF x(1)] ifaces_inv_added[OF E(2) os I ok x(1)] by blast
qed

lemma iface_new_spec:
  assumes E: "env_ok E" and os: "sock_ok os" and I: "ifaces_inv s" and nm: "length nm < MAXLINELEN"
    and mem: "iface_memory E (next_addr s)"
  obtains (made) x where "iface_new_ok E os nm s" "iface_made nm (os_socket os (io_log s)) x"
      "iface_new E os (Some nm) s = Some (Some (next_addr s), iface_added os nm x s)" "ifaces_inv (iface_added os nm x s)"
  | (refused) n l where "\<not> iface_new_ok E os nm s" "iface_new E os (Some nm) s = Some (None, s\<lparr>next_addr := n, io_log := l\<rparr>)"
      "next_addr s \<le> n" "open_fds l = open_fds (io_log s)" "tracked l = tracked (io_log s)"
proof -
  have spec: "nstralloc_spec E" "calloc_bounded E" using E by (simp_all add: env_ok_def nstralloc_ok_def)
  have live: "\<not> iface_new_lost E nm s"
    using mem nm E by (simp add: iface_new_lost_def iface_memory_def env_ok_def nstralloc_fits) (simp add: nstralloc_ok_def)
  show ?thesis
  proof (cases "iface_new_ok E os nm s")
    case True
    with iface_new_made[OF spec os I live True] made show ?thesis by metis
  next
    case False
    with iface_new_refused[OF spec(1) os I live False] refused show ?thesis by metis
  qed
qed

lemma iface_die_blind:
  "iface_heap s p = Some x \<Longrightarrow> if_refcnt x = 0 \<Longrightarrow> if_hwaddr x = None \<Longrightarrow> iface_die (Some p) s = None"
  by (cases "if_name x") (simp_all add: iface_die_def iface_free_def Let_def)

lemma iface_new_is_lost:
  assumes "iface_new_lost E nm s"
  shows "iface_new E os (Some nm) s = None"
proof -
  let ?p = "next_addr s"
  obtain copy err where n: "nstralloc E nm MAXLINELEN = (copy, err)" by (cases "nstralloc E nm MAXLINELEN")
  from assms have c: "js_get (iface_JS s) nm = None" "calloc_ok E ?p"
    and "copy = None \<or> err = E2BIG \<or> \<not> (calloc_ok E (?p + 1) \<and> calloc_ok E (?p + 2) \<and> calloc_ok E (?p + 3))"
    by (auto simp: iface_new_lost_def copied_def n)
  then consider (name) "copy = None \<or> err = E2BIG"
    | (ip) "copy \<noteq> None" "err \<noteq> E2BIG" "\<not> calloc_ok E (?p + 1)"
    | (ad) "copy \<noteq> None" "err \<noteq> E2BIG" "calloc_ok E (?p + 1)" "\<not> calloc_ok E (?p + 2)"
    | (hw) "copy \<noteq> None" "err \<noteq> E2BIG" "calloc_ok E (?p + 1)" "calloc_ok E (?p + 2)" "\<not> calloc_ok E (?p + 3)"
    by blast
  then show ?thesis
    by cases (auto simp: iface_new_def iface_open_def iface_put_def calloc_def c n iface_die_blind iface_zero_def
        numeral_eq_Suc Let_def)
qed

subsection \<open>Printing\<close>

lemma iface_emit_total:
  assumes I: "ifaces_inv s" and p: "iface_heap s p = Some x"
  shows "\<exists>y. iface_emit p s (Some items) = Some (Some (items @ [y]))"
  using ifaces_invD(3)[OF I p] p by (auto simp: iface_ok_def iface_emit_def Let_def)

lemma iface_emit_all_total:
  assumes I: "ifaces_inv s"
  shows "\<exists>items'. iface_emit_all s (Some items) = Some (Some items')"
proof -
  have "\<exists>out. loop_vals (\<lambda>p out. iface_emit p s out) (jl_vals (iface_JS s)) (Some items) = Some out \<and> out \<noteq> None"
  proof (rule loop_vals_total)
    fix p and out :: yout assume p: "p \<in> set (jl_vals (iface_JS s))" and "out \<noteq> None"
    then obtain acc where acc: "out = Some acc" by blast
    obtain k where "js_get (iface_JS s) k = Some p" using js_vals_get[OF ifaces_invD(5)[OF I] p] .
    then obtain x where "iface_heap s p = Some x" by (rule ifaces_inv_get[OF I])
    with iface_emit_total[OF I this, of acc] acc
    show "\<exists>out'. iface_emit p s out = Some out' \<and> out' \<noteq> None" by auto
  qed simp
  then show ?thesis by (auto simp: iface_emit_all_def js_loop_const[OF ifaces_invD(5)[OF I]])
qed

subsection \<open>Parsing\<close>

text \<open>
  What the code relies on of \<open>eptk_remove\<close>: it runs the destructor of what is registered for the descriptor and
  returns how many it removed.
\<close>

definition tracker_ok :: "os \<Rightarrow> bool" where
  "tracker_ok os \<longleftrightarrow> (\<forall>l fd. ek_remove os l fd = (case tracked l fd of Some p \<Rightarrow> ([p], 1) | None \<Rightarrow> ([], 0)))"

text \<open>What is registered is a live interface.\<close>

definition ifaces_tracked :: "'a iface_state_scheme \<Rightarrow> bool" where
  "ifaces_tracked s \<longleftrightarrow> (\<forall>fd p. tracked (io_log s) fd = Some p \<longrightarrow> (\<exists>x. iface_heap s p = Some x \<and> if_fd x = fd))"

text \<open>What a call of \<open>iface_parse\<close> may do: add an interface that nothing refers to, or free one.\<close>

definition iface_effect :: "parse_mode \<Rightarrow> 'a iface_state_scheme \<Rightarrow> 'a iface_state_scheme \<Rightarrow> bool" where
  "iface_effect mode s s' \<longleftrightarrow> (\<exists>n h js l. s' = s\<lparr>next_addr := n, iface_heap := h, iface_JS := js, io_log := l\<rparr> \<and>
     next_addr s \<le> n \<and>
     (h = iface_heap s \<and> js = iface_JS s \<or>
      mode = PARSE_ADD \<and> (\<exists>p x nm. iface_heap s p = None \<and> js_get (iface_JS s) nm = None \<and> if_refcnt x = 0 \<and>
        if_handler x = None \<and> h = (iface_heap s)(p \<mapsto> x) \<and> if_name x = Some nm \<and>
        js_get js = (js_get (iface_JS s))(nm \<mapsto> p)) \<or>
      mode = PARSE_DEL \<and> (\<exists>p x nm. iface_heap s p = Some x \<and> if_refcnt x = 0 \<and> if_name x = Some nm \<and>
        js_get (iface_JS s) nm = Some p \<and> h = (iface_heap s)(p := None) \<and> js = js_delete (iface_JS s) nm)))"

lemma iface_effect_sameI:
  "s' = s\<lparr>next_addr := n, io_log := l\<rparr> \<Longrightarrow> next_addr s \<le> n \<Longrightarrow> iface_effect mode s s'"
  unfolding iface_effect_def
  by (intro exI[of _ n] exI[of _ "iface_heap s"] exI[of _ "iface_JS s"] exI[of _ l]) simp

lemma iface_effect_refl: "iface_effect mode s s"
  by (rule iface_effect_sameI[where n = "next_addr s" and l = "io_log s"]) simp_all

lemma iface_effect_delI:
  "iface_heap s p = Some x \<Longrightarrow> if_refcnt x = 0 \<Longrightarrow> if_name x = Some nm \<Longrightarrow> js_get (iface_JS s) nm = Some p \<Longrightarrow>
   s' = s\<lparr>iface_heap := (iface_heap s)(p := None), iface_JS := js_delete (iface_JS s) nm, io_log := l\<rparr> \<Longrightarrow>
   iface_effect PARSE_DEL s s'"
  unfolding iface_effect_def
  by (intro exI[of _ "next_addr s"] exI[of _ "(iface_heap s)(p := None)"]
      exI[of _ "js_delete (iface_JS s) nm"] exI[of _ l]) auto

lemma iface_effect_addI:
  assumes I: "ifaces_inv s" and x: "iface_made nm fd x" and none: "js_get (iface_JS s) nm = None"
    and s': "s' = (iface_added os nm x s)\<lparr>io_log := l\<rparr>"
  shows "iface_effect PARSE_ADD s s'"
proof -
  have "js_get (snd (js_insert (iface_JS s) nm (Some (next_addr s)) True)) = (js_get (iface_JS s))(nm \<mapsto> next_addr s)"
    using ifaces_invD(5)[OF I] none by (simp add: js.ins_get)
  moreover have "iface_heap s (next_addr s) = None" using ifaces_inv_fresh[OF I] by simp
  ultimately show ?thesis
    unfolding iface_effect_def s' iface_added_def
    using x none
    by (intro exI[of _ "next_addr s + 4"] exI[of _ "(iface_heap s)(next_addr s \<mapsto> x)"]
        exI[of _ "snd (js_insert (iface_JS s) nm (Some (next_addr s)) True)"] exI[of _ l])
      (auto simp: iface_made_def)
qed

lemma iface_parse_pairs_total:
  assumes "ymap_ok ps" and "P name" and "\<And>k t. (k, YScalar t) \<in> set ps \<Longrightarrow> P t"
  shows "\<exists>d e' nm. iface_parse_pairs ps e name = Some (d, e', nm) \<and> P nm"
  using assms
proof (induction ps arbitrary: e name)
  case (Cons kv ps)
  obtain key val where kv: "kv = (key, val)" by (cases kv)
  then obtain kn where kn: "scalar_value key = Some kn" "ymap_ok ps" using Cons.prems(1) by auto
  have IH: "\<exists>d e' nm. iface_parse_pairs ps e name = Some (d, e', nm) \<and> P nm" if "P name" for e name
    by (rule Cons.IH[OF kn(2) that], rule Cons.prems(3), rule list.set_intros(2))
  show ?case
  proof (cases val)
    case (YScalar t)
    then have "P t" using Cons.prems(3)[of key t] kv by simp
    with IH[of t e] IH[OF Cons.prems(2)] kn kv YScalar show ?thesis by auto
  qed (use kn kv Cons.prems(2) in auto)
qed (simp add: exI[of _ False])

lemma tracked_fresh:
  assumes "ifaces_inv s" and "ifaces_tracked s" and "fd \<notin> open_fds (io_log s)"
  shows "tracked (io_log s) fd = None"
proof (cases "tracked (io_log s) fd")
  case (Some p)
  then obtain x where "iface_heap s p = Some x" "if_fd x = fd" using assms(2) by (auto simp: ifaces_tracked_def)
  then have "fd \<in> open_fds (io_log s)" using ifaces_invD(4)[OF assms(1)] by (auto simp: fds_held_def)
  with assms(3) show ?thesis by simp
qed

lemma iface_del_spec:
  assumes I: "ifaces_inv s" and T: "ifaces_tracked s" and tr: "tracker_ok os"
  shows "\<exists>e' items' s'. (case js_get (iface_JS s) name of
                 None \<Rightarrow> Some (e + 1, Some items, s)
               | Some p \<Rightarrow>
                   do { iface \<leftarrow> iface_heap s p;
                        if if_refcnt iface \<noteq> 0 then Some (e + 1, Some items, s)
                        else do { out \<leftarrow> iface_emit p s (Some items);
                                  let (ctxs, rc) = ek_remove os (io_log s) (if_fd iface);
                                  s \<leftarrow> iface_free_list ctxs (io_do (Io_remove (if_fd iface)) s);
                                  Some (if rc \<noteq> 1 then e + 1 else e, out, s) } })
     = Some (e', Some items', s') \<and> ifaces_inv s' \<and> ifaces_tracked s' \<and> iface_effect PARSE_DEL s s'"
proof (cases "js_get (iface_JS s) name")
  case None
  with I T iface_effect_refl show ?thesis by simp
next
  case (Some p)
  then obtain x where x: "iface_heap s p = Some x" "if_name x = Some name" by (rule ifaces_inv_get[OF I])
  obtain y where y: "iface_emit p s (Some items) = Some (Some (items @ [y]))" using iface_emit_total[OF I x(1)] by blast
  let ?s0 = "io_do (Io_remove (if_fd x)) s"
  have I0: "ifaces_inv ?s0" by (rule ifaces_inv_cong[OF I]) (simp_all add: io_do_def)
  show ?thesis
  proof (cases "if_refcnt x = 0")
    case False
    with Some x I T iface_effect_refl show ?thesis by simp
  next
    case z: True
    show ?thesis
    proof (cases "tracked (io_log s) (if_fd x)")
      case None
      then have "ek_remove os (io_log s) (if_fd x) = ([], 0)" using tr by (simp add: tracker_ok_def)
      moreover have "ifaces_tracked ?s0" using T by (auto simp: ifaces_tracked_def io_do_def split: if_splits)
      moreover have "iface_effect PARSE_DEL s ?s0"
        by (rule iface_effect_sameI[where n = "next_addr s" and l = "Io_remove (if_fd x) # io_log s"]) (simp_all add: io_do_def)
      ultimately show ?thesis using Some x z y I0 by simp
    next
      case t: (Some q)
      obtain z where "iface_heap s q = Some z" "if_fd z = if_fd x" using T t by (auto simp: ifaces_tracked_def)
      then have q: "q = p" using ifaces_invD(4)[OF I] x(1) by (auto simp: fds_held_def)
      have "iface_heap ?s0 p = Some x" using x by (simp add: io_do_def)
      then obtain s' where s': "iface_free (Some p) ?s0 = Some s'" "ifaces_inv s'"
        "s' = ?s0\<lparr>iface_heap := (iface_heap ?s0)(p := None), iface_JS := js_delete (iface_JS ?s0) name,
           io_log := Io_close (if_fd x) # io_log ?s0\<rparr>"
        using iface_free_spec[OF I0 _ z x(2)] by blast
      have "ek_remove os (io_log s) (if_fd x) = ([p], 1)" using tr t q by (simp add: tracker_ok_def)
      moreover have "ifaces_tracked s'"
        unfolding ifaces_tracked_def
      proof (intro allI impI)
        fix fd r assume r: "tracked (io_log s') fd = Some r"
        then have "fd \<noteq> if_fd x" "tracked (io_log s) fd = Some r" using s'(3) by (auto simp: io_do_def split: if_splits)
        then obtain w where w: "iface_heap s r = Some w" "if_fd w = fd" using T by (auto simp: ifaces_tracked_def)
        with \<open>fd \<noteq> if_fd x\<close> x(1) have "r \<noteq> p" by auto
        with w s'(3) show "\<exists>w. iface_heap s' r = Some w \<and> if_fd w = fd" by (auto simp: io_do_def)
      qed
      moreover have "iface_effect PARSE_DEL s s'"
        by (rule iface_effect_delI[OF x(1) z x(2) Some, where l = "Io_close (if_fd x) # Io_remove (if_fd x) # io_log s"])
          (simp add: s'(3) io_do_def)
      ultimately show ?thesis using Some x z y s'(1,2) by simp
    qed
  qed
qed

lemma iface_add_spec:
  assumes E: "env_ok E" and os: "sock_ok os" and I: "ifaces_inv s" and T: "ifaces_tracked s"
    and nm: "length name < MAXLINELEN" and mem: "iface_memory E (next_addr s)"
  shows "\<exists>e' items' s'. do { (ip, s) \<leftarrow> iface_new E os (Some name) s;
                   case ip of
                     None \<Rightarrow> Some (e + 1, Some items, s)
                   | Some p \<Rightarrow>
                       do { iface \<leftarrow> iface_heap s p;
                            let rc = ek_register os (io_log s) (if_fd iface) p;
                            let s = io_do (Io_register (if_fd iface) p rc) s;
                            if rc \<noteq> 0 then Some (e + 1, Some items, s)
                            else do { out \<leftarrow> iface_emit p s (Some items); Some (e, out, s) } } }
     = Some (e', Some items', s') \<and> ifaces_inv s' \<and> ifaces_tracked s' \<and> iface_effect PARSE_ADD s s'"
proof (rule iface_new_spec[OF E os I nm mem])
  fix n l
  assume new: "iface_new E os (Some name) s = Some (None, s\<lparr>next_addr := n, io_log := l\<rparr>)" "next_addr s \<le> n"
    and l: "open_fds l = open_fds (io_log s)" "tracked l = tracked (io_log s)"
  let ?s' = "s\<lparr>next_addr := n, io_log := l\<rparr>"
  have "ifaces_inv ?s'" by (rule ifaces_inv_cong[OF I]) (use l new(2) in simp_all)
  moreover have "ifaces_tracked ?s'" using T l(2) by (simp add: ifaces_tracked_def)
  moreover have "iface_effect PARSE_ADD s ?s'" by (rule iface_effect_sameI[OF refl new(2)])
  ultimately show ?thesis using new(1) by simp
next
  fix x
  assume ok: "iface_new_ok E os name s" and x: "iface_made name (os_socket os (io_log s)) x"
    and new: "iface_new E os (Some name) s = Some (Some (next_addr s), iface_added os name x s)"
    and I1: "ifaces_inv (iface_added os name x s)"
  let ?p = "next_addr s" and ?fd = "os_socket os (io_log s)" and ?s1 = "iface_added os name x s"
  define rc where "rc = ek_register os (io_log ?s1) ?fd ?p"
  let ?s2 = "io_do (Io_register ?fd ?p rc) ?s1"
  have none: "js_get (iface_JS s) name = None" using ok by (simp add: iface_new_ok_def Let_def)
  have p: "iface_heap ?s1 ?p = Some x" "if_fd x = ?fd" using x by (simp_all add: iface_added_def iface_made_def)
  have I2: "ifaces_inv ?s2" by (rule ifaces_inv_cong[OF I1]) (simp_all add: io_do_def)
  have "ifaces_tracked ?s2"
    unfolding ifaces_tracked_def
  proof (intro allI impI)
    fix fd q assume q: "tracked (io_log ?s2) fd = Some q"
    show "\<exists>w. iface_heap ?s2 q = Some w \<and> if_fd w = fd"
    proof (cases "fd = ?fd \<and> rc = 0")
      case True
      with q p show ?thesis by (auto simp: io_do_def iface_added_def)
    next
      case False
      with q have "tracked (io_log s) fd = Some q" by (auto simp: io_do_def iface_added_def)
      then obtain w where w: "iface_heap s q = Some w" "if_fd w = fd" using T by (auto simp: ifaces_tracked_def)
      with ifaces_inv_fresh[OF I, of ?p] have "q \<noteq> ?p" by auto
      with w show ?thesis by (simp add: io_do_def iface_added_def)
    qed
  qed
  moreover have "iface_effect PARSE_ADD s ?s2"
    by (rule iface_effect_addI[OF I x none, where l = "Io_register ?fd ?p rc # Io_socket ?fd # io_log s"])
      (simp add: io_do_def iface_added_def)
  moreover have "iface_heap ?s2 ?p = Some x" using p(1) by (simp add: io_do_def)
  then obtain y where "iface_emit ?p ?s2 (Some items) = Some (Some (items @ [y]))"
    using iface_emit_total[OF I2] by blast
  ultimately show ?thesis using new p I2 by (cases "rc = 0") (simp_all add: Let_def rc_def[symmetric])
qed

text \<open>The texts in a mapping that can be names.\<close>

definition short_names :: "(ynode \<times> ynode) list \<Rightarrow> bool" where
  "short_names ps \<longleftrightarrow> (\<forall>(k, v) \<in> set ps. case v of YScalar t \<Rightarrow> length t < MAXLINELEN | _ \<Rightarrow> True)"

lemma iface_parse_spec:
  assumes E: "env_ok E" and os: "sock_ok os" "tracker_ok os" and I: "ifaces_inv s" and T: "ifaces_tracked s"
    and mem: "mode = PARSE_ADD \<Longrightarrow> iface_memory E (next_addr s)" and ps: "ymap_ok ps" "mode = PARSE_ADD \<Longrightarrow> short_names ps"
  shows "\<exists>e items' s'. iface_parse E os mode ps (Some items) s = Some (e, Some items', s') \<and>
    ifaces_inv s' \<and> ifaces_tracked s' \<and> iface_effect mode s s'"
proof -
  have short: "mode = PARSE_ADD \<longrightarrow> length t < MAXLINELEN" if "(k, YScalar t) \<in> set ps" for k t
    using ps(2) that by (force simp: short_names_def)
  obtain d e nm where l: "iface_parse_pairs ps 0 '''' = Some (d, e, nm)" "mode = PARSE_ADD \<longrightarrow> length nm < MAXLINELEN"
    using iface_parse_pairs_total[OF ps(1), of "\<lambda>t. mode = PARSE_ADD \<longrightarrow> length t < MAXLINELEN" "''''" 0] short
    by (auto simp: MAXLINELEN_def)
  have same: "\<exists>e items' s'. r = Some (e, Some items', s') \<and> ifaces_inv s' \<and> ifaces_tracked s' \<and> iface_effect mode s s'"
    if "r = Some (e', Some items', s)" for r :: "(nat \<times> yout \<times> 'a iface_state_scheme) option" and e' items'
    using that I T iface_effect_refl by blast
  show ?thesis
  proof (cases d)
    case True
    with l show ?thesis by (intro same) (simp add: iface_parse_def)
  next
    case False
    show ?thesis
    proof (cases mode)
      case PARSE_INVALID
      with l False show ?thesis by (intro same) (simp add: iface_parse_def)
    next
      case PARSE_ADD
      with iface_add_spec[OF E os(1) I T _ mem, where name = nm and e = e and items = items] l False show ?thesis by (simp add: iface_parse_def)
    next
      case PARSE_DEL
      with iface_del_spec[OF I T os(2), where name = nm and e = e and items = items] l False show ?thesis by (simp add: iface_parse_def)
    next
      case PARSE_PRN
      have "\<exists>items'. iface_parse E os mode ps (Some items) s = Some (e, Some items', s)"
      proof (cases "js_get (iface_JS s) nm")
        case None
        with iface_emit_all_total[OF I, of items] l False PARSE_PRN show ?thesis by (auto simp: iface_parse_def)
      next
        case (Some p)
        then obtain x where "iface_heap s p = Some x" by (rule ifaces_inv_get[OF I])
        from iface_emit_total[OF I this, of items] iface_emit_all_total[OF I, of items] l False PARSE_PRN Some
        show ?thesis by (auto simp: iface_parse_def)
      qed
      then show ?thesis using same by blast
    qed
  qed
qed

subsection \<open>What this gives\<close>

text \<open>A system that grants everything, for the examples.\<close>

definition next_fd :: "io list \<Rightarrow> int" where
  "next_fd l = foldr (\<lambda>i m. case i of Io_socket fd \<Rightarrow> max m (fd + 1) | _ \<Rightarrow> m) l 3"

definition os0 :: os where
  "os0 = \<lparr>os_socket = next_fd, os_ifindex = (\<lambda>_ _. Some 2), os_ifmtu = (\<lambda>_ _. Some 1500),
     os_ifaddr = (\<lambda>_ _. Some (10, 0, 0, 1)), os_ifhwaddr = (\<lambda>_ _. Some (replicate 16 0)),
     os_getflags = (\<lambda>_ _. True), os_setpromisc = (\<lambda>_ _. True), os_bind = (\<lambda>_ _. True),
     os_send = (\<lambda>_ _ bs. int (length bs)), ek_register = (\<lambda>_ _ _. 0),
     ek_remove = (\<lambda>l fd. case tracked l fd of Some p \<Rightarrow> ([p], 1) | None \<Rightarrow> ([], 0))\<rparr>"

lemma open_fds_less: "fd \<in> open_fds l \<Longrightarrow> fd < next_fd l"
  by (induction l rule: open_fds.induct) (auto simp: next_fd_def)

lemma os0_ok: "sock_ok os0" "tracker_ok os0"
  using open_fds_less[of "next_fd l" l for l] by (auto simp: sock_ok_def tracker_ok_def os0_def)

definition iface_state1 :: iface_state where
  "iface_state1 = \<lparr>next_addr = 2, field_heap = field_heap op_state1, field_JS = field_JS op_state1,
     memref_heap = Map.empty, state_JS = [], op_heap = Map.empty, rule_heap = Map.empty, rule_JS = [],
     iface_heap = Map.empty, iface_JS = [], io_log = []\<rparr>"

lemma ifaces_inv1: "ifaces_inv iface_state1" "ifaces_tracked iface_state1"
  by (simp_all add: ifaces_inv_def ifaces_tracked_def iface_state1_def registered_def js_get_def fds_held_def)

lemma iface_memory0: "n + 3 < 2 ^ 30 \<Longrightarrow> iface_memory env0 n"
  by (simp add: iface_memory_def)

definition iface_text1 :: "(ynode \<times> ynode) list" where
  "iface_text1 = [(YScalar ''iface'', YScalar ''eth0'')]"

text \<open>
  C20: opening an interface, on every path. \<open>iface_new\<close> succeeds when the name is free, there is
  memory and the system answers for the device; then there is one more interface, of
  that name, with its own open socket and counters at 0. When the name is taken, the structure
  is refused memory, the socket cannot be opened, or any of the questions about the device fails,
  the interfaces are as before and the socket that was opened is closed again. The remaining
  failures, between the structure and its socket, are not survived: when the copy of the name is
  refused or truncated, or memory for one of the three parts is refused, \<open>iface_free\<close> reads the
  hardware address through NULL.
\<close>

theorem iface_new_correct:
  assumes "nstralloc_spec E" and "calloc_bounded E" and "sock_ok os" and "ifaces_inv s"
  shows "if iface_new_lost E nm s then iface_new E os (Some nm) s = None
    else if iface_new_ok E os nm s
    then \<exists>x. iface_new E os (Some nm) s = Some (Some (next_addr s), iface_added os nm x s) \<and>
      iface_made nm (os_socket os (io_log s)) x \<and> ifaces_inv (iface_added os nm x s)
    else \<exists>n l. iface_new E os (Some nm) s = Some (None, s\<lparr>next_addr := n, io_log := l\<rparr>) \<and>
      open_fds l = open_fds (io_log s)"
proof (cases "iface_new_lost E nm s")
  case True
  then show ?thesis by (simp add: iface_new_is_lost)
next
  case live: False
  show ?thesis
  proof (cases "iface_new_ok E os nm s")
    case True
    from iface_new_made[OF assms live True] live True show ?thesis by metis
  next
    case False
    from iface_new_refused[OF assms(1,3,4) live False] live False show ?thesis by metis
  qed
qed

theorem iface_new_correct_witness:
  "\<exists>x s'. iface_new env0 os0 (Some ''eth0'') iface_state1 = Some (Some 2, s') \<and> iface_heap s' 2 = Some x \<and>
     if_name x = Some ''eth0''"
proof -
  have ok: "iface_new_ok env0 os0 ''eth0'' iface_state1"
    by (simp add: iface_new_ok_def iface_state1_def os0_def next_fd_def device_ok_def js_get_def)
  have n: "next_addr iface_state1 = 2" by (simp add: iface_state1_def)
  have "\<not> iface_new_lost env0 ''eth0'' iface_state1"
    by (simp add: iface_new_lost_def n nstralloc_ref_def MAXLINELEN_def)
  with iface_new_correct[OF nstralloc_env0(1) calloc_bounded_env0 os0_ok(1) ifaces_inv1(1), of "''eth0''"] ok n
  show ?thesis by (auto simp: iface_added_def iface_made_def)
qed

text \<open>
  C10: the invariant of the interfaces. Adding, deleting and printing interfaces, for any
  document with scalar keys and names that fit, when memory lasts for all of an interface or for
  nothing of it, keeps it: every interface is found under its name, owns exactly
  one open socket, no other socket is open, and what the tracker knows is live. At most the
  interface of the document is added, if its name was free, or deleted, if nothing refers to
  it; fields, operations and rules are untouched.
\<close>

theorem iface_parse_correct:
  assumes "env_ok E" and "sock_ok os" and "tracker_ok os" and "ifaces_inv s" and "ifaces_tracked s"
    and "iface_memory E (next_addr s)" and "ymap_ok ps" and "short_names ps"
  shows "\<exists>e items' s'. iface_parse E os mode ps (Some items) s = Some (e, Some items', s') \<and>
    ifaces_inv s' \<and> ifaces_tracked s' \<and> iface_effect mode s s'"
  using iface_parse_spec[OF assms(1-5), of mode ps items] assms(6-8) by blast

theorem iface_parse_correct_witness:
  "\<exists>e items' s'. iface_parse env0 os0 PARSE_ADD iface_text1 (Some []) iface_state1 = Some (e, Some items', s') \<and>
    ifaces_inv s'"
proof -
  have "iface_memory env0 (next_addr iface_state1)" "ymap_ok iface_text1" "short_names iface_text1"
    by (simp_all add: iface_state1_def iface_memory0 iface_text1_def short_names_def MAXLINELEN_def)
  from iface_parse_correct[OF env_ok_env0 os0_ok ifaces_inv1 this, of PARSE_ADD "[]"] show ?thesis by blast
qed

text \<open>
  C38: a name that is too long crashes the program. When \<open>nstralloc\<close> reports that the name does
  not fit into 48 bytes, \<open>iface_new\<close> hands the structure to \<open>iface_free\<close>, which prints the
  hardware address through a pointer that is still NULL.
\<close>

theorem iface_new_long_name:
  assumes "env_ok E" and "MAXLINELEN < length nm" and "calloc_ok E (next_addr s)" and "js_get (iface_JS s) nm = None"
    and "\<And>n. js_get (iface_JS s) n \<noteq> Some (next_addr s)"
  shows "iface_new E os (Some nm) s = None"
proof -
  obtain t where t: "nstralloc E nm MAXLINELEN = (Some t, E2BIG)"
    using nstralloc_cases[OF env_okD(1)[OF assms(1)], of nm MAXLINELEN] assms(2) by (metis not_less)
  have "calloc E s = (Some (next_addr s), s\<lparr>next_addr := next_addr s + 1\<rparr>)" using assms(3) by (simp add: calloc_def)
  with assms(4,5) t show ?thesis
    by (simp add: iface_new_def iface_open_def iface_put_def iface_die_def iface_free_def iface_zero_def Let_def)
qed

theorem iface_new_long_name_witness:
  "iface_new env0 os0 (Some (replicate 60 CHR ''a'')) iface_state1 = None"
  by (rule iface_new_long_name) (simp_all add: MAXLINELEN_def iface_state1_def js_get_def)

text \<open>
  C39: an interface that the epoll tracker does not know, because its registration failed when
  it was added, cannot be deleted: \<open>iface_parse\<close> reports an error and keeps it, and its name
  stays taken.
\<close>

theorem iface_del_untracked:
  assumes "ifaces_inv s" and "tracker_ok os" and "js_get (iface_JS s) nm = Some p" and "iface_heap s p = Some x"
    and "if_refcnt x = 0" and "tracked (io_log s) (if_fd x) = None"
  shows "\<exists>items' s'. iface_parse E os PARSE_DEL [(YScalar ''iface'', YScalar nm)] (Some items) s = Some (1, Some items', s') \<and>
    iface_heap s' = iface_heap s \<and> iface_JS s' = iface_JS s"
proof -
  obtain y where "iface_emit p s (Some items) = Some (Some (items @ [y]))"
    using iface_emit_total[OF assms(1,4)] by blast
  moreover have "ek_remove os (io_log s) (if_fd x) = ([], 0)" using assms(2,6) by (simp add: tracker_ok_def)
  ultimately show ?thesis using assms(3-5) by (simp add: iface_parse_def io_do_def)
qed

definition iface_x1 :: iface where
  "iface_x1 = iface_zero\<lparr>if_fd := 3, if_name := Some ''eth0'', if_hwaddr := Some (replicate 16 0),
     if_addr := Some (10, 0, 0, 1), if_ip_prn := Some ''10.0.0.1''\<rparr>"

definition iface_state2 :: iface_state where
  "iface_state2 = iface_added os0 ''eth0'' iface_x1 iface_state1"

lemma iface_state2_sel:
  "next_addr iface_state2 = 6" "iface_heap iface_state2 = [2 \<mapsto> iface_x1]"
  "iface_JS iface_state2 = [(''eth0'', Some 2)]" "io_log iface_state2 = [Io_socket 3]"
  by (simp_all add: iface_state2_def iface_added_def iface_state1_def os0_def next_fd_def js_insert_def jxx_insert_def)

lemma ifaces_inv2: "ifaces_inv iface_state2"
  unfolding iface_state2_def
proof (rule ifaces_inv_added[OF calloc_bounded_env0 os0_ok(1) ifaces_inv1(1)])
  show "iface_new_ok env0 os0 ''eth0'' iface_state1"
    by (simp add: iface_new_ok_def iface_state1_def os0_def next_fd_def device_ok_def js_get_def)
  show "iface_made ''eth0'' (os_socket os0 (io_log iface_state1)) iface_x1"
    by (simp add: iface_made_def iface_x1_def iface_zero_def iface_state1_def os0_def next_fd_def)
qed

theorem iface_del_untracked_witness:
  "\<exists>items' s'. iface_parse env0 os0 PARSE_DEL [(YScalar ''iface'', YScalar ''eth0'')] (Some []) iface_state2 =
      Some (1, Some items', s') \<and> iface_heap s' 2 = Some iface_x1"
proof -
  have "js_get (iface_JS iface_state2) ''eth0'' = Some 2" "iface_heap iface_state2 2 = Some iface_x1"
    "if_refcnt iface_x1 = 0" "tracked (io_log iface_state2) (if_fd iface_x1) = None"
    by (simp_all add: iface_state2_sel js_get_def iface_x1_def iface_zero_def)
  from iface_del_untracked[OF ifaces_inv2 os0_ok(2) this, of env0 "[]"] show ?thesis
    by (auto simp: iface_state2_sel)
qed

subsection \<open>Packets and handlers\<close>

text \<open>
  C21: what leaves through an interface. If \<open>checksum\<close> accepts the packet, its first \<open>plen\<close> bytes
  with the new checksums are given to the interface's socket, once, and a drop is counted
  exactly if \<open>send\<close> did not take all of them; if it does not, nothing is sent and a
  failure is counted. The other interfaces and the other counters stay as they are.
\<close>

theorem iface_output_correct:
  assumes x: "iface_heap s p = Some x" and c: "checksum en (Some pkt) plen = Some (ret, pkt')" and len: "plen \<le> length pkt'"
  shows "iface_output en os p pkt plen s =
    (let drop = os_send os (io_log s) (if_fd x) (take plen pkt') \<noteq> int plen;
         x' = (if ret \<noteq> CHK_OK then x\<lparr>if_count_checkfail := if_count_checkfail x + 1\<rparr>
               else if drop then x\<lparr>if_count_sockdrop := if_count_sockdrop x + 1\<rparr> else x)
     in Some (if ret = CHK_OK \<and> \<not> drop then 0 else 1, pkt',
          s\<lparr>iface_heap := (iface_heap s)(p \<mapsto> x'),
            io_log := (if ret = CHK_OK then Io_send (if_fd x) (take plen pkt') # io_log s else io_log s)\<rparr>))"
proof -
  have same: "(iface_heap s)(p \<mapsto> x) = iface_heap s" using x by auto
  show ?thesis
    using assms by (simp add: iface_output_def iface_put_def io_do_def Let_def same)
qed

theorem iface_output_correct_witness:
  "\<exists>pkt' s'. iface_output LE os0 2 udp_frame 44 iface_state2 = Some (0, pkt', s') \<and>
     io_log s' = [Io_send 3 (take 44 pkt'), Io_socket 3]"
proof -
  obtain pkt' where c: "checksum LE (Some udp_frame) 44 = Some (CHK_OK, pkt')" and ok: "ip4_checked udp_frame pkt'"
    using checksum_ip4_spec[OF udp_frame_ok] by blast
  have len: "44 \<le> length pkt'" using ok by (simp add: ip4_checked_def Let_def udp_frame_def)
  have x: "iface_heap iface_state2 2 = Some iface_x1" "if_fd iface_x1 = 3" by (simp_all add: iface_state2_sel iface_x1_def)
  have "os_send os0 l 3 (take 44 pkt') = 44" for l using len by (simp add: os0_def)
  with iface_output_correct[OF x(1) c len, of os0] x(2) show ?thesis by (simp add: iface_state2_sel Let_def)
qed

text \<open>
  C22: a handler is exclusive. Once a handler is registered, registering another one, or the
  same one with another context, is refused and changes nothing, until exactly this handler
  with this context is cleared; then any handler can be registered.
\<close>

theorem iface_handler_exclusive:
  assumes "iface_handler_register p h c s = Some (0, s1)" and "h' \<noteq> h \<or> c' \<noteq> c"
  shows "iface_handler_register p h' c' s1 = Some (1, s1) \<and> iface_handler_clear (Some p) h' c' s1 = Some (1, s1) \<and>
    (\<exists>s2 s3. iface_handler_clear (Some p) h c s1 = Some (0, s2) \<and> iface_handler_register p h' c' s2 = Some (0, s3))"
proof -
  obtain x where x: "iface_heap s p = Some x" using assms(1) by (cases "iface_heap s p") (auto simp: iface_handler_register_def)
  then have s1: "s1 = s\<lparr>iface_heap := (iface_heap s)(p \<mapsto> x\<lparr>if_handler := Some h, if_context := c\<rparr>)\<rparr>"
    using assms(1) by (auto simp: iface_handler_register_def iface_put_def split: if_splits)
  show ?thesis
    using assms(2) by (auto simp: s1 iface_handler_register_def iface_handler_clear_def iface_put_def)
qed

theorem iface_handler_exclusive_witness:
  "\<exists>s1. iface_handler_register 2 7 [] iface_state2 = Some (0, s1) \<and> iface_handler_register 2 8 [] s1 = Some (1, s1)"
proof -
  obtain s1 where s1: "iface_handler_register 2 7 [] iface_state2 = Some (0, s1)"
    by (simp add: iface_handler_register_def iface_put_def iface_state2_sel iface_x1_def iface_zero_def)
  have "(8::nat) \<noteq> 7 \<or> [] \<noteq> ([] :: addr judyL)" by simp
  from iface_handler_exclusive[OF s1 this] s1 show ?thesis by blast
qed

end
