(* ===== verification/Process.thy ===== *)
theory Process
  imports Ifaces
begin

text \<open>
  src/rout.c and src/process.c. A rout is a rule together with the interface where the packets
  go that it matched; its set holds what the handling of a packet needs, with the roots of
  the rule's two queues copied. A process is the queue of routs that applies to the packets of an
  interface; it registers itself as the handler of that interface. The state adds the heaps
  of the three and the table of processes, by the name of the interface.
\<close>

subsection \<open>Data\<close>

record rout_set =
  rs_if_out :: ptr
  rs_match :: "addr judyL"
  rs_write :: "addr judyL"
  rs_count_match :: u32

record rout =
  rt_rule :: ptr
  rt_output :: ptr
  rt_set :: ptr

record process =
  pc_in_iface :: ptr
  pc_rout_JQ :: "addr judyL"
  pc_rout_set_JQ :: "addr judyL"

record process_state = iface_state +
  rout_set_heap :: "addr \<rightharpoonup> rout_set"
  rout_heap :: "addr \<rightharpoonup> rout"
  process_heap :: "addr \<rightharpoonup> process"
  process_JS :: "addr judySL"

subsection \<open>Sets\<close>

definition rout_set_free :: "ptr \<Rightarrow> 'a process_state_scheme \<Rightarrow> 'a process_state_scheme option" where
  "rout_set_free arg s =
     (case arg of
        None \<Rightarrow> Some s
      | Some p \<Rightarrow> do { rst \<leftarrow> rout_set_heap s p; Some (s\<lparr>rout_set_heap := (rout_set_heap s)(p := None)\<rparr>) })"

definition rout_set_new ::
  "env \<Rightarrow> addr \<Rightarrow> addr \<Rightarrow> 'a process_state_scheme \<Rightarrow> (ptr \<times> 'a process_state_scheme) option"
where
  "rout_set_new E rulep output s =
     (case calloc E s of
        (None, s) \<Rightarrow> do { s \<leftarrow> rout_set_free None s; Some (None, s) }
      | (Some p, s) \<Rightarrow>
          do { rule \<leftarrow> rule_heap s rulep;
               let rst = \<lparr>rs_if_out = Some output, rs_match = rl_match rule, rs_write = rl_write rule, rs_count_match = 0\<rparr>;
               Some (Some p, s\<lparr>rout_set_heap := (rout_set_heap s)(p \<mapsto> rst)\<rparr>) })"

text \<open>The loop over the operations to match, left at the first that does not.\<close>

fun match_loop :: "addr judyL \<Rightarrow> byte list \<Rightarrow> nat \<Rightarrow> 'a op_state_scheme \<Rightarrow> bool option" where
  "match_loop [] pkt plen s = Some True"
| "match_loop ((_, val) # q) pkt plen s =
     do { p \<leftarrow> val; op \<leftarrow> op_heap s p; r \<leftarrow> op_match (op_set op) pkt plen s;
          if r \<noteq> 0 then Some False else match_loop q pkt plen s }"

definition rout_set_match ::
  "addr \<Rightarrow> byte list \<Rightarrow> nat \<Rightarrow> 'a process_state_scheme \<Rightarrow> (bool \<times> 'a process_state_scheme) option"
where
  "rout_set_match p pkt plen s =
     do { rst \<leftarrow> rout_set_heap s p;
          m \<leftarrow> match_loop (rs_match rst) pkt plen s;
          if \<not> m then Some (False, s)
          else Some (True, s\<lparr>rout_set_heap := (rout_set_heap s)(p \<mapsto> rst\<lparr>rs_count_match := rs_count_match rst + 1\<rparr>)\<rparr>) }"

fun write_loop ::
  "addr judyL \<Rightarrow> byte list \<Rightarrow> nat \<Rightarrow> 'a op_state_scheme \<Rightarrow> (bool \<times> byte list \<times> 'a op_state_scheme) option"
where
  "write_loop [] pkt plen s = Some (True, pkt, s)"
| "write_loop ((_, val) # q) pkt plen s =
     do { p \<leftarrow> val; op \<leftarrow> op_heap s p; (r, pkt, s) \<leftarrow> op_write (op_set op) pkt plen s;
          if r \<noteq> 0 then Some (False, pkt, s) else write_loop q pkt plen s }"

definition rout_set_exec ::
  "addr \<Rightarrow> byte list \<Rightarrow> nat \<Rightarrow> 'a process_state_scheme \<Rightarrow> (bool \<times> byte list \<times> 'a process_state_scheme) option"
where
  "rout_set_exec p pkt plen s = do { rst \<leftarrow> rout_set_heap s p; write_loop (rs_write rst) pkt plen s }"

subsection \<open>Routs\<close>

definition rout_free :: "ptr \<Rightarrow> 'a process_state_scheme \<Rightarrow> 'a process_state_scheme option" where
  "rout_free arg s =
     (case arg of
        None \<Rightarrow> Some s
      | Some p \<Rightarrow>
          do { rt \<leftarrow> rout_heap s p;
               s \<leftarrow> rule_release (rt_rule rt) s;
               s \<leftarrow> iface_release (rt_output rt) s;
               s \<leftarrow> rout_set_free (rt_set rt) s;
               Some (s\<lparr>rout_heap := (rout_heap s)(p := None)\<rparr>) })"

definition rout_die :: "ptr \<Rightarrow> 'a process_state_scheme \<Rightarrow> (ptr \<times> 'a process_state_scheme) option" where
  "rout_die ret s = do { s \<leftarrow> rout_free ret s; Some (None, s) }"

definition rout_put :: "(rout \<Rightarrow> rout) \<Rightarrow> addr \<Rightarrow> 'a process_state_scheme \<Rightarrow> 'a process_state_scheme option" where
  "rout_put f p s = do { rt \<leftarrow> rout_heap s p; Some (s\<lparr>rout_heap := (rout_heap s)(p \<mapsto> f rt)\<rparr>) }"

definition rout_new ::
  "env \<Rightarrow> string option \<Rightarrow> string option \<Rightarrow> 'a process_state_scheme \<Rightarrow> (ptr \<times> 'a process_state_scheme) option"
where
  "rout_new E rule_name out_name s =
     (case (rule_name, out_name) of
        (Some rn, Some on) \<Rightarrow>
          (case calloc E s of
             (None, s) \<Rightarrow> rout_die None s
           | (Some p, s) \<Rightarrow>
               do { let s = s\<lparr>rout_heap := (rout_heap s)(p \<mapsto> \<lparr>rt_rule = None, rt_output = None, rt_set = None\<rparr>)\<rparr>;
                    (rulep, s) \<leftarrow> rule_get rn s;
                    s \<leftarrow> rout_put (\<lambda>rt. rt\<lparr>rt_rule := rulep\<rparr>) p s;
                    case rulep of None \<Rightarrow> rout_die (Some p) s | Some rp \<Rightarrow>
               do { (outp, s) \<leftarrow> iface_get on s;
                    s \<leftarrow> rout_put (\<lambda>rt. rt\<lparr>rt_output := outp\<rparr>) p s;
                    case outp of None \<Rightarrow> rout_die (Some p) s | Some op \<Rightarrow>
               do { (rsp, s) \<leftarrow> rout_set_new E rp op s;
                    s \<leftarrow> rout_put (\<lambda>rt. rt\<lparr>rt_set := rsp\<rparr>) p s;
                    case rsp of None \<Rightarrow> rout_die (Some p) s | Some _ \<Rightarrow> Some (Some p, s) } } })
      | _ \<Rightarrow> rout_die None s)"

definition rout_emit :: "addr \<Rightarrow> 'a process_state_scheme \<Rightarrow> ynode list \<Rightarrow> ynode list option" where
  "rout_emit p s outlist =
     do { rt \<leftarrow> rout_heap s p;
          rp \<leftarrow> rt_rule rt; rule \<leftarrow> rule_heap s rp; rn \<leftarrow> rl_name rule;
          op \<leftarrow> rt_output rt; output \<leftarrow> iface_heap s op; on \<leftarrow> if_name output;
          rsp \<leftarrow> rt_set rt; rst \<leftarrow> rout_set_heap s rsp;
          let reply = y_pair_insert [] rn on;
          let reply = y_pair_insert_nf reply ''matches'' (fmt_u (unat (rs_count_match rst)));
          Some (outlist @ [YMap reply]) }"

subsection \<open>Processes\<close>

text \<open>The address of the function \<open>process_exec\<close>.\<close>

definition process_exec_ptr :: addr where
  "process_exec_ptr = 0"

definition process_release_refs :: "addr judyL \<Rightarrow> 'a process_state_scheme \<Rightarrow> 'a process_state_scheme option" where
  "process_release_refs rout_JQ s = jl_loop rout_free rout_JQ s"

definition process_free :: "ptr \<Rightarrow> 'a process_state_scheme \<Rightarrow> 'a process_state_scheme option" where
  "process_free arg s =
     (case arg of
        None \<Rightarrow> Some s
      | Some p \<Rightarrow>
          do { pc \<leftarrow> process_heap s p;
               s \<leftarrow> (case pc_in_iface pc of
                 None \<Rightarrow> Some s
               | Some ip \<Rightarrow>
                   do { (rc, s) \<leftarrow> iface_handler_clear (Some ip) process_exec_ptr (pc_rout_set_JQ pc) s;
                        s \<leftarrow> iface_release (Some ip) s;
                        in_iface \<leftarrow> iface_heap s ip;
                        nm \<leftarrow> if_name in_iface;
                        Some (if js_get (process_JS s) nm = Some p
                              then s\<lparr>process_JS := js_delete (process_JS s) nm\<rparr> else s) });
               s \<leftarrow> process_release_refs (pc_rout_JQ pc) s;
               Some (s\<lparr>process_heap := (process_heap s)(p := None)\<rparr>) })"

definition process_free_all :: "'a process_state_scheme \<Rightarrow> 'a process_state_scheme option" where
  "process_free_all s = js_loop process_JS process_free s"

definition process_die :: "ptr \<Rightarrow> 'a process_state_scheme \<Rightarrow> (ptr \<times> 'a process_state_scheme) option" where
  "process_die ret s = do { s \<leftarrow> process_free ret s; Some (None, s) }"

definition process_new ::
  "env \<Rightarrow> string option \<Rightarrow> addr judyL \<Rightarrow> 'a process_state_scheme \<Rightarrow> (ptr \<times> 'a process_state_scheme) option"
where
  "process_new E in_iface_name rout_JQ s =
     (case calloc E s of
        (None, s) \<Rightarrow> do { s \<leftarrow> process_release_refs rout_JQ s; process_die None s }
      | (Some p, s) \<Rightarrow>
          do { sets \<leftarrow> jl_loop (\<lambda>val q. do { a \<leftarrow> val; rt \<leftarrow> rout_heap s a; Some (snd (jl_enqueue q (rt_set rt))) }) rout_JQ [];
               let pc = \<lparr>pc_in_iface = None, pc_rout_JQ = rout_JQ, pc_rout_set_JQ = sets\<rparr>;
               let s = s\<lparr>process_heap := (process_heap s)(p \<mapsto> pc)\<rparr>;
               case in_iface_name of None \<Rightarrow> process_die (Some p) s | Some nm \<Rightarrow>
               if js_get (process_JS s) nm \<noteq> None then process_die (Some p) s
               else do { (ip, s) \<leftarrow> iface_get nm s;
                         let s = s\<lparr>process_heap := (process_heap s)(p \<mapsto> pc\<lparr>pc_in_iface := ip\<rparr>)\<rparr>;
                         case ip of None \<Rightarrow> process_die (Some p) s | Some i \<Rightarrow>
                    do { (rc, s) \<leftarrow> iface_handler_register i process_exec_ptr sets s;
                         if rc \<noteq> 0 then process_die (Some p) s
                         else do { in_iface \<leftarrow> iface_heap s i;
                                   inm \<leftarrow> if_name in_iface;
                                   Some (Some p, s\<lparr>process_JS := snd (js_insert (process_JS s) inm (Some p) True)\<rparr>) } } } })"

subsection \<open>The hot path\<close>

fun process_exec ::
  "endian \<Rightarrow> os \<Rightarrow> addr judyL \<Rightarrow> byte list \<Rightarrow> nat \<Rightarrow> 'a process_state_scheme \<Rightarrow>
   (byte list \<times> 'a process_state_scheme) option"
where
  "process_exec en os [] pkt len s = Some (pkt, s)"
| "process_exec en os ((_, val) # q) pkt len s =
     do { rst \<leftarrow> val;
          (m, s) \<leftarrow> rout_set_match rst pkt len s;
          if m then
            do { (ok, pkt, s) \<leftarrow> rout_set_exec rst pkt len s;
                 if ok then do { set \<leftarrow> rout_set_heap s rst; out \<leftarrow> rs_if_out set;
                                 (r, pkt, s) \<leftarrow> iface_output en os out pkt len s; Some (pkt, s) }
                 else Some (pkt, s) }
          else process_exec en os q pkt len s }"

subsection \<open>Printing and parsing\<close>

definition process_emit :: "addr \<Rightarrow> 'a process_state_scheme \<Rightarrow> yout \<Rightarrow> yout option" where
  "process_emit p s out =
     do { items \<leftarrow> out;
          pc \<leftarrow> process_heap s p;
          nodes \<leftarrow> jl_loop (\<lambda>val acc. do { a \<leftarrow> val; rout_emit a s acc }) (pc_rout_JQ pc) [];
          ip \<leftarrow> pc_in_iface pc; in_iface \<leftarrow> iface_heap s ip; nm \<leftarrow> if_name in_iface;
          let reply = y_pair_insert [] ''process'' nm;
          let reply = y_pair_insert_obj reply ''nodes'' (YSeq nodes);
          Some (Some (items @ [YMap reply])) }"

definition process_emit_all :: "'a process_state_scheme \<Rightarrow> yout \<Rightarrow> yout option" where
  "process_emit_all s out =
     js_loop (\<lambda>_. process_JS s) (\<lambda>v out. do { p \<leftarrow> v; process_emit p s out }) out"

text \<open>One \<open>rulename: iface\<close> pair, one item of the list of rules, one pair of the process.\<close>

definition process_parse_rout ::
  "env \<Rightarrow> string \<Rightarrow> ynode \<Rightarrow> nat \<Rightarrow> addr judyL \<times> 'a process_state_scheme \<Rightarrow>
   (bool \<times> nat \<times> addr judyL \<times> 'a process_state_scheme) option"
where
  "process_parse_rout E keyname val e qs =
     (let (q, s) = qs in
      do { (rt, s) \<leftarrow> rout_new E (Some keyname) (y_txt val) s;
           let (rc, q) = jl_enqueue q rt;
           Some (False, if rc \<noteq> 0 then e + 1 else e, q, s) })"

definition process_parse_item ::
  "env \<Rightarrow> ynode \<Rightarrow> nat \<Rightarrow> addr judyL \<times> 'a process_state_scheme \<Rightarrow>
   (bool \<times> nat \<times> addr judyL \<times> 'a process_state_scheme) option"
where
  "process_parse_item E val e qs =
     (case val of
        YMap ps \<Rightarrow> y_for_map (process_parse_rout E) ps e qs
      | _ \<Rightarrow> Some (False, e + 1, qs))"

definition process_parse_pair ::
  "env \<Rightarrow> string \<Rightarrow> ynode \<Rightarrow> nat \<Rightarrow> string \<times> addr judyL \<times> 'a process_state_scheme \<Rightarrow>
   (bool \<times> nat \<times> string \<times> addr judyL \<times> 'a process_state_scheme) option"
where
  "process_parse_pair E keyname val e ls =
     (let (name, qs) = ls in
      case val of
        YScalar t \<Rightarrow>
          if keyname = ''process'' \<or> keyname = ''p'' then Some (False, e, t, qs) else Some (False, e + 1, name, qs)
      | YSeq items \<Rightarrow>
          if keyname = ''rules'' \<or> keyname = ''r''
          then do { (died, e, qs) \<leftarrow> y_for_seq (process_parse_item E) items e qs; Some (died, e, name, qs) }
          else Some (False, e + 1, name, qs)
      | _ \<Rightarrow> Some (True, e + 1, name, qs))"

definition process_parse ::
  "env \<Rightarrow> parse_mode \<Rightarrow> (ynode \<times> ynode) list \<Rightarrow> yout \<Rightarrow> 'a process_state_scheme \<Rightarrow>
   (nat \<times> yout \<times> 'a process_state_scheme) option"
where
  "process_parse E mode mapping out s =
     do { (died, e, name, rout_JQ, s) \<leftarrow> y_for_map (process_parse_pair E) mapping 0 ('''', [], s);
          if died then Some (e, out, s)
          else case mode of
            PARSE_ADD \<Rightarrow>
              do { (pp, s) \<leftarrow> process_new E (Some name) rout_JQ s;
                   case pp of
                     None \<Rightarrow> Some (e + 1, out, s)
                   | Some p \<Rightarrow> do { out \<leftarrow> process_emit p s out; Some (e, out, s) } }
          | PARSE_DEL \<Rightarrow>
              (case js_get (process_JS s) name of
                 None \<Rightarrow> Some (e + 1, out, s)
               | Some p \<Rightarrow> do { out \<leftarrow> process_emit p s out; s \<leftarrow> process_free (Some p) s; Some (e, out, s) })
          | PARSE_PRN \<Rightarrow>
              if name = '''' then do { out \<leftarrow> process_emit_all s out; Some (e, out, s) }
              else (case js_get (process_JS s) name of
                      None \<Rightarrow> Some (e, out, s)
                    | Some p \<Rightarrow> do { out \<leftarrow> process_emit p s out; Some (e, out, s) })
          | PARSE_INVALID \<Rightarrow> Some (e + 1, out, s) }"

end
