(* ===== verification/Routs.thy ===== *)
theory Routs
  imports Process
begin

text \<open>
  The invariant of routs and processes, on top of those of rules and interfaces: the
  reference count of a rule is the number of routs that refer to it, that of an interface the
  number of routs and processes; every rout has its set, whose queues are those of its rule;
  every rout belongs to one process; a process is found under the name of its interface,
  whose handler it is, and an interface has a handler only through a process.
\<close>

subsection \<open>The invariant\<close>

definition rout_rule_uses :: "rout \<Rightarrow> addr \<Rightarrow> nat" where
  "rout_rule_uses rt q = of_bool (rt_rule rt = Some q)"

definition rout_out_uses :: "rout \<Rightarrow> addr \<Rightarrow> nat" where
  "rout_out_uses rt q = of_bool (rt_output rt = Some q)"

definition rout_set_uses :: "rout \<Rightarrow> addr \<Rightarrow> nat" where
  "rout_set_uses rt q = of_bool (rt_set rt = Some q)"

definition process_in_uses :: "process \<Rightarrow> addr \<Rightarrow> nat" where
  "process_in_uses pc q = of_bool (pc_in_iface pc = Some q)"

definition process_rout_uses :: "process \<Rightarrow> addr \<Rightarrow> nat" where
  "process_rout_uses pc q = count_list (jl_vals (pc_rout_JQ pc)) q"

definition rout_ok :: "'a process_state_scheme \<Rightarrow> addr \<Rightarrow> rout \<Rightarrow> bool" where
  "rout_ok s p rt \<longleftrightarrow> p < next_addr s \<and> p < MAXALLOC \<and>
     (\<exists>rp ip sp rule rst. rt = \<lparr>rt_rule = Some rp, rt_output = Some ip, rt_set = Some sp\<rparr> \<and>
        rule_heap s rp = Some rule \<and> iface_heap s ip \<noteq> None \<and> rout_set_heap s sp = Some rst \<and>
        rs_if_out rst = Some ip \<and> rs_match rst = rl_match rule \<and> rs_write rst = rl_write rule)"

definition process_ok :: "'a process_state_scheme \<Rightarrow> addr \<Rightarrow> process \<Rightarrow> bool" where
  "process_ok s p pc \<longleftrightarrow> p < next_addr s \<and> p < MAXALLOC \<and> jl_dense (pc_rout_JQ pc) \<and> jl_dense (pc_rout_set_JQ pc) \<and>
     map Some (jl_vals (pc_rout_set_JQ pc)) = map (\<lambda>q. Option.bind (rout_heap s q) rt_set) (jl_vals (pc_rout_JQ pc)) \<and>
     (\<exists>ip x nm. pc_in_iface pc = Some ip \<and> iface_heap s ip = Some x \<and> if_name x = Some nm \<and>
        js_get (process_JS s) nm = Some p \<and> if_handler x = Some process_exec_ptr \<and>
        if_context x = pc_rout_set_JQ pc)"

definition process_name :: "'a process_state_scheme \<Rightarrow> process \<Rightarrow> string option" where
  "process_name s pc = Option.bind (pc_in_iface pc) (\<lambda>ip. Option.bind (iface_heap s ip) if_name)"

definition handlers_ok :: "'a process_state_scheme \<Rightarrow> bool" where
  "handlers_ok s \<longleftrightarrow> (\<forall>ip x. iface_heap s ip = Some x \<longrightarrow> if_handler x \<noteq> None \<longrightarrow>
     (\<exists>p pc. process_heap s p = Some pc \<and> pc_in_iface pc = Some ip))"

definition rule_counts :: "'a process_state_scheme \<Rightarrow> bool" where
  "rule_counts s \<longleftrightarrow> (\<forall>rp rule. rule_heap s rp = Some rule \<longrightarrow>
     unat (rl_refcnt rule) = refs_to rout_rule_uses (rout_heap s) rp)"

definition iface_counts :: "'a process_state_scheme \<Rightarrow> bool" where
  "iface_counts s \<longleftrightarrow> (\<forall>ip x. iface_heap s ip = Some x \<longrightarrow>
     unat (if_refcnt x) = refs_to rout_out_uses (rout_heap s) ip + refs_to process_in_uses (process_heap s) ip)"

definition sets_held :: "'a process_state_scheme \<Rightarrow> bool" where
  "sets_held s \<longleftrightarrow> (\<forall>sp. refs_to rout_set_uses (rout_heap s) sp = of_bool (rout_set_heap s sp \<noteq> None))"

definition routs_held :: "addr set \<Rightarrow> addr list \<Rightarrow> 'a process_state_scheme \<Rightarrow> bool" where
  "routs_held L qs s \<longleftrightarrow> (\<forall>q. refs_to process_rout_uses (process_heap s) q + count_list qs q + of_bool (q \<in> L) =
     of_bool (rout_heap s q \<noteq> None))"

definition base_inv :: "addr set \<Rightarrow> 'a iface_state_scheme \<Rightarrow> bool" where
  "base_inv K s \<longleftrightarrow> rule_inv_with K [] s \<and> ifaces_inv s \<and> ifaces_tracked s"

definition objects_ok :: "'a process_state_scheme \<Rightarrow> bool" where
  "objects_ok s \<longleftrightarrow> finite (dom (rout_heap s)) \<and> finite (dom (process_heap s)) \<and>
     (\<forall>p rt. rout_heap s p = Some rt \<longrightarrow> rout_ok s p rt) \<and>
     (\<forall>sp. rout_set_heap s sp \<noteq> None \<longrightarrow> sp < next_addr s) \<and>
     (\<forall>p pc. process_heap s p = Some pc \<longrightarrow> process_ok s p pc) \<and>
     registered (process_name s) (process_JS s) (process_heap s)"

text \<open>
  The sets \<open>K\<close> and \<open>L\<close> are lost operations and lost routs; \<open>qs\<close> are the routs of a queue under
  construction.
\<close>

definition proc_inv_with :: "addr set \<Rightarrow> addr set \<Rightarrow> addr list \<Rightarrow> 'a process_state_scheme \<Rightarrow> bool" where
  "proc_inv_with K L qs s \<longleftrightarrow> base_inv K s \<and> objects_ok s \<and> handlers_ok s \<and> rule_counts s \<and> iface_counts s \<and>
     sets_held s \<and> routs_held L qs s"

definition proc_inv :: "'a process_state_scheme \<Rightarrow> bool" where
  "proc_inv s \<longleftrightarrow> (\<exists>K L. proc_inv_with K L [] s)"

definition proc_tight :: "'a process_state_scheme \<Rightarrow> bool" where
  "proc_tight s \<longleftrightarrow> proc_inv_with {} {} [] s"

lemma proc_invD:
  assumes "proc_inv_with K L qs s"
  shows "base_inv K s" and "objects_ok s" and "handlers_ok s" and "rule_counts s" and "iface_counts s"
    and "sets_held s" and "routs_held L qs s"
  using assms unfolding proc_inv_with_def by blast+

lemma proc_invI:
  assumes "base_inv K s" and "objects_ok s" and "handlers_ok s" and "rule_counts s" and "iface_counts s"
    and "sets_held s" and "routs_held L qs s"
  shows "proc_inv_with K L qs s"
  using assms unfolding proc_inv_with_def by blast

lemma base_invD:
  assumes "base_inv K s"
  shows "rule_inv_with K [] s" and "ifaces_inv s" and "ifaces_tracked s"
  using assms unfolding base_inv_def by blast+

lemma objects_okD:
  assumes "objects_ok s"
  shows "finite (dom (rout_heap s))" and "finite (dom (process_heap s))"
    and "\<And>p rt. rout_heap s p = Some rt \<Longrightarrow> rout_ok s p rt"
    and "\<And>sp. rout_set_heap s sp \<noteq> None \<Longrightarrow> sp < next_addr s"
    and "\<And>p pc. process_heap s p = Some pc \<Longrightarrow> process_ok s p pc"
    and "registered (process_name s) (process_JS s) (process_heap s)" and "judy_ok (process_JS s)"
  using assms unfolding objects_ok_def registered_def by blast+

lemma objects_fresh:
  assumes "objects_ok s" and "next_addr s \<le> p"
  shows "rout_heap s p = None" and "process_heap s p = None" and "rout_set_heap s p = None"
proof -
  show "rout_heap s p = None" using objects_okD(3)[OF assms(1), of p] assms(2)
    by (cases "rout_heap s p") (auto simp: rout_ok_def)
  show "process_heap s p = None" using objects_okD(5)[OF assms(1), of p] assms(2)
    by (cases "process_heap s p") (auto simp: process_ok_def)
  show "rout_set_heap s p = None" using objects_okD(4)[OF assms(1), of p] assms(2)
    by (cases "rout_set_heap s p") auto
qed

subsection \<open>What depends on what\<close>

text \<open>Rules and interfaces do not depend on what is above them, nor on reference counts.\<close>

lemma rule_inv_cong:
  fixes s :: "'a rule_state_scheme" and s' :: "'a rule_state_scheme"
  assumes I: "rule_inv_with K qs s" and same: "field_heap s' = field_heap s" "field_JS s' = field_JS s"
    "memref_heap s' = memref_heap s" "state_JS s' = state_JS s" "op_heap s' = op_heap s" "rule_JS s' = rule_JS s"
    "rule_heap s' = rule_heap s" and n: "next_addr s \<le> next_addr s'"
  shows "rule_inv_with K qs s'"
proof (rule rule_invI)
  show "op_inv s'" by (rule op_inv_cong[OF rule_invD(1)[OF I]]) (use same n in simp_all)
  show "rule_ok (rule_JS s') (next_addr s') p rule" if "rule_heap s' p = Some rule" for p rule
    using rule_invD(4)[OF I, of p rule] that same n by (auto simp: rule_ok_def)
qed (use rule_invD[OF I] same in simp_all)

lemma refs_to_same_uses:
  assumes "h p = Some ob" and "uses ob' = uses ob"
  shows "refs_to uses (h(p \<mapsto> ob')) = refs_to uses h"
proof
  fix q
  have "dom (h(p \<mapsto> ob')) = dom h" using assms(1) by auto
  then show "refs_to uses (h(p \<mapsto> ob')) q = refs_to uses h q"
    unfolding refs_to_def using assms by (intro sum.cong) auto
qed

lemma rule_inv_refcnt:
  fixes s :: "'a rule_state_scheme"
  assumes I: "rule_inv_with K qs s" and p: "rule_heap s p = Some rule"
  shows "rule_inv_with K qs (s\<lparr>rule_heap := (rule_heap s)(p \<mapsto> rule\<lparr>rl_refcnt := c\<rparr>)\<rparr>)" (is "rule_inv_with K qs ?s'")
proof (rule rule_invI)
  show "op_inv ?s'" by (rule op_inv_cong[OF rule_invD(1)[OF I]]) simp_all
  show "finite (dom (rule_heap ?s'))" using rule_invD(2)[OF I] by simp
  show "registered rl_name (rule_JS ?s') (rule_heap ?s')"
    using reg.named_update[OF rule_invD(3)[OF I] p] by simp
  show "rule_ok (rule_JS ?s') (next_addr ?s') q r" if "rule_heap ?s' q = Some r" for q r
    using rule_invD(4)[OF I p] rule_invD(4)[OF I, of q r] that by (auto simp: rule_ok_def split: if_splits)
  have "refs_to rule_uses (rule_heap ?s') = refs_to rule_uses (rule_heap s)"
    using refs_to_same_uses[of "rule_heap s" p rule rule_uses "rule\<lparr>rl_refcnt := c\<rparr>"] p
    by (simp add: rule_uses_def rule_ops_def fun_eq_iff)
  then show "rules_hold K (op_heap ?s') (rule_heap ?s') qs"
    using rule_invD(5)[OF I] by (simp add: rules_hold_def)
qed

lemma base_cong:
  fixes s :: "'a iface_state_scheme" and s' :: "'a iface_state_scheme"
  assumes I: "base_inv K s" and same: "field_heap s' = field_heap s" "field_JS s' = field_JS s"
    "memref_heap s' = memref_heap s" "state_JS s' = state_JS s" "op_heap s' = op_heap s" "rule_JS s' = rule_JS s"
    "rule_heap s' = rule_heap s" "iface_heap s' = iface_heap s" "iface_JS s' = iface_JS s" "io_log s' = io_log s"
    and n: "next_addr s \<le> next_addr s'"
  shows "base_inv K s'"
  unfolding base_inv_def
proof (intro conjI)
  show "rule_inv_with K [] s'" by (rule rule_inv_cong[OF base_invD(1)[OF I]]) (use same n in simp_all)
  show "ifaces_inv s'" by (rule ifaces_inv_cong[OF base_invD(2)[OF I]]) (use same n in simp_all)
  show "ifaces_tracked s'" using base_invD(3)[OF I] same by (simp add: ifaces_tracked_def)
qed

lemma base_rule_refcnt:
  fixes s :: "'a iface_state_scheme"
  assumes I: "base_inv K s" and p: "rule_heap s p = Some rule"
  shows "base_inv K (s\<lparr>rule_heap := (rule_heap s)(p \<mapsto> rule\<lparr>rl_refcnt := c\<rparr>)\<rparr>)" (is "base_inv K ?s'")
  unfolding base_inv_def
proof (intro conjI)
  show "rule_inv_with K [] ?s'" using rule_inv_refcnt[OF base_invD(1)[OF I] p] .
  show "ifaces_inv ?s'" by (rule ifaces_inv_cong[OF base_invD(2)[OF I]]) simp_all
  show "ifaces_tracked ?s'" using base_invD(3)[OF I] by (simp add: ifaces_tracked_def)
qed

lemma base_iface_update:
  fixes s :: "'a iface_state_scheme"
  assumes I: "base_inv K s" and p: "iface_heap s p = Some x"
    and x': "if_name x' = if_name x" "if_fd x' = if_fd x" "if_hwaddr x' = if_hwaddr x" "if_ip_prn x' = if_ip_prn x"
  shows "base_inv K (s\<lparr>iface_heap := (iface_heap s)(p \<mapsto> x')\<rparr>)" (is "base_inv K ?s'")
  unfolding base_inv_def
proof (intro conjI)
  show "rule_inv_with K [] ?s'" by (rule rule_inv_cong[OF base_invD(1)[OF I]]) simp_all
  show "ifaces_inv ?s'" using ifaces_inv_update[OF base_invD(2)[OF I] p x'] .
  have "\<exists>y. ((iface_heap s)(p \<mapsto> x')) q = Some y \<and> if_fd y = fd" if "tracked (io_log s) fd = Some q" for fd q
    using base_invD(3)[OF I] that p x'(2) unfolding ifaces_tracked_def
    by (cases "q = p") (auto, metis option.inject)
  then show "ifaces_tracked ?s'" by (simp add: ifaces_tracked_def)
qed

lemma rout_okI:
  "p < next_addr s \<Longrightarrow> p < MAXALLOC \<Longrightarrow> rt = \<lparr>rt_rule = Some rp, rt_output = Some ip, rt_set = Some sp\<rparr> \<Longrightarrow>
   rule_heap s rp = Some rule \<Longrightarrow> iface_heap s ip \<noteq> None \<Longrightarrow> rout_set_heap s sp = Some rst \<Longrightarrow>
   rs_if_out rst = Some ip \<Longrightarrow> rs_match rst = rl_match rule \<Longrightarrow> rs_write rst = rl_write rule \<Longrightarrow> rout_ok s p rt"
  unfolding rout_ok_def by blast

text \<open>Routs and processes depend only on what they refer to.\<close>

lemma rout_ok_mono:
  assumes ok: "rout_ok s p rt" and n: "next_addr s \<le> next_addr s'"
    and R: "\<And>rp rule. rt_rule rt = Some rp \<Longrightarrow> rule_heap s rp = Some rule \<Longrightarrow>
      \<exists>rule'. rule_heap s' rp = Some rule' \<and> rl_match rule' = rl_match rule \<and> rl_write rule' = rl_write rule"
    and I: "\<And>ip. rt_output rt = Some ip \<Longrightarrow> iface_heap s ip \<noteq> None \<Longrightarrow> iface_heap s' ip \<noteq> None"
    and S: "\<And>sp rst. rt_set rt = Some sp \<Longrightarrow> rout_set_heap s sp = Some rst \<Longrightarrow>
      \<exists>c. rout_set_heap s' sp = Some (rst\<lparr>rs_count_match := c\<rparr>)"
  shows "rout_ok s' p rt"
proof -
  from ok obtain rp ip sp rule rst where rt: "rt = \<lparr>rt_rule = Some rp, rt_output = Some ip, rt_set = Some sp\<rparr>"
    "rule_heap s rp = Some rule" "iface_heap s ip \<noteq> None" "rout_set_heap s sp = Some rst"
    "rs_if_out rst = Some ip" "rs_match rst = rl_match rule" "rs_write rst = rl_write rule"
    unfolding rout_ok_def by blast
  obtain rule' where rule': "rule_heap s' rp = Some rule'" "rl_match rule' = rl_match rule" "rl_write rule' = rl_write rule"
    using R[OF _ rt(2)] rt(1) by auto
  obtain c where c: "rout_set_heap s' sp = Some (rst\<lparr>rs_count_match := c\<rparr>)" using S[OF _ rt(4)] rt(1) by auto
  have "iface_heap s' ip \<noteq> None" using I rt(1,3) by simp
  with rule' c rt ok n show ?thesis by (auto simp: rout_ok_def)
qed

lemma process_ok_mono:
  assumes ok: "process_ok s p pc" and n: "next_addr s \<le> next_addr s'"
    and R: "\<And>q. q \<in> set (jl_vals (pc_rout_JQ pc)) \<Longrightarrow> rout_heap s' q = rout_heap s q"
    and I: "\<And>ip x. pc_in_iface pc = Some ip \<Longrightarrow> iface_heap s ip = Some x \<Longrightarrow>
      \<exists>x'. iface_heap s' ip = Some x' \<and> if_name x' = if_name x \<and> if_handler x' = if_handler x \<and> if_context x' = if_context x"
    and J: "\<And>nm. js_get (process_JS s) nm = Some p \<Longrightarrow> js_get (process_JS s') nm = Some p"
  shows "process_ok s' p pc"
proof -
  from ok obtain ip x nm where ip: "pc_in_iface pc = Some ip" "iface_heap s ip = Some x" "if_name x = Some nm"
    "js_get (process_JS s) nm = Some p" "if_handler x = Some process_exec_ptr" "if_context x = pc_rout_set_JQ pc"
    unfolding process_ok_def by blast
  obtain x' where x': "iface_heap s' ip = Some x'" "if_name x' = if_name x" "if_handler x' = if_handler x" "if_context x' = if_context x"
    using I[OF ip(1,2)] by blast
  have "map (\<lambda>q. Option.bind (rout_heap s' q) rt_set) (jl_vals (pc_rout_JQ pc)) =
      map (\<lambda>q. Option.bind (rout_heap s q) rt_set) (jl_vals (pc_rout_JQ pc))"
    using R by simp
  with ok n ip x' J[OF ip(4)] show ?thesis unfolding process_ok_def by simp
qed

lemma process_name_cong:
  assumes "\<And>ip x. pc_in_iface pc = Some ip \<Longrightarrow> iface_heap s ip = Some x \<Longrightarrow>
      \<exists>x'. iface_heap s' ip = Some x' \<and> if_name x' = if_name x"
    and "process_ok s p pc"
  shows "process_name s' pc = process_name s pc"
proof -
  from assms(2) obtain ip x where "pc_in_iface pc = Some ip" "iface_heap s ip = Some x"
    unfolding process_ok_def by blast
  with assms(1)[OF this] show ?thesis by (auto simp: process_name_def)
qed

lemma registered_cong:
  assumes "registered nm js h" and "\<And>p ob. h p = Some ob \<Longrightarrow> nm' ob = nm ob"
  shows "registered nm' js h"
  using assms unfolding registered_def by metis

text \<open>There are never too many references for a counter of 32 bits.\<close>

lemma objects_few:
  assumes "objects_ok s"
  shows "card (dom (rout_heap s)) \<le> 2 ^ 30" and "card (dom (process_heap s)) \<le> 2 ^ 30"
proof -
  have "dom (rout_heap s) \<subseteq> {..<MAXALLOC}" using objects_okD(3)[OF assms] by (auto simp: rout_ok_def)
  then show "card (dom (rout_heap s)) \<le> 2 ^ 30" using card_mono[of "{..<MAXALLOC}"] by (simp add: MAXALLOC_def)
  have "dom (process_heap s) \<subseteq> {..<MAXALLOC}" using objects_okD(5)[OF assms] by (auto simp: process_ok_def)
  then show "card (dom (process_heap s)) \<le> 2 ^ 30" using card_mono[of "{..<MAXALLOC}"] by (simp add: MAXALLOC_def)
qed

lemma rule_count_bound:
  assumes P: "proc_inv_with K L qs s" and p: "rule_heap s p = Some rule"
  shows "unat (rl_refcnt rule) \<le> 2 ^ 30"
proof -
  have "unat (rl_refcnt rule) = refs_to rout_rule_uses (rout_heap s) p"
    using proc_invD(4)[OF P] p by (simp add: rule_counts_def)
  also have "\<dots> \<le> card (dom (rout_heap s)) * 1" by (rule refs_to_le) (simp add: rout_rule_uses_def)
  finally show ?thesis using objects_few(1)[OF proc_invD(2)[OF P]] by linarith
qed

lemma iface_count_bound:
  assumes P: "proc_inv_with K L qs s" and p: "iface_heap s p = Some x"
  shows "unat (if_refcnt x) \<le> 2 ^ 31"
proof -
  have "unat (if_refcnt x) = refs_to rout_out_uses (rout_heap s) p + refs_to process_in_uses (process_heap s) p"
    using proc_invD(5)[OF P] p by (simp add: iface_counts_def)
  moreover have "refs_to rout_out_uses (rout_heap s) p \<le> card (dom (rout_heap s)) * 1"
    by (rule refs_to_le) (simp add: rout_out_uses_def)
  moreover have "refs_to process_in_uses (process_heap s) p \<le> card (dom (process_heap s)) * 1"
    by (rule refs_to_le) (simp add: process_in_uses_def)
  ultimately show ?thesis using objects_few[OF proc_invD(2)[OF P]] by simp
qed

lemma refcnt_balanced:
  assumes "unat r \<le> 2 ^ 31"
  shows "unat (refcnt_take r) = unat r + 1" and "refcnt_release (refcnt_take r) = r"
proof -
  show u: "unat (refcnt_take r) = unat r + 1" using assms by (intro unat_refcnt_take) simp
  have "refcnt_take r \<noteq> 0"
  proof
    assume "refcnt_take r = 0"
    with u show False by simp
  qed
  then show "refcnt_release (refcnt_take r) = r" by (rule refcnt_release_take)
qed

subsection \<open>Who refers to what\<close>

lemma rule_countsD: "rule_counts s \<Longrightarrow> rule_heap s p = Some rule \<Longrightarrow>
    unat (rl_refcnt rule) = refs_to rout_rule_uses (rout_heap s) p"
  unfolding rule_counts_def by blast

lemma iface_countsD: "iface_counts s \<Longrightarrow> iface_heap s p = Some x \<Longrightarrow>
    unat (if_refcnt x) = refs_to rout_out_uses (rout_heap s) p + refs_to process_in_uses (process_heap s) p"
  unfolding iface_counts_def by blast

lemma sets_heldD: "sets_held s \<Longrightarrow> refs_to rout_set_uses (rout_heap s) sp = of_bool (rout_set_heap s sp \<noteq> None)"
  unfolding sets_held_def by blast

lemma routs_heldD: "routs_held L qs s \<Longrightarrow>
    refs_to process_rout_uses (process_heap s) q + count_list qs q + of_bool (q \<in> L) = of_bool (rout_heap s q \<noteq> None)"
  unfolding routs_held_def by blast

text \<open>A rout in a process is in no queue under construction.\<close>

lemma process_routs_not_held:
  assumes H: "routs_held L qs s" and fin: "finite (dom (process_heap s))" and pc: "process_heap s a = Some pc"
    and r: "r \<in> set (jl_vals (pc_rout_JQ pc))"
  shows "r \<notin> set qs" and "r \<notin> L" and "rout_heap s r \<noteq> None"
proof -
  have "0 < refs_to process_rout_uses (process_heap s) r"
    by (rule refs_to_pos[OF fin pc]) (use r in \<open>simp add: process_rout_uses_def count_list_pos\<close>)
  moreover have "of_bool (rout_heap s r \<noteq> None) \<le> (1::nat)" by simp
  ultimately have "count_list qs r = 0" "r \<notin> L" "rout_heap s r \<noteq> None"
    using routs_heldD[OF H, of r] by (auto simp: of_bool_def split: if_splits)
  then show "r \<notin> set qs" "r \<notin> L" "rout_heap s r \<noteq> None" by (simp_all add: count_list_0_iff)
qed

text \<open>A rule or interface that is referred to has a count; nothing refers to what does not exist.\<close>

lemma rule_used:
  assumes P: "proc_inv_with K L qs s" and rt: "rout_heap s p = Some rt" "rt_rule rt = Some rp" "rule_heap s rp = Some rule"
  shows "rl_refcnt rule \<noteq> 0"
proof -
  have "0 < refs_to rout_rule_uses (rout_heap s) rp"
    by (rule refs_to_pos[OF objects_okD(1)[OF proc_invD(2)[OF P]] rt(1)]) (simp add: rout_rule_uses_def rt(2))
  then show ?thesis using rule_countsD[OF proc_invD(4)[OF P] rt(3)] by auto
qed

lemma iface_used_out:
  assumes P: "proc_inv_with K L qs s" and rt: "rout_heap s p = Some rt" "rt_output rt = Some ip" "iface_heap s ip = Some x"
  shows "if_refcnt x \<noteq> 0"
proof -
  have "0 < refs_to rout_out_uses (rout_heap s) ip"
    by (rule refs_to_pos[OF objects_okD(1)[OF proc_invD(2)[OF P]] rt(1)]) (simp add: rout_out_uses_def rt(2))
  then show ?thesis using iface_countsD[OF proc_invD(5)[OF P] rt(3)] by auto
qed

lemma iface_used_in:
  assumes P: "proc_inv_with K L qs s" and pc: "process_heap s p = Some pc" "pc_in_iface pc = Some ip" "iface_heap s ip = Some x"
  shows "if_refcnt x \<noteq> 0"
proof -
  have "0 < refs_to process_in_uses (process_heap s) ip"
    by (rule refs_to_pos[OF objects_okD(2)[OF proc_invD(2)[OF P]] pc(1)]) (simp add: process_in_uses_def pc(2))
  then show ?thesis using iface_countsD[OF proc_invD(5)[OF P] pc(3)] by auto
qed

lemma refs_to_none:
  assumes "\<And>q ob. h q = Some ob \<Longrightarrow> uses ob p = 0"
  shows "refs_to uses h p = 0"
proof (rule ccontr)
  assume "refs_to uses h p \<noteq> 0"
  then have "0 < refs_to uses h p" by simp
  then obtain q ob where "h q = Some ob" "0 < uses ob p" by (rule refs_to_posD)
  with assms show False by simp
qed

lemma rule_absent:
  assumes "objects_ok s" and "rule_heap s p = None"
  shows "refs_to rout_rule_uses (rout_heap s) p = 0"
proof (rule refs_to_none)
  show "rout_rule_uses rt p = 0" if "rout_heap s q = Some rt" for q rt
    using objects_okD(3)[OF assms(1) that] assms(2) by (auto simp: rout_ok_def rout_rule_uses_def)
qed

lemma iface_absent:
  assumes "objects_ok s" and "iface_heap s p = None"
  shows "refs_to rout_out_uses (rout_heap s) p = 0" and "refs_to process_in_uses (process_heap s) p = 0"
proof -
  have "rout_out_uses rt p = 0" if "rout_heap s q = Some rt" for q rt
    using objects_okD(3)[OF assms(1) that] assms(2) by (auto simp: rout_ok_def rout_out_uses_def)
  then show "refs_to rout_out_uses (rout_heap s) p = 0" by (rule refs_to_none)
  have "process_in_uses pc p = 0" if "process_heap s q = Some pc" for q pc
    using objects_okD(5)[OF assms(1) that] assms(2) by (auto simp: process_ok_def process_in_uses_def)
  then show "refs_to process_in_uses (process_heap s) p = 0" by (rule refs_to_none)
qed

subsection \<open>Steps that keep the invariant\<close>

text \<open>One conjunct of the invariant each, for a step that changes one rule and one interface.\<close>

lemma rule_counts_upd:
  assumes "rule_counts s" and "rule_heap s' = (rule_heap s)(rp \<mapsto> rule)"
    and "unat (rl_refcnt rule) = refs_to rout_rule_uses (rout_heap s') rp"
    and "\<And>q. q \<noteq> rp \<Longrightarrow> refs_to rout_rule_uses (rout_heap s') q = refs_to rout_rule_uses (rout_heap s) q"
  shows "rule_counts s'"
  using assms unfolding rule_counts_def by simp

lemma iface_counts_upd:
  assumes "iface_counts s" and "iface_heap s' = (iface_heap s)(ip \<mapsto> x)"
    and "unat (if_refcnt x) = refs_to rout_out_uses (rout_heap s') ip + refs_to process_in_uses (process_heap s') ip"
    and "\<And>q. q \<noteq> ip \<Longrightarrow> refs_to rout_out_uses (rout_heap s') q = refs_to rout_out_uses (rout_heap s) q"
    and "\<And>q. q \<noteq> ip \<Longrightarrow> refs_to process_in_uses (process_heap s') q = refs_to process_in_uses (process_heap s) q"
  shows "iface_counts s'"
  using assms unfolding iface_counts_def by simp

lemma handlers_ok_cong:
  assumes "handlers_ok s" and "process_heap s' = process_heap s"
    and "\<And>i y. iface_heap s' i = Some y \<Longrightarrow> if_handler y \<noteq> None \<Longrightarrow>
      \<exists>x. iface_heap s i = Some x \<and> if_handler x \<noteq> None"
  shows "handlers_ok s'"
  using assms unfolding handlers_ok_def by metis

text \<open>The processes stay, and with them the routs in their queues and what they show of their interfaces.\<close>

lemma objects_ok_cong:
  fixes s :: "'a process_state_scheme" and s' :: "'a process_state_scheme"
  assumes O: "objects_ok s" and n: "next_addr s \<le> next_addr s'"
    and fin: "finite (dom (rout_heap s'))" and routs: "\<And>q rt. rout_heap s' q = Some rt \<Longrightarrow> rout_ok s' q rt"
    and sets: "\<And>sp. rout_set_heap s' sp \<noteq> None \<Longrightarrow> sp < next_addr s'"
    and procs: "process_heap s' = process_heap s" "process_JS s' = process_JS s"
    and queued: "\<And>q pc r. process_heap s q = Some pc \<Longrightarrow> r \<in> set (jl_vals (pc_rout_JQ pc)) \<Longrightarrow>
      rout_heap s' r = rout_heap s r"
    and iface: "\<And>q pc i y. process_heap s q = Some pc \<Longrightarrow> pc_in_iface pc = Some i \<Longrightarrow> iface_heap s i = Some y \<Longrightarrow>
      \<exists>x'. iface_heap s' i = Some x' \<and> if_name x' = if_name y \<and> if_handler x' = if_handler y \<and> if_context x' = if_context y"
  shows "objects_ok s'"
  unfolding objects_ok_def procs
proof (intro conjI allI impI)
  note D = objects_okD[OF O]
  show "finite (dom (process_heap s))" using D(2) .
  show "process_ok s' q pc" if pc: "process_heap s q = Some pc" for q pc
    by (rule process_ok_mono[OF D(5)[OF pc] n queued[OF pc] iface[OF pc]]) (simp_all add: procs)
  show "registered (process_name s') (process_JS s) (process_heap s)"
  proof (rule registered_cong[OF D(6)])
    show "process_name s' pc = process_name s pc" if pc: "process_heap s q = Some pc" for q pc
      by (rule process_name_cong[OF _ D(5)[OF pc]]) (use iface[OF pc] in blast)
  qed
qed (use fin routs sets in blast)+

text \<open>The routs, their sets and the rules stay.\<close>

lemma routs_ok_cong:
  fixes s :: "'a process_state_scheme" and s' :: "'a process_state_scheme"
  assumes O: "objects_ok s" and n: "next_addr s \<le> next_addr s'" and q: "rout_heap s q = Some rt"
    and same: "rule_heap s' = rule_heap s" "rout_set_heap s' = rout_set_heap s"
    and iface: "\<And>i. iface_heap s i \<noteq> None \<Longrightarrow> iface_heap s' i \<noteq> None"
  shows "rout_ok s' q rt"
proof (rule rout_ok_mono[OF objects_okD(3)[OF O q] n])
  fix a rst assume "rout_set_heap s a = Some rst"
  then show "\<exists>c. rout_set_heap s' a = Some (rst\<lparr>rs_count_match := c\<rparr>)"
    by (intro exI[of _ "rs_count_match rst"]) (simp add: same)
qed (use same iface in auto)

subsection \<open>Making routs\<close>

definition rout_new_ok :: "env \<Rightarrow> string \<Rightarrow> string \<Rightarrow> 'a process_state_scheme \<Rightarrow> bool" where
  "rout_new_ok E rn on s \<longleftrightarrow> calloc_ok E (next_addr s) \<and> calloc_ok E (next_addr s + 1) \<and>
     js_get (rule_JS s) rn \<noteq> None \<and> js_get (iface_JS s) on \<noteq> None"

definition rout_set_of :: "rule \<Rightarrow> addr \<Rightarrow> rout_set" where
  "rout_set_of rule ip = \<lparr>rs_if_out = Some ip, rs_match = rl_match rule, rs_write = rl_write rule, rs_count_match = 0\<rparr>"

definition rout_added :: "addr \<Rightarrow> rule \<Rightarrow> addr \<Rightarrow> iface \<Rightarrow> 'a process_state_scheme \<Rightarrow> 'a process_state_scheme" where
  "rout_added rp rule ip x s = s\<lparr>next_addr := next_addr s + 2,
     rule_heap := (rule_heap s)(rp \<mapsto> rule\<lparr>rl_refcnt := refcnt_take (rl_refcnt rule)\<rparr>),
     iface_heap := (iface_heap s)(ip \<mapsto> x\<lparr>if_refcnt := refcnt_take (if_refcnt x)\<rparr>),
     rout_set_heap := (rout_set_heap s)(next_addr s + 1 \<mapsto> rout_set_of rule ip),
     rout_heap := (rout_heap s)(next_addr s \<mapsto> \<lparr>rt_rule = Some rp, rt_output = Some ip, rt_set = Some (next_addr s + 1)\<rparr>)\<rparr>"

lemma fun_upd_back: "h p = Some x \<Longrightarrow> h(p \<mapsto> x) = h" "h q = None \<Longrightarrow> h(q := None) = h"
  by auto

lemma rout_new_run:
  fixes s :: "'a process_state_scheme"
  assumes P: "proc_inv_with K L qs s"
  obtains (made) rp ip rule x where "rout_new_ok E rn on s" "js_get (rule_JS s) rn = Some rp" "js_get (iface_JS s) on = Some ip"
      "rule_heap s rp = Some rule" "iface_heap s ip = Some x"
      "rout_new E (Some rn) (Some on) s = Some (Some (next_addr s), rout_added rp rule ip x s)"
  | (refused) n where "\<not> rout_new_ok E rn on s" "next_addr s \<le> n"
      "rout_new E (Some rn) (Some on) s = Some (None, s\<lparr>next_addr := n\<rparr>)"
proof -
  let ?p = "next_addr s"
  note B = base_invD[OF proc_invD(1)[OF P]]
  have fresh: "rout_heap s ?p = None" using objects_fresh(1)[OF proc_invD(2)[OF P]] by simp
  note def = rout_new_def rout_die_def rout_free_def calloc_def rule_get_def rout_put_def rule_release_def
    iface_release_def rout_set_free_def iface_get_def iface_put_def rout_set_new_def
  show ?thesis
  proof (cases "calloc_ok E ?p")
    case False
    then have "rout_new E (Some rn) (Some on) s = Some (None, s\<lparr>next_addr := ?p + 1\<rparr>)" by (simp add: def)
    with refused[of "?p + 1"] False show ?thesis by (simp add: rout_new_ok_def)
  next
    case c1: True
    show ?thesis
    proof (cases "js_get (rule_JS s) rn")
      case None
      then have "rout_new E (Some rn) (Some on) s = Some (None, s\<lparr>next_addr := ?p + 1\<rparr>)"
        using c1 fresh by (simp add: def fun_upd_back)
      with refused[of "?p + 1"] None show ?thesis by (simp add: rout_new_ok_def)
    next
      case rp: (Some rp)
      obtain rule where rule: "rule_heap s rp = Some rule" using rule_inv_get[OF B(1) rp] by blast
      have rel: "refcnt_release (refcnt_take (rl_refcnt rule)) = rl_refcnt rule"
        using rule_count_bound[OF P rule] by (intro refcnt_balanced(2)) simp
      show ?thesis
      proof (cases "js_get (iface_JS s) on")
        case None
        then have "rout_new E (Some rn) (Some on) s = Some (None, s\<lparr>next_addr := ?p + 1\<rparr>)"
          using c1 fresh rp rule rel by (simp add: def fun_upd_back)
        with refused[of "?p + 1"] None show ?thesis by (simp add: rout_new_ok_def)
      next
        case ip: (Some ip)
        obtain x where x: "iface_heap s ip = Some x" using ifaces_inv_get[OF B(2) ip] by blast
        have rel2: "refcnt_release (refcnt_take (if_refcnt x)) = if_refcnt x"
          using iface_count_bound[OF P x] by (rule refcnt_balanced(2))
        show ?thesis
        proof (cases "calloc_ok E (?p + 1)")
          case False
          then have "rout_new E (Some rn) (Some on) s = Some (None, s\<lparr>next_addr := ?p + 2\<rparr>)"
            using c1 fresh rp rule rel ip x rel2 by (simp add: def fun_upd_back)
          with refused[of "?p + 2"] False show ?thesis by (simp add: rout_new_ok_def)
        next
          case True
          then have "rout_new E (Some rn) (Some on) s = Some (Some ?p, rout_added rp rule ip x s)"
            using c1 rp rule ip x by (simp add: def rout_added_def rout_set_of_def)
          with made rp ip rule x True c1 show ?thesis by (simp add: rout_new_ok_def)
        qed
      qed
    qed
  qed
qed

lemma base_rout_refs:
  fixes s :: "'a process_state_scheme"
  assumes I: "base_inv K s" and rule: "rule_heap s rp = Some rule" and x: "iface_heap s ip = Some x" and n: "next_addr s \<le> n"
  shows "base_inv K (s\<lparr>next_addr := n, rule_heap := (rule_heap s)(rp \<mapsto> rule\<lparr>rl_refcnt := c\<rparr>),
    iface_heap := (iface_heap s)(ip \<mapsto> x\<lparr>if_refcnt := d\<rparr>), rout_set_heap := rsh, rout_heap := rh\<rparr>)" (is "base_inv K ?s'")
proof -
  let ?s1 = "s\<lparr>rule_heap := (rule_heap s)(rp \<mapsto> rule\<lparr>rl_refcnt := c\<rparr>)\<rparr>"
  let ?s2 = "?s1\<lparr>iface_heap := (iface_heap ?s1)(ip \<mapsto> x\<lparr>if_refcnt := d\<rparr>)\<rparr>"
  have "base_inv K ?s1" using base_rule_refcnt[OF I rule] .
  then have "base_inv K ?s2" by (rule base_iface_update[where x = x]) (use x in simp_all)
  then show ?thesis by (rule base_cong) (use n in simp_all)
qed

lemma rout_added_ok:
  fixes s :: "'a process_state_scheme"
  assumes E: "env_ok E" and P: "proc_inv_with K L qs s" and ok: "rout_new_ok E rn on s"
    and rule: "rule_heap s rp = Some rule" and x: "iface_heap s ip = Some x"
    and q: "rout_heap (rout_added rp rule ip x s) q = Some rt"
  shows "rout_ok (rout_added rp rule ip x s) q rt" (is "rout_ok ?s' q rt")
proof (cases "q = next_addr s")
  case True
  let ?rule = "rule\<lparr>rl_refcnt := refcnt_take (rl_refcnt rule)\<rparr>"
  have "next_addr s < MAXALLOC" using env_okD(3)[OF E] ok by (simp add: calloc_bounded_def rout_new_ok_def)
  with True q show ?thesis
    by (intro rout_okI[where rp = rp and ip = ip and sp = "next_addr s + 1" and rule = ?rule and rst = "rout_set_of rule ip"])
      (simp_all add: rout_added_def rout_set_of_def)
next
  case False
  note O = proc_invD(2)[OF P]
  have frs: "rout_set_heap s (next_addr s + 1) = None" using objects_fresh(3)[OF O] by simp
  from False q have q: "rout_heap s q = Some rt" by (simp add: rout_added_def)
  show ?thesis
  proof (rule rout_ok_mono[OF objects_okD(3)[OF O q]])
    fix sp rst assume "rout_set_heap s sp = Some rst"
    with frs show "\<exists>c. rout_set_heap ?s' sp = Some (rst\<lparr>rs_count_match := c\<rparr>)"
      by (intro exI[of _ "rs_count_match rst"]) (auto simp: rout_added_def)
  qed (use rule x in \<open>auto simp: rout_added_def\<close>)
qed

lemma rout_added_inv:
  fixes s :: "'a process_state_scheme"
  assumes E: "env_ok E" and P: "proc_inv_with K L qs s" and ok: "rout_new_ok E rn on s"
    and rule: "rule_heap s rp = Some rule" and x: "iface_heap s ip = Some x"
  shows "proc_inv_with K L (next_addr s # qs) (rout_added rp rule ip x s)" (is "proc_inv_with K L _ ?s'")
proof (rule proc_invI)
  let ?p = "next_addr s"
  let ?rt = "\<lparr>rt_rule = Some rp, rt_output = Some ip, rt_set = Some (?p + 1)\<rparr>"
  note O = objects_okD[OF proc_invD(2)[OF P]]
  note fresh = objects_fresh[OF proc_invD(2)[OF P]]
  have frp: "rout_heap s ?p = None" and frs: "rout_set_heap s (?p + 1) = None" using fresh(1)[of ?p] fresh(3)[of "?p + 1"] by simp_all
  have bump: "refs_to uses (rout_heap ?s') q = refs_to uses (rout_heap s) q + uses ?rt q" for uses q
    using refs_to_fresh[OF O(1) frp, of uses ?rt q] by (simp add: rout_added_def)
  have procs: "process_heap ?s' = process_heap s" "process_JS ?s' = process_JS s" by (simp_all add: rout_added_def)
  show "base_inv K ?s'"
    unfolding rout_added_def by (rule base_rout_refs[OF proc_invD(1)[OF P] rule x]) simp
  show "objects_ok ?s'"
  proof (rule objects_ok_cong[OF proc_invD(2)[OF P] _ _ rout_added_ok[OF E P ok rule x] _ procs])
    show "rout_heap ?s' r = rout_heap s r" if "process_heap s q = Some pc" "r \<in> set (jl_vals (pc_rout_JQ pc))" for q pc r
      using process_routs_not_held(3)[OF proc_invD(7)[OF P] O(2) that] frp by (auto simp: rout_added_def)
    show "sp < next_addr ?s'" if "rout_set_heap ?s' sp \<noteq> None" for sp
      using that O(4)[of sp] by (auto simp: rout_added_def split: if_splits)
  qed (use O(1) x in \<open>auto simp: rout_added_def\<close>)
  show "handlers_ok ?s'"
    by (rule handlers_ok_cong[OF proc_invD(3)[OF P] procs(1)]) (use x in \<open>auto simp: rout_added_def split: if_splits\<close>)
  have "unat (refcnt_take (rl_refcnt rule)) = unat (rl_refcnt rule) + 1"
    using rule_count_bound[OF P rule] by (intro refcnt_balanced(1)) simp
  then show "rule_counts ?s'"
    by (intro rule_counts_upd[OF proc_invD(4)[OF P], of ?s' rp "rule\<lparr>rl_refcnt := refcnt_take (rl_refcnt rule)\<rparr>"])
      (simp_all add: bump rout_rule_uses_def rule_countsD[OF proc_invD(4)[OF P] rule], simp_all add: rout_added_def)
  have "unat (refcnt_take (if_refcnt x)) = unat (if_refcnt x) + 1"
    using iface_count_bound[OF P x] by (rule refcnt_balanced(1))
  then show "iface_counts ?s'"
    by (intro iface_counts_upd[OF proc_invD(5)[OF P], of ?s' ip "x\<lparr>if_refcnt := refcnt_take (if_refcnt x)\<rparr>"])
      (simp_all add: bump procs rout_out_uses_def iface_countsD[OF proc_invD(5)[OF P] x], simp_all add: rout_added_def)
  show "sets_held ?s'"
    unfolding sets_held_def bump using frs sets_heldD[OF proc_invD(6)[OF P]] by (simp add: rout_added_def rout_set_uses_def)
  show "routs_held L (?p # qs) ?s'"
    unfolding routs_held_def procs
  proof
    fix q
    show "refs_to process_rout_uses (process_heap s) q + count_list (?p # qs) q + of_bool (q \<in> L) =
        of_bool (rout_heap ?s' q \<noteq> None)"
      using routs_heldD[OF proc_invD(7)[OF P], of q] frp by (cases "q = ?p") (simp_all add: rout_added_def)
  qed
qed

text \<open>
  What making and freeing routs leaves alone: everything but the routs, their sets, and the
  reference counts of rules and interfaces.
\<close>

definition routs_frame :: "'a process_state_scheme \<Rightarrow> 'a process_state_scheme \<Rightarrow> bool" where
  "routs_frame s s' \<longleftrightarrow> (\<exists>n rh ih sh oh.
     s' = s\<lparr>next_addr := n, rule_heap := rh, iface_heap := ih, rout_set_heap := sh, rout_heap := oh\<rparr> \<and> next_addr s \<le> n \<and>
     (\<forall>q. map_option (rl_refcnt_update (\<lambda>_. 0)) (rh q) = map_option (rl_refcnt_update (\<lambda>_. 0)) (rule_heap s q)) \<and>
     (\<forall>q. map_option (if_refcnt_update (\<lambda>_. 0)) (ih q) = map_option (if_refcnt_update (\<lambda>_. 0)) (iface_heap s q)))"

lemma routs_frame_refl [simp]: "routs_frame s s"
  unfolding routs_frame_def
  by (intro exI[of _ "next_addr s"] exI[of _ "rule_heap s"] exI[of _ "iface_heap s"] exI[of _ "rout_set_heap s"]
      exI[of _ "rout_heap s"]) simp

lemma routs_frame_trans [trans]: "routs_frame s t \<Longrightarrow> routs_frame t u \<Longrightarrow> routs_frame s u"
  unfolding routs_frame_def
proof (elim exE conjE)
  fix n rh ih sh oh n' rh' ih' sh' oh'
  assume t: "t = s\<lparr>next_addr := n, rule_heap := rh, iface_heap := ih, rout_set_heap := sh, rout_heap := oh\<rparr>" "next_addr s \<le> n"
    "\<forall>q. map_option (rl_refcnt_update (\<lambda>_. 0)) (rh q) = map_option (rl_refcnt_update (\<lambda>_. 0)) (rule_heap s q)"
    "\<forall>q. map_option (if_refcnt_update (\<lambda>_. 0)) (ih q) = map_option (if_refcnt_update (\<lambda>_. 0)) (iface_heap s q)"
    and u: "u = t\<lparr>next_addr := n', rule_heap := rh', iface_heap := ih', rout_set_heap := sh', rout_heap := oh'\<rparr>" "next_addr t \<le> n'"
    "\<forall>q. map_option (rl_refcnt_update (\<lambda>_. 0)) (rh' q) = map_option (rl_refcnt_update (\<lambda>_. 0)) (rule_heap t q)"
    "\<forall>q. map_option (if_refcnt_update (\<lambda>_. 0)) (ih' q) = map_option (if_refcnt_update (\<lambda>_. 0)) (iface_heap t q)"
  show "\<exists>n rh ih sh oh.
     u = s\<lparr>next_addr := n, rule_heap := rh, iface_heap := ih, rout_set_heap := sh, rout_heap := oh\<rparr> \<and> next_addr s \<le> n \<and>
     (\<forall>q. map_option (rl_refcnt_update (\<lambda>_. 0)) (rh q) = map_option (rl_refcnt_update (\<lambda>_. 0)) (rule_heap s q)) \<and>
     (\<forall>q. map_option (if_refcnt_update (\<lambda>_. 0)) (ih q) = map_option (if_refcnt_update (\<lambda>_. 0)) (iface_heap s q))"
    by (intro exI[of _ n'] exI[of _ rh'] exI[of _ ih'] exI[of _ sh'] exI[of _ oh']) (use t u in simp)
qed

lemma routs_frame_sel:
  assumes "routs_frame s s'"
  shows "process_heap s' = process_heap s" "process_JS s' = process_JS s" "iface_JS s' = iface_JS s" "rule_JS s' = rule_JS s"
    "op_heap s' = op_heap s" "io_log s' = io_log s" "next_addr s \<le> next_addr s'" "field_JS s' = field_JS s" "field_heap s' = field_heap s"
    "process_state.more s' = process_state.more s"
  using assms unfolding routs_frame_def by (elim exE conjE; simp)+

lemma routs_frame_iface:
  assumes "routs_frame s s'" and "iface_heap s ip = Some x"
  obtains c where "iface_heap s' ip = Some (x\<lparr>if_refcnt := c\<rparr>)"
proof -
  have "map_option (if_refcnt_update (\<lambda>_. 0)) (iface_heap s' ip) = Some (x\<lparr>if_refcnt := 0\<rparr>)"
    using assms unfolding routs_frame_def by (elim exE conjE) simp
  then obtain y where y: "iface_heap s' ip = Some y" "y\<lparr>if_refcnt := 0\<rparr> = x\<lparr>if_refcnt := 0\<rparr>" by (cases "iface_heap s' ip") auto
  then have "y = x\<lparr>if_refcnt := if_refcnt y\<rparr>" by (cases y, cases x) simp
  with y(1) that show ?thesis by metis
qed

lemma routs_frame_next: "next_addr s \<le> n \<Longrightarrow> routs_frame s (s\<lparr>next_addr := n\<rparr>)"
  unfolding routs_frame_def
  by (intro exI[of _ n] exI[of _ "rule_heap s"] exI[of _ "iface_heap s"] exI[of _ "rout_set_heap s"]
      exI[of _ "rout_heap s"]) simp

lemma routs_frame_added:
  assumes "rule_heap s rp = Some rule" and "iface_heap s ip = Some x"
  shows "routs_frame s (rout_added rp rule ip x s)"
  unfolding routs_frame_def rout_added_def
  by (intro exI[of _ "next_addr s + 2"] exI[of _ "(rule_heap s)(rp \<mapsto> rule\<lparr>rl_refcnt := refcnt_take (rl_refcnt rule)\<rparr>)"]
      exI[of _ "(iface_heap s)(ip \<mapsto> x\<lparr>if_refcnt := refcnt_take (if_refcnt x)\<rparr>)"]
      exI[of _ "(rout_set_heap s)(next_addr s + 1 \<mapsto> rout_set_of rule ip)"]
      exI[of _ "(rout_heap s)(next_addr s \<mapsto> \<lparr>rt_rule = Some rp, rt_output = Some ip, rt_set = Some (next_addr s + 1)\<rparr>)"])
    (use assms in simp)

subsection \<open>Freeing routs\<close>

definition rout_removed :: "addr \<Rightarrow> addr \<Rightarrow> rule \<Rightarrow> addr \<Rightarrow> iface \<Rightarrow> addr \<Rightarrow> 'a process_state_scheme \<Rightarrow> 'a process_state_scheme" where
  "rout_removed p rp rule ip x sp s = s\<lparr>
     rule_heap := (rule_heap s)(rp \<mapsto> rule\<lparr>rl_refcnt := refcnt_release (rl_refcnt rule)\<rparr>),
     iface_heap := (iface_heap s)(ip \<mapsto> x\<lparr>if_refcnt := refcnt_release (if_refcnt x)\<rparr>),
     rout_set_heap := (rout_set_heap s)(sp := None), rout_heap := (rout_heap s)(p := None)\<rparr>"

lemma rout_free_run:
  fixes s :: "'a process_state_scheme"
  assumes p: "rout_heap s p = Some \<lparr>rt_rule = Some rp, rt_output = Some ip, rt_set = Some sp\<rparr>"
    and live: "rule_heap s rp = Some rule" "iface_heap s ip = Some x" "rout_set_heap s sp = Some rst"
  shows "rout_free (Some p) s = Some (rout_removed p rp rule ip x sp s)"
  using assms by (simp add: rout_free_def rule_release_def iface_release_def iface_put_def rout_set_free_def rout_removed_def)

lemma routs_frame_removed:
  assumes "rule_heap s rp = Some rule" and "iface_heap s ip = Some x"
  shows "routs_frame s (rout_removed p rp rule ip x sp s)"
  unfolding routs_frame_def rout_removed_def
  by (intro exI[of _ "next_addr s"] exI[of _ "(rule_heap s)(rp \<mapsto> rule\<lparr>rl_refcnt := refcnt_release (rl_refcnt rule)\<rparr>)"]
      exI[of _ "(iface_heap s)(ip \<mapsto> x\<lparr>if_refcnt := refcnt_release (if_refcnt x)\<rparr>)"]
      exI[of _ "(rout_set_heap s)(sp := None)"] exI[of _ "(rout_heap s)(p := None)"]) (use assms in simp)

lemma refs_to_unique:
  assumes "finite (dom h)" and "refs_to uses h a \<le> 1" and "h p = Some x" "0 < uses x a" and "h q = Some y" "0 < uses y a"
  shows "q = p"
proof (rule ccontr)
  assume "q \<noteq> p"
  then have "0 < refs_to uses (h(p := None)) a"
    using assms by (intro refs_to_pos[of _ q y]) simp_all
  with refs_to_remove[OF assms(1,3), of uses a] assms(2,4) show False by simp
qed

lemma rout_removed_ok:
  fixes s :: "'a process_state_scheme"
  assumes P: "proc_inv_with K L qs s"
    and p: "rout_heap s p = Some \<lparr>rt_rule = Some rp, rt_output = Some ip, rt_set = Some sp\<rparr>"
    and rule: "rule_heap s rp = Some rule" and x: "iface_heap s ip = Some x"
    and q': "rout_heap (rout_removed p rp rule ip x sp s) q = Some rt"
  shows "rout_ok (rout_removed p rp rule ip x sp s) q rt" (is "rout_ok ?s' q rt")
proof -
  note O = proc_invD(2)[OF P]
  have q: "rout_heap s q = Some rt" "q \<noteq> p" using q' by (auto simp: rout_removed_def split: if_splits)
  have other: "rt_set rt \<noteq> Some sp"
  proof
    assume "rt_set rt = Some sp"
    then have "q = p"
      using sets_heldD[OF proc_invD(6)[OF P], of sp]
      by (intro refs_to_unique[OF objects_okD(1)[OF O] _ p _ q(1), of rout_set_uses sp]) (simp_all add: rout_set_uses_def)
    with q(2) show False by simp
  qed
  show ?thesis
  proof (rule rout_ok_mono[OF objects_okD(3)[OF O q(1)]])
    fix a rst assume "rt_set rt = Some a" "rout_set_heap s a = Some rst"
    with other show "\<exists>c. rout_set_heap ?s' a = Some (rst\<lparr>rs_count_match := c\<rparr>)"
      by (intro exI[of _ "rs_count_match rst"]) (auto simp: rout_removed_def)
  qed (use rule x in \<open>auto simp: rout_removed_def\<close>)
qed

lemma rout_removed_inv:
  fixes s :: "'a process_state_scheme"
  assumes P: "proc_inv_with K L (p # qs) s"
    and p: "rout_heap s p = Some \<lparr>rt_rule = Some rp, rt_output = Some ip, rt_set = Some sp\<rparr>"
    and rule: "rule_heap s rp = Some rule" and x: "iface_heap s ip = Some x"
  shows "proc_inv_with K L qs (rout_removed p rp rule ip x sp s)" (is "proc_inv_with K L _ ?s'")
proof (rule proc_invI)
  let ?rt = "\<lparr>rt_rule = Some rp, rt_output = Some ip, rt_set = Some sp\<rparr>"
  note O = objects_okD[OF proc_invD(2)[OF P]]
  have drop: "refs_to uses (rout_heap s) q = refs_to uses (rout_heap ?s') q + uses ?rt q" for uses q
    using refs_to_remove[OF O(1) p, of uses q] by (simp add: rout_removed_def)
  have procs: "process_heap ?s' = process_heap s" "process_JS ?s' = process_JS s" by (simp_all add: rout_removed_def)
  show "base_inv K ?s'"
    using base_rout_refs[OF proc_invD(1)[OF P] rule x order_refl] by (simp add: rout_removed_def)
  show "objects_ok ?s'"
  proof (rule objects_ok_cong[OF proc_invD(2)[OF P] _ _ rout_removed_ok[OF P p rule x] _ procs])
    show "rout_heap ?s' r = rout_heap s r" if "process_heap s q = Some pc" "r \<in> set (jl_vals (pc_rout_JQ pc))" for q pc r
      using process_routs_not_held(1)[OF proc_invD(7)[OF P] O(2) that] by (auto simp: rout_removed_def)
    show "a < next_addr ?s'" if "rout_set_heap ?s' a \<noteq> None" for a
      using that O(4)[of a] by (auto simp: rout_removed_def split: if_splits)
  qed (use O(1) x in \<open>auto simp: rout_removed_def\<close>)
  show "handlers_ok ?s'"
    by (rule handlers_ok_cong[OF proc_invD(3)[OF P] procs(1)]) (use x in \<open>auto simp: rout_removed_def split: if_splits\<close>)
  show "rule_counts ?s'"
    using rule_countsD[OF proc_invD(4)[OF P] rule] drop[of rout_rule_uses]
    by (intro rule_counts_upd[OF proc_invD(4)[OF P], of ?s' rp "rule\<lparr>rl_refcnt := refcnt_release (rl_refcnt rule)\<rparr>"])
      (simp_all add: rout_rule_uses_def unat_refcnt_release, simp_all add: rout_removed_def)
  show "iface_counts ?s'"
    using iface_countsD[OF proc_invD(5)[OF P] x] drop[of rout_out_uses]
    by (intro iface_counts_upd[OF proc_invD(5)[OF P], of ?s' ip "x\<lparr>if_refcnt := refcnt_release (if_refcnt x)\<rparr>"])
      (simp_all add: procs rout_out_uses_def unat_refcnt_release, simp_all add: rout_removed_def)
  show "sets_held ?s'"
    unfolding sets_held_def
  proof
    fix a
    have "of_bool (rout_set_heap s sp \<noteq> None) \<le> (1::nat)" by simp
    then show "refs_to rout_set_uses (rout_heap ?s') a = of_bool (rout_set_heap ?s' a \<noteq> None)"
      using drop[of rout_set_uses a] sets_heldD[OF proc_invD(6)[OF P], of a]
      by (cases "a = sp") (simp_all add: rout_removed_def rout_set_uses_def)
  qed
  show "routs_held L qs ?s'"
    unfolding routs_held_def procs
  proof
    fix q
    show "refs_to process_rout_uses (process_heap s) q + count_list qs q + of_bool (q \<in> L) = of_bool (rout_heap ?s' q \<noteq> None)"
      using routs_heldD[OF proc_invD(7)[OF P], of q] p by (cases "q = p") (simp_all add: rout_removed_def)
  qed
qed

lemma rout_free_spec:
  fixes s :: "'a process_state_scheme"
  assumes P: "proc_inv_with K L (p # qs) s"
  obtains s' where "rout_free (Some p) s = Some s'" "proc_inv_with K L qs s'" "routs_frame s s'"
proof -
  have "refs_to process_rout_uses (process_heap s) p + count_list (p # qs) p + of_bool (p \<in> L) = of_bool (rout_heap s p \<noteq> None)"
    using proc_invD(7)[OF P] unfolding routs_held_def by (rule spec)
  then obtain rt where rt: "rout_heap s p = Some rt" by (cases "rout_heap s p"; simp)
  from objects_okD(3)[OF proc_invD(2)[OF P] rt] obtain rp ip sp rule x rst where
    r: "rt = \<lparr>rt_rule = Some rp, rt_output = Some ip, rt_set = Some sp\<rparr>" "rule_heap s rp = Some rule"
    "iface_heap s ip = Some x" "rout_set_heap s sp = Some rst" unfolding rout_ok_def by blast
  note p = rt[unfolded r(1)]
  show ?thesis
    by (rule that[OF rout_free_run[OF p r(2-4)] rout_removed_inv[OF P p r(2,3)] routs_frame_removed[OF r(2,3)]])
qed

lemma free_routs:
  fixes s :: "'a process_state_scheme"
  assumes "proc_inv_with K L (vs @ qs) s"
  obtains s' where "loop_vals (\<lambda>q. rout_free (Some q)) vs s = Some s'" "proc_inv_with K L qs s'" "routs_frame s s'"
  using assms
proof (induction vs arbitrary: s thesis)
  case Nil
  then show ?case by simp
next
  case (Cons v vs)
  have "proc_inv_with K L (v # vs @ qs) s" using Cons.prems(2) by simp
  then obtain s1 where s1: "rout_free (Some v) s = Some s1" "proc_inv_with K L (vs @ qs) s1" "routs_frame s s1"
    by (rule rout_free_spec)
  obtain s2 where s2: "loop_vals (\<lambda>q. rout_free (Some q)) vs s1 = Some s2" "proc_inv_with K L qs s2" "routs_frame s1 s2"
    using Cons.IH[OF _ s1(2)] by blast
  show ?case
    by (rule Cons.prems(1)[of s2]) (use s1 s2 routs_frame_trans[OF s1(3) s2(3)] in simp_all)
qed

lemma process_release_refs_eq:
  fixes s :: "'a process_state_scheme"
  assumes "jl_dense q"
  shows "process_release_refs q s = loop_vals (\<lambda>q. rout_free (Some q)) (jl_vals q) s"
  by (simp add: process_release_refs_def jl_loop_vals[OF jl_dense_no_None[OF assms]])

text \<open>Freeing routs does not look at the processes.\<close>

lemma loop_vals_commute:
  assumes "\<And>v s. body v (f s) = map_option f (body v s)"
  shows "loop_vals body vs (f s) = map_option f (loop_vals body vs s)"
proof (induction vs arbitrary: s)
  case (Cons v vs)
  show ?case using Cons.IH by (cases "body v s") (simp_all add: assms)
qed simp

lemma rout_free_processes:
  "rout_free (Some q) (s\<lparr>process_heap := h\<rparr>) = map_option (\<lambda>t. t\<lparr>process_heap := h\<rparr>) (rout_free (Some q) s)"
  by (cases "rout_heap s q"; simp add: rout_free_def rule_release_def iface_release_def iface_put_def rout_set_free_def
      split: option.split Option.bind_split; fastforce)

text \<open>The queue of sets that goes with a queue of routs.\<close>

lemma sets_queue_from:
  assumes "\<And>q. q \<in> set qs \<Longrightarrow> \<exists>rt sp. rout_heap s q = Some rt \<and> rt_set rt = Some sp" and "jl_dense acc"
  shows "\<exists>sets. loop_vals (\<lambda>a q. do { rt \<leftarrow> rout_heap s a; Some (snd (jl_enqueue q (rt_set rt))) }) qs acc = Some sets \<and>
    jl_dense sets \<and> map Some (jl_vals sets) = map Some (jl_vals acc) @ map (\<lambda>q. Option.bind (rout_heap s q) rt_set) qs"
  using assms
proof (induction qs arbitrary: acc)
  case (Cons q qs)
  obtain rt sp where q: "rout_heap s q = Some rt" "rt_set rt = Some sp" using Cons.prems(1)[of q] by auto
  let ?acc = "snd (jl_enqueue acc (Some sp))"
  have "jl_dense ?acc" "jl_vals ?acc = jl_vals acc @ [sp]" using jl_enqueue_opt[OF Cons.prems(2), of "Some sp"] by simp_all
  with Cons.IH[of ?acc] Cons.prems(1) q show ?case by auto
qed simp

lemma sets_queue:
  assumes "\<And>q. q \<in> set (jl_vals rout_JQ) \<Longrightarrow> \<exists>rt sp. rout_heap s q = Some rt \<and> rt_set rt = Some sp" and d: "jl_dense rout_JQ"
  obtains sets where "jl_loop (\<lambda>val q. do { a \<leftarrow> val; rt \<leftarrow> rout_heap s a; Some (snd (jl_enqueue q (rt_set rt))) }) rout_JQ [] = Some sets"
    "jl_dense sets" "map Some (jl_vals sets) = map (\<lambda>q. Option.bind (rout_heap s q) rt_set) (jl_vals rout_JQ)"
proof -
  have "jl_dense ([] :: addr judyL)" by (simp add: jl_dense_def)
  from sets_queue_from[OF assms(1) this] that show ?thesis
    by (simp add: jl_loop_vals[OF jl_dense_no_None[OF d]] jl_vals_def map_filter_simps) blast
qed

end
