(* ===== verification/Processes.thy ===== *)
theory Processes
  imports Routs
begin

text \<open>
  What the operations on processes do to the invariant of \<open>Routs\<close>: making a process takes the
  routs of the queue it is given, freeing it gives up its interface and frees them; the
  commands of \<open>process_parse\<close> keep the invariant on every document, and \<open>process_free_all\<close>
  leaves no process, no rout and no reference.
\<close>

subsection \<open>Freeing a process\<close>

definition process_unlinked :: "addr \<Rightarrow> addr \<Rightarrow> iface \<Rightarrow> string \<Rightarrow> 'a process_state_scheme \<Rightarrow> 'a process_state_scheme" where
  "process_unlinked p ip x nm s = s\<lparr>
     iface_heap := (iface_heap s)(ip \<mapsto> x\<lparr>if_context := [], if_handler := None, if_refcnt := refcnt_release (if_refcnt x)\<rparr>),
     process_JS := js_delete (process_JS s) nm, process_heap := (process_heap s)(p := None)\<rparr>"

text \<open>No two processes have the same interface.\<close>

lemma process_iface_unique:
  assumes O: "objects_ok s" and p: "process_heap s p = Some pc" "pc_in_iface pc = Some ip"
    and q: "process_heap s q = Some pc'" "pc_in_iface pc' = Some ip"
  shows "q = p"
  using objects_okD(5)[OF O p(1)] objects_okD(5)[OF O q(1)] p(2) q(2) unfolding process_ok_def by auto

lemma process_unlinked_objects:
  fixes s :: "'a process_state_scheme"
  assumes OK: "objects_ok s" and p: "process_heap s p = Some pc" "pc_in_iface pc = Some ip"
    and x: "iface_heap s ip = Some x" "if_name x = Some nm"
  shows "objects_ok (process_unlinked p ip x nm s)" (is "objects_ok ?s'")
  unfolding objects_ok_def
proof (intro conjI allI impI)
  note O = objects_okD[OF OK]
  have js: "js_get (process_JS s) nm = Some p" using O(5)[OF p(1)] p(2) x by (auto simp: process_ok_def)
  have name: "\<exists>x'. iface_heap ?s' i = Some x' \<and> if_name x' = if_name y" if "iface_heap s i = Some y" for i y
    using that x by (cases "i = ip") (simp_all add: process_unlinked_def)
  show "process_ok ?s' q pc'" if q: "process_heap ?s' q = Some pc'" for q pc'
  proof -
    have old: "process_heap s q = Some pc'" "q \<noteq> p" using q by (auto simp: process_unlinked_def split: if_splits)
    show ?thesis
    proof (rule process_ok_mono[OF O(5)[OF old(1)]])
      fix i y assume "pc_in_iface pc' = Some i" "iface_heap s i = Some y"
      moreover from this have "i \<noteq> ip" using process_iface_unique[OF OK p old(1)] old(2) by auto
      ultimately show "\<exists>x'. iface_heap ?s' i = Some x' \<and> if_name x' = if_name y \<and> if_handler x' = if_handler y \<and> if_context x' = if_context y"
        by (simp add: process_unlinked_def)
    next
      fix n assume "js_get (process_JS s) n = Some q"
      with js old(2) show "js_get (process_JS ?s') n = Some q"
        by (auto simp: process_unlinked_def js.del_get[OF O(7)])
    qed (simp_all add: process_unlinked_def)
  qed
  show "rout_ok ?s' q rt" if "rout_heap ?s' q = Some rt" for q rt
    by (rule routs_ok_cong[OF OK]) (use that in \<open>simp_all add: process_unlinked_def\<close>)
  have "process_name s pc = Some nm" using p(2) x by (simp add: process_name_def)
  from reg.named_unlink[OF O(6) p(1) this] js
  have "registered (process_name s) (js_delete (process_JS s) nm) ((process_heap s)(p := None))" by simp
  then have "registered (process_name ?s') (js_delete (process_JS s) nm) ((process_heap s)(p := None))"
  proof (rule registered_cong)
    show "process_name ?s' pc' = process_name s pc'" if "((process_heap s)(p := None)) q = Some pc'" for q pc'
      by (rule process_name_cong[OF name O(5)[of q]]) (use that in \<open>auto split: if_splits\<close>)
  qed
  then show "registered (process_name ?s') (process_JS ?s') (process_heap ?s')" by (simp add: process_unlinked_def)
qed (use objects_okD(1,2,4)[OF OK] in \<open>simp_all add: process_unlinked_def\<close>)

lemma process_unlinked_handlers:
  assumes H: "handlers_ok s" and p: "pc_in_iface pc = Some ip" "process_heap s p = Some pc"
  shows "handlers_ok (process_unlinked p ip x nm s)" (is "handlers_ok ?s'")
  unfolding handlers_ok_def
proof (intro allI impI)
  fix i y assume y: "iface_heap ?s' i = Some y" "if_handler y \<noteq> None"
  then have i: "i \<noteq> ip" "iface_heap s i = Some y" by (auto simp: process_unlinked_def split: if_splits)
  with y(2) obtain q pc' where q: "process_heap s q = Some pc'" "pc_in_iface pc' = Some i"
    using H unfolding handlers_ok_def by blast
  with i(1) p have "q \<noteq> p" by auto
  with q show "\<exists>q pc'. process_heap ?s' q = Some pc' \<and> pc_in_iface pc' = Some i"
    by (intro exI[of _ q] exI[of _ pc']) (simp add: process_unlinked_def)
qed

lemma process_unlinked_inv:
  fixes s :: "'a process_state_scheme"
  assumes P: "proc_inv_with K L qs s" and p: "process_heap s p = Some pc" "pc_in_iface pc = Some ip"
    and x: "iface_heap s ip = Some x" "if_name x = Some nm"
  shows "proc_inv_with K L (jl_vals (pc_rout_JQ pc) @ qs) (process_unlinked p ip x nm s)" (is "proc_inv_with K L _ ?s'")
proof (rule proc_invI)
  note O = objects_okD[OF proc_invD(2)[OF P]]
  let ?x = "x\<lparr>if_context := [], if_handler := None, if_refcnt := refcnt_release (if_refcnt x)\<rparr>"
  have drop: "refs_to uses (process_heap s) q = refs_to uses (process_heap ?s') q + uses pc q" for uses q
    using refs_to_remove[OF O(2) p(1), of uses q] by (simp add: process_unlinked_def)
  have same: "rout_heap ?s' = rout_heap s" "rule_heap ?s' = rule_heap s" "rout_set_heap ?s' = rout_set_heap s"
    by (simp_all add: process_unlinked_def)
  have "base_inv K (s\<lparr>iface_heap := (iface_heap s)(ip \<mapsto> ?x)\<rparr>)"
    by (rule base_iface_update[OF proc_invD(1)[OF P] x(1)]) simp_all
  then show "base_inv K ?s'" by (rule base_cong) (simp_all add: process_unlinked_def)
  show "objects_ok ?s'" by (rule process_unlinked_objects[OF proc_invD(2)[OF P] p x])
  show "handlers_ok ?s'" by (rule process_unlinked_handlers[OF proc_invD(3)[OF P] p(2,1)])
  show "rule_counts ?s'" using proc_invD(4)[OF P] by (simp add: rule_counts_def same)
  show "sets_held ?s'" using proc_invD(6)[OF P] by (simp add: sets_held_def same)
  show "iface_counts ?s'"
    using iface_countsD[OF proc_invD(5)[OF P] x(1)] drop[of process_in_uses] p(2)
    by (intro iface_counts_upd[OF proc_invD(5)[OF P], of ?s' ip ?x])
      (simp_all add: same process_in_uses_def unat_refcnt_release, simp_all add: process_unlinked_def)
  show "routs_held L (jl_vals (pc_rout_JQ pc) @ qs) ?s'"
    unfolding routs_held_def same
    using routs_heldD[OF proc_invD(7)[OF P]] drop[of process_rout_uses] by (simp add: process_rout_uses_def ac_simps)
qed

text \<open>Freeing a process frees its routs with it.\<close>

lemma loop_processes:
  "loop_vals (\<lambda>q. rout_free (Some q)) vs (s\<lparr>process_heap := h\<rparr>) =
   map_option (\<lambda>t. t\<lparr>process_heap := h\<rparr>) (loop_vals (\<lambda>q. rout_free (Some q)) vs s)"
  by (rule loop_vals_commute[where f = "\<lambda>t. t\<lparr>process_heap := h\<rparr>"]) (rule rout_free_processes)

lemma free_routs_then:
  fixes s :: "'a process_state_scheme"
  assumes "proc_inv_with K L (vs @ qs) (s\<lparr>process_heap := (process_heap s)(p := None)\<rparr>)"
  obtains t where "Option.bind (loop_vals (\<lambda>q. rout_free (Some q)) vs s)
      (\<lambda>t. Some (t\<lparr>process_heap := (process_heap t)(p := None)\<rparr>)) = Some t"
    "proc_inv_with K L qs t" "routs_frame (s\<lparr>process_heap := (process_heap s)(p := None)\<rparr>) t"
proof -
  let ?body = "\<lambda>q. rout_free (Some q)"
  let ?h = "(process_heap s)(p := None)"
  obtain t where t: "loop_vals ?body vs (s\<lparr>process_heap := ?h\<rparr>) = Some t" "proc_inv_with K L qs t" "routs_frame (s\<lparr>process_heap := ?h\<rparr>) t"
    using free_routs[OF assms] .
  then obtain t1 where t1: "loop_vals ?body vs s = Some t1" "t = t1\<lparr>process_heap := ?h\<rparr>"
    by (auto simp: loop_processes)
  have "loop_vals ?body vs (s\<lparr>process_heap := process_heap s\<rparr>) = Some (t1\<lparr>process_heap := process_heap s\<rparr>)"
    unfolding loop_processes t1(1) by simp
  then have "process_heap t1 = process_heap s" using t1(1) by (cases t1) simp
  with t t1 that show ?thesis by simp
qed

lemma process_free_spec:
  fixes s :: "'a process_state_scheme"
  assumes P: "proc_inv_with K L qs s" and p: "process_heap s p = Some pc" "process_name s pc = Some nm"
  obtains ip x s' where "pc_in_iface pc = Some ip" "iface_heap s ip = Some x" "if_name x = Some nm"
    "process_free (Some p) s = Some s'" "proc_inv_with K L qs s'" "routs_frame (process_unlinked p ip x nm s) s'"
proof -
  note O = objects_okD[OF proc_invD(2)[OF P]]
  from O(5)[OF p(1)] p(2) obtain ip x where ip: "pc_in_iface pc = Some ip" "iface_heap s ip = Some x" "if_name x = Some nm"
    "js_get (process_JS s) nm = Some p" "if_handler x = Some process_exec_ptr" "if_context x = pc_rout_set_JQ pc"
    "jl_dense (pc_rout_JQ pc)"
    unfolding process_ok_def process_name_def by auto
  let ?s1 = "s\<lparr>iface_heap := (iface_heap s)(ip \<mapsto> x\<lparr>if_context := [], if_handler := None, if_refcnt := refcnt_release (if_refcnt x)\<rparr>),
     process_JS := js_delete (process_JS s) nm\<rparr>"
  have u: "process_unlinked p ip x nm s = ?s1\<lparr>process_heap := (process_heap ?s1)(p := None)\<rparr>"
    by (simp add: process_unlinked_def)
  obtain t where t: "Option.bind (loop_vals (\<lambda>q. rout_free (Some q)) (jl_vals (pc_rout_JQ pc)) ?s1)
      (\<lambda>t. Some (t\<lparr>process_heap := (process_heap t)(p := None)\<rparr>)) = Some t"
    "proc_inv_with K L qs t" "routs_frame (process_unlinked p ip x nm s) t"
    using free_routs_then[OF process_unlinked_inv[OF P p(1) ip(1-3), unfolded u]] unfolding u by blast
  have "process_free (Some p) s = Some t"
    using p(1) ip t(1) by (simp add: process_free_def iface_handler_clear_def iface_release_def iface_put_def
        process_release_refs_eq)
  with that ip(1-3) t(2,3) show ?thesis by blast
qed

subsection \<open>Making a process\<close>

lemma proc_inv_next:
  fixes s :: "'a process_state_scheme"
  assumes P: "proc_inv_with K L qs s" and n: "next_addr s \<le> n"
  shows "proc_inv_with K L qs (s\<lparr>next_addr := n\<rparr>)" (is "proc_inv_with K L qs ?s'")
proof (rule proc_invI)
  note O = objects_okD[OF proc_invD(2)[OF P]]
  show "base_inv K ?s'" by (rule base_cong[OF proc_invD(1)[OF P]]) (use n in simp_all)
  show "objects_ok ?s'"
    unfolding objects_ok_def
  proof (intro conjI allI impI)
    show "rout_ok ?s' p rt" if "rout_heap ?s' p = Some rt" for p rt
      using O(3)[of p rt] that n by (auto simp: rout_ok_def)
    show "process_ok ?s' p pc" if "process_heap ?s' p = Some pc" for p pc
      using O(5)[of p pc] that n by (auto simp: process_ok_def)
    show "sp < next_addr ?s'" if "rout_set_heap ?s' sp \<noteq> None" for sp
      using O(4)[of sp] that n by auto
    show "registered (process_name ?s') (process_JS ?s') (process_heap ?s')"
    proof -
      have "registered (process_name ?s') (process_JS s) (process_heap s)"
        by (rule registered_cong[OF O(6)]) (simp add: process_name_def)
      then show ?thesis by simp
    qed
  qed (use O(1,2) in simp_all)
qed (use proc_invD[OF P] in \<open>simp_all add: handlers_ok_def rule_counts_def iface_counts_def sets_held_def routs_held_def\<close>)

definition process_new_ok :: "env \<Rightarrow> string \<Rightarrow> 'a process_state_scheme \<Rightarrow> bool" where
  "process_new_ok E nm s \<longleftrightarrow>
     calloc_ok E (next_addr s) \<and> js_get (process_JS s) nm = None \<and> js_get (iface_JS s) nm \<noteq> None"

definition process_linked ::
  "addr judyL \<Rightarrow> addr judyL \<Rightarrow> addr \<Rightarrow> iface \<Rightarrow> string \<Rightarrow> 'a process_state_scheme \<Rightarrow> 'a process_state_scheme"
where
  "process_linked Q sets ip x nm s = s\<lparr>next_addr := next_addr s + 1,
     iface_heap := (iface_heap s)(ip \<mapsto> x\<lparr>if_handler := Some process_exec_ptr, if_context := sets, if_refcnt := refcnt_take (if_refcnt x)\<rparr>),
     process_JS := snd (js_insert (process_JS s) nm (Some (next_addr s)) True),
     process_heap := (process_heap s)(next_addr s \<mapsto> \<lparr>pc_in_iface = Some ip, pc_rout_JQ = Q, pc_rout_set_JQ = sets\<rparr>)\<rparr>"

text \<open>An interface with no process has no handler.\<close>

lemma no_process_no_handler:
  assumes P: "proc_inv_with K L qs s" and x: "iface_heap s ip = Some x" "if_name x = Some nm"
    and js: "js_get (process_JS s) nm = None"
  shows "if_handler x = None" and "process_heap s q = Some pc \<Longrightarrow> pc_in_iface pc \<noteq> Some ip"
proof -
  note O = objects_okD[OF proc_invD(2)[OF P]]
  show none: "pc_in_iface pc \<noteq> Some ip" if "process_heap s q = Some pc" for q pc
    using O(5)[OF that] x js by (auto simp: process_ok_def)
  show "if_handler x = None"
    using proc_invD(3)[OF P] x(1) none unfolding handlers_ok_def by blast
qed

lemma process_linked_ok:
  fixes s :: "'a process_state_scheme"
  assumes E: "env_ok E" and P: "proc_inv_with K L qs s" and ok: "process_new_ok E nm s"
    and Q: "jl_dense Q" "jl_dense sets" "map Some (jl_vals sets) = map (\<lambda>q. Option.bind (rout_heap s q) rt_set) (jl_vals Q)"
    and x: "iface_heap s ip = Some x" "if_name x = Some nm"
    and q: "process_heap (process_linked Q sets ip x nm s) q = Some pc"
  shows "process_ok (process_linked Q sets ip x nm s) q pc" (is "process_ok ?s' q pc")
proof -
  note O = objects_okD[OF proc_invD(2)[OF P]]
  have free: "js_get (process_JS s) nm = None" using ok by (simp add: process_new_ok_def)
  have get: "js_get (process_JS ?s') = (js_get (process_JS s))(nm \<mapsto> next_addr s)"
    by (simp add: process_linked_def js.ins_get[OF O(7)])
  have same: "rout_heap ?s' = rout_heap s" "next_addr ?s' = next_addr s + 1" by (simp_all add: process_linked_def)
  show ?thesis
  proof (cases "q = next_addr s")
    case True
    have "next_addr s < MAXALLOC" using env_okD(3)[OF E] ok by (simp add: calloc_bounded_def process_new_ok_def)
    moreover from True q have "pc = \<lparr>pc_in_iface = Some ip, pc_rout_JQ = Q, pc_rout_set_JQ = sets\<rparr>"
      by (simp add: process_linked_def)
    ultimately show ?thesis using True Q x get
      by (simp add: process_ok_def same) (simp add: process_linked_def)
  next
    case False
    with q have old: "process_heap s q = Some pc" by (simp add: process_linked_def)
    show ?thesis
    proof (rule process_ok_mono[OF O(5)[OF old]])
      fix i y assume "pc_in_iface pc = Some i" "iface_heap s i = Some y"
      moreover from this have "i \<noteq> ip" using no_process_no_handler(2)[OF P x free old] by auto
      ultimately show "\<exists>x'. iface_heap ?s' i = Some x' \<and> if_name x' = if_name y \<and> if_handler x' = if_handler y \<and> if_context x' = if_context y"
        by (simp add: process_linked_def)
    next
      fix n assume "js_get (process_JS s) n = Some q"
      with free show "js_get (process_JS ?s') n = Some q" by (auto simp: get)
    qed (use same in auto)
  qed
qed

lemma process_linked_objects:
  fixes s :: "'a process_state_scheme"
  assumes OK: "objects_ok s" and x: "iface_heap s ip = Some x" "if_name x = Some nm"
    and procs: "\<And>q pc. process_heap (process_linked Q sets ip x nm s) q = Some pc \<Longrightarrow>
      process_ok (process_linked Q sets ip x nm s) q pc"
  shows "objects_ok (process_linked Q sets ip x nm s)" (is "objects_ok ?s'")
  unfolding objects_ok_def
proof (intro conjI allI impI procs)
  note O = objects_okD[OF OK]
  have name: "\<exists>x'. iface_heap ?s' i = Some x' \<and> if_name x' = if_name y" if "iface_heap s i = Some y" for i y
    using that x by (cases "i = ip") (simp_all add: process_linked_def)
  show "rout_ok ?s' q rt" if "rout_heap ?s' q = Some rt" for q rt
    by (rule routs_ok_cong[OF OK]) (use that in \<open>simp_all add: process_linked_def\<close>)
  show "sp < next_addr ?s'" if "rout_set_heap ?s' sp \<noteq> None" for sp
    using O(4)[of sp] that by (simp add: process_linked_def)
  have old: "registered (process_name ?s') (process_JS s) (process_heap s)"
  proof (rule registered_cong[OF O(6)])
    show "process_name ?s' pc' = process_name s pc'" if "process_heap s q = Some pc'" for q pc'
      by (rule process_name_cong[OF name O(5)[OF that]])
  qed
  have "process_name ?s' \<lparr>pc_in_iface = Some ip, pc_rout_JQ = Q, pc_rout_set_JQ = sets\<rparr> = Some nm"
    using x by (simp add: process_name_def process_linked_def)
  from reg.named_add[OF old this objects_fresh(2)[OF OK order_refl], of True]
  show "registered (process_name ?s') (process_JS ?s') (process_heap ?s')" by (simp add: process_linked_def)
qed (use objects_okD(1,2)[OF OK] in \<open>simp_all add: process_linked_def\<close>)

lemma process_linked_handlers:
  assumes H: "handlers_ok s" and fresh: "process_heap s (next_addr s) = None"
  shows "handlers_ok (process_linked Q sets ip x nm s)" (is "handlers_ok ?s'")
  unfolding handlers_ok_def
proof (intro allI impI)
  fix i y assume y: "iface_heap ?s' i = Some y" "if_handler y \<noteq> None"
  show "\<exists>q pc'. process_heap ?s' q = Some pc' \<and> pc_in_iface pc' = Some i"
  proof (cases "i = ip")
    case True
    then show ?thesis
      by (intro exI[of _ "next_addr s"] exI[of _ "\<lparr>pc_in_iface = Some ip, pc_rout_JQ = Q, pc_rout_set_JQ = sets\<rparr>"])
        (simp add: process_linked_def)
  next
    case False
    with y have "iface_heap s i = Some y" by (simp add: process_linked_def)
    with y(2) obtain q pc' where q: "process_heap s q = Some pc'" "pc_in_iface pc' = Some i"
      using H unfolding handlers_ok_def by blast
    with fresh have "q \<noteq> next_addr s" by auto
    with q show ?thesis by (intro exI[of _ q] exI[of _ pc']) (simp add: process_linked_def)
  qed
qed

lemma process_linked_inv:
  fixes s :: "'a process_state_scheme"
  assumes E: "env_ok E" and P: "proc_inv_with K L (jl_vals Q @ qs) s" and ok: "process_new_ok E nm s"
    and Q: "jl_dense Q" "jl_dense sets" "map Some (jl_vals sets) = map (\<lambda>q. Option.bind (rout_heap s q) rt_set) (jl_vals Q)"
    and x: "iface_heap s ip = Some x" "if_name x = Some nm"
  shows "proc_inv_with K L qs (process_linked Q sets ip x nm s)" (is "proc_inv_with K L _ ?s'")
proof (rule proc_invI)
  let ?pc = "\<lparr>pc_in_iface = Some ip, pc_rout_JQ = Q, pc_rout_set_JQ = sets\<rparr>"
  let ?x = "x\<lparr>if_handler := Some process_exec_ptr, if_context := sets, if_refcnt := refcnt_take (if_refcnt x)\<rparr>"
  have fresh: "process_heap s (next_addr s) = None" using objects_fresh(2)[OF proc_invD(2)[OF P]] by simp
  have bump: "refs_to uses (process_heap ?s') q = refs_to uses (process_heap s) q + uses ?pc q" for uses q
    using refs_to_fresh[OF objects_okD(2)[OF proc_invD(2)[OF P]] fresh, of uses ?pc q] by (simp add: process_linked_def)
  have same: "rout_heap ?s' = rout_heap s" "rule_heap ?s' = rule_heap s" "rout_set_heap ?s' = rout_set_heap s"
    by (simp_all add: process_linked_def)
  have "base_inv K (s\<lparr>iface_heap := (iface_heap s)(ip \<mapsto> ?x)\<rparr>)"
    by (rule base_iface_update[OF proc_invD(1)[OF P] x(1)]) simp_all
  then show "base_inv K ?s'" by (rule base_cong) (simp_all add: process_linked_def)
  show "objects_ok ?s'"
    by (rule process_linked_objects[OF proc_invD(2)[OF P] x process_linked_ok[OF E P ok Q x]])
  show "handlers_ok ?s'" by (rule process_linked_handlers[OF proc_invD(3)[OF P] fresh])
  show "rule_counts ?s'" using proc_invD(4)[OF P] by (simp add: rule_counts_def same)
  show "sets_held ?s'" using proc_invD(6)[OF P] by (simp add: sets_held_def same)
  have "unat (refcnt_take (if_refcnt x)) = unat (if_refcnt x) + 1"
    using iface_count_bound[OF P x(1)] by (rule refcnt_balanced(1))
  then show "iface_counts ?s'"
    by (intro iface_counts_upd[OF proc_invD(5)[OF P], of ?s' ip ?x])
      (simp_all add: same bump process_in_uses_def iface_countsD[OF proc_invD(5)[OF P] x(1)],
       simp_all add: process_linked_def)
  show "routs_held L qs ?s'"
    unfolding routs_held_def same bump
    using routs_heldD[OF proc_invD(7)[OF P]] by (simp add: process_rout_uses_def ac_simps)
qed

text \<open>A routs queue under construction consists of live routs.\<close>

lemma queued_rout:
  fixes s :: "'a process_state_scheme"
  assumes P: "proc_inv_with K L qs s" and q: "q \<in> set qs"
  obtains rt sp where "rout_heap s q = Some rt" "rt_set rt = Some sp"
proof -
  have "refs_to process_rout_uses (process_heap s) q + count_list qs q + of_bool (q \<in> L) = of_bool (rout_heap s q \<noteq> None)"
    using proc_invD(7)[OF P] unfolding routs_held_def by (rule spec)
  moreover have "0 < count_list qs q" using q by (simp add: count_list_pos)
  ultimately obtain rt where rt: "rout_heap s q = Some rt" by (cases "rout_heap s q"; simp)
  with objects_okD(3)[OF proc_invD(2)[OF P] rt] that show ?thesis by (auto simp: rout_ok_def)
qed

text \<open>A failure of \<open>process_new\<close>: the routs it was given are freed.\<close>

lemma process_new_undo:
  fixes s :: "'a process_state_scheme"
  assumes P: "proc_inv_with K L (jl_vals Q @ qs) s" and d: "jl_dense Q"
  obtains s' where "process_die (Some (next_addr s)) (s\<lparr>next_addr := next_addr s + 1,
      process_heap := (process_heap s)(next_addr s \<mapsto> \<lparr>pc_in_iface = None, pc_rout_JQ = Q, pc_rout_set_JQ = sets\<rparr>)\<rparr>)
      = Some (None, s')" "proc_inv_with K L qs s'" "routs_frame s s'"
proof -
  let ?p = "next_addr s"
  let ?s1 = "s\<lparr>next_addr := ?p + 1\<rparr>"
  let ?s2 = "?s1\<lparr>process_heap := (process_heap s)(?p \<mapsto> \<lparr>pc_in_iface = None, pc_rout_JQ = Q, pc_rout_set_JQ = sets\<rparr>)\<rparr>"
  have P1: "proc_inv_with K L (jl_vals Q @ qs) ?s1" using proc_inv_next[OF P] by simp
  have "process_heap s ?p = None" using objects_fresh(2)[OF proc_invD(2)[OF P]] by simp
  then have undo: "?s2\<lparr>process_heap := (process_heap ?s2)(?p := None)\<rparr> = ?s1" by (simp add: fun_upd_back)
  obtain t where t: "Option.bind (loop_vals (\<lambda>q. rout_free (Some q)) (jl_vals Q) ?s2)
      (\<lambda>t. Some (t\<lparr>process_heap := (process_heap t)(?p := None)\<rparr>)) = Some t"
    "proc_inv_with K L qs t" "routs_frame ?s1 t"
    using free_routs_then[of K L "jl_vals Q" qs ?s2 ?p, unfolded undo, OF P1] .
  then show ?thesis
    by (intro that[of t]) (use routs_frame_trans[OF routs_frame_next t(3)] in
      \<open>simp_all add: process_die_def process_free_def process_release_refs_eq[OF d]\<close>)
qed

lemma process_new_spec:
  fixes s :: "'a process_state_scheme"
  assumes E: "env_ok E" and P: "proc_inv_with K L (jl_vals Q @ qs) s" and d: "jl_dense Q"
  obtains (made) ip x sets where "process_new_ok E nm s" "iface_heap s ip = Some x" "if_name x = Some nm"
      "process_new E (Some nm) Q s = Some (Some (next_addr s), process_linked Q sets ip x nm s)"
      "proc_inv_with K L qs (process_linked Q sets ip x nm s)"
  | (refused) s' where "\<not> process_new_ok E nm s" "process_new E (Some nm) Q s = Some (None, s')"
      "proc_inv_with K L qs s'" "routs_frame s s'"
proof -
  let ?p = "next_addr s"
  let ?body = "\<lambda>q. rout_free (Some q)"
  let ?s1 = "s\<lparr>next_addr := ?p + 1\<rparr>"
  have P1: "proc_inv_with K L (jl_vals Q @ qs) ?s1" using proc_inv_next[OF P] by simp
  show ?thesis
  proof (cases "calloc_ok E ?p")
    case False
    obtain s' where s': "loop_vals ?body (jl_vals Q) ?s1 = Some s'" "proc_inv_with K L qs s'" "routs_frame ?s1 s'"
      using free_routs[OF P1] .
    have "process_new E (Some nm) Q s = Some (None, s')"
      using False s'(1) by (simp add: process_new_def calloc_def process_release_refs_eq[OF d] process_die_def process_free_def)
    with refused[OF _ this s'(2)] False routs_frame_trans[OF routs_frame_next s'(3)] show ?thesis
      by (simp add: process_new_ok_def)
  next
    case mem: True
    obtain sets where sets: "jl_loop (\<lambda>val q. do { a \<leftarrow> val; rt \<leftarrow> rout_heap ?s1 a; Some (snd (jl_enqueue q (rt_set rt))) }) Q [] = Some sets"
      "jl_dense sets" "map Some (jl_vals sets) = map (\<lambda>q. Option.bind (rout_heap ?s1 q) rt_set) (jl_vals Q)"
    proof (rule sets_queue[OF _ d])
      fix q assume "q \<in> set (jl_vals Q)"
      then have "q \<in> set (jl_vals Q @ qs)" by simp
      then obtain rt sp where "rout_heap s q = Some rt" "rt_set rt = Some sp" using queued_rout[OF P] by blast
      then show "\<exists>rt sp. rout_heap ?s1 q = Some rt \<and> rt_set rt = Some sp" by simp
    qed
    note run = process_new_def calloc_def mem sets(1)[simplified] Let_def
    show ?thesis
    proof (cases "process_new_ok E nm s")
      case False
      obtain s' where s': "process_die (Some ?p) (?s1\<lparr>process_heap := (process_heap s)(?p \<mapsto>
            \<lparr>pc_in_iface = None, pc_rout_JQ = Q, pc_rout_set_JQ = sets\<rparr>)\<rparr>) = Some (None, s')"
        "proc_inv_with K L qs s'" "routs_frame s s'" by (rule process_new_undo[OF P d])
      have "process_new E (Some nm) Q s = Some (None, s')"
        using False mem s'(1) by (cases "js_get (process_JS s) nm") (simp_all add: run process_new_ok_def iface_get_def)
      with refused[OF False _ s'(2,3)] show ?thesis by simp
    next
      case True
      then have free: "js_get (process_JS s) nm = None" by (simp add: process_new_ok_def)
      from True obtain ip where ip: "js_get (iface_JS s) nm = Some ip" by (auto simp: process_new_ok_def)
      obtain x where x: "iface_heap s ip = Some x" "if_name x = Some nm"
        using ifaces_inv_get[OF base_invD(2)[OF proc_invD(1)[OF P]] ip] .
      have "if_handler x = None" by (rule no_process_no_handler(1)[OF P x free])
      then have "process_new E (Some nm) Q s = Some (Some ?p, process_linked Q sets ip x nm s)"
        using free ip x
        by (simp add: run iface_get_def iface_put_def iface_handler_register_def process_linked_def, cases x, cases s, simp)
      moreover have "proc_inv_with K L qs (process_linked Q sets ip x nm s)"
        using process_linked_inv[OF E P True d sets(2) _ x] sets(3) by simp
      ultimately show ?thesis using made[OF True x] by blast
    qed
  qed
qed

subsection \<open>Printing\<close>

lemma rout_emit_total:
  fixes s :: "'a process_state_scheme"
  assumes P: "proc_inv_with K L qs s" and q: "rout_heap s q = Some rt"
  shows "\<exists>items'. rout_emit q s items = Some items'"
proof -
  from objects_okD(3)[OF proc_invD(2)[OF P] q] obtain rp ip sp rule x rst where
    r: "rt = \<lparr>rt_rule = Some rp, rt_output = Some ip, rt_set = Some sp\<rparr>" "rule_heap s rp = Some rule"
    "iface_heap s ip = Some x" "rout_set_heap s sp = Some rst" unfolding rout_ok_def by blast
  note B = base_invD[OF proc_invD(1)[OF P]]
  obtain rn where "rl_name rule = Some rn" using rule_invD(4)[OF B(1) r(2)] by (auto simp: rule_ok_def)
  moreover obtain nm where "if_name x = Some nm" using ifaces_invD(3)[OF B(2) r(3)] by (auto simp: iface_ok_def)
  ultimately show ?thesis using q r by (simp add: rout_emit_def)
qed

lemma process_emit_total:
  fixes s :: "'a process_state_scheme"
  assumes P: "proc_inv_with K L qs s" and p: "process_heap s p = Some pc"
  shows "\<exists>items'. process_emit p s (Some items) = Some (Some items')"
proof -
  note O = objects_okD[OF proc_invD(2)[OF P]]
  from O(5)[OF p] obtain ip x nm where ip: "pc_in_iface pc = Some ip" "iface_heap s ip = Some x" "if_name x = Some nm"
    "jl_dense (pc_rout_JQ pc)" unfolding process_ok_def by blast
  have "\<exists>nodes. loop_vals (\<lambda>a acc. rout_emit a s acc) (jl_vals (pc_rout_JQ pc)) [] = Some nodes \<and> True"
  proof (rule loop_vals_total)
    fix q acc assume "q \<in> set (jl_vals (pc_rout_JQ pc))"
    then obtain rt where rt: "rout_heap s q = Some rt"
      using process_routs_not_held(3)[OF proc_invD(7)[OF P] O(2) p] by blast
    show "\<exists>acc'. rout_emit q s acc = Some acc' \<and> True" using rout_emit_total[OF P rt] by blast
  qed simp
  then obtain nodes where "jl_loop (\<lambda>val acc. do { a \<leftarrow> val; rout_emit a s acc }) (pc_rout_JQ pc) [] = Some nodes"
    by (auto simp: jl_loop_vals[OF jl_dense_no_None[OF ip(4)]])
  with p ip show ?thesis by (simp add: process_emit_def)
qed

lemma process_emit_all_total:
  fixes s :: "'a process_state_scheme"
  assumes P: "proc_inv_with K L qs s"
  shows "\<exists>items'. process_emit_all s (Some items) = Some (Some items')"
proof -
  note O = objects_okD[OF proc_invD(2)[OF P]]
  have "\<exists>out. loop_vals (\<lambda>v out. process_emit v s out) (jl_vals (process_JS s)) (Some items) = Some out \<and> out \<noteq> None"
  proof (rule loop_vals_total)
    fix p out assume p: "p \<in> set (jl_vals (process_JS s))" and out: "out \<noteq> (None :: yout)"
    obtain n where "js_get (process_JS s) n = Some p" using js_vals_get[OF O(7) p] .
    then obtain pc where "process_heap s p = Some pc" by (rule reg.named_get[OF O(6)])
    from process_emit_total[OF P this] out show "\<exists>out'. process_emit p s out = Some out' \<and> out' \<noteq> None" by (cases out) auto
  qed simp
  then show ?thesis by (auto simp: process_emit_all_def js_loop_const[OF O(7)])
qed

subsection \<open>Parsing\<close>

lemma proc_inv_perm:
  assumes P: "proc_inv_with K L qs s" and "\<And>q. count_list qs' q = count_list qs q"
  shows "proc_inv_with K L qs' s"
proof (rule proc_invI)
  show "routs_held L qs' s" using proc_invD(7)[OF P] assms(2) by (simp add: routs_held_def)
qed (use proc_invD[OF P] in simp_all)

text \<open>The routs of a queue that nobody keeps are lost.\<close>

lemma proc_inv_lose:
  assumes P: "proc_inv_with K L qs s"
  shows "proc_inv_with K (L \<union> set qs) [] s"
proof (rule proc_invI)
  show "routs_held (L \<union> set qs) [] s"
    unfolding routs_held_def
  proof
    fix q
    have "refs_to process_rout_uses (process_heap s) q + count_list qs q + of_bool (q \<in> L) = of_bool (rout_heap s q \<noteq> None)"
      using proc_invD(7)[OF P] unfolding routs_held_def by (rule spec)
    moreover have "0 < count_list qs q \<longleftrightarrow> q \<in> set qs" by (rule count_list_pos)
    ultimately show "refs_to process_rout_uses (process_heap s) q + count_list [] q + of_bool (q \<in> L \<union> set qs) =
        of_bool (rout_heap s q \<noteq> None)"
      by (cases "rout_heap s q"; cases "q \<in> L"; cases "q \<in> set qs"; simp)
  qed
qed (use proc_invD[OF P] in simp_all)

text \<open>What holds while the pairs are read: the queue is well-formed, its routs are nobody else's.\<close>

definition queue_ok :: "addr set \<Rightarrow> addr set \<Rightarrow> 'a process_state_scheme \<Rightarrow> addr judyL \<times> 'a process_state_scheme \<Rightarrow> bool" where
  "queue_ok K L s0 qs \<longleftrightarrow> jl_dense (fst qs) \<and> proc_inv_with K L (jl_vals (fst qs)) (snd qs) \<and> routs_frame s0 (snd qs)"

lemma process_parse_rout_total:
  fixes s0 :: "'a process_state_scheme"
  assumes E: "env_ok E" and ok: "queue_ok K L s0 qs"
  shows "\<exists>died e' qs'. process_parse_rout E kn v e qs = Some (died, e', qs') \<and> queue_ok K L s0 qs'"
proof -
  obtain q s where qs: "qs = (q, s)" by (cases qs)
  from ok have d: "jl_dense q" and P: "proc_inv_with K L (jl_vals q) s" and F: "routs_frame s0 s"
    by (simp_all add: queue_ok_def qs)
  have step: ?thesis if run: "rout_new E (Some kn) (y_txt v) s = Some (r, s')"
    and P': "proc_inv_with K L (case r of None \<Rightarrow> jl_vals q | Some p \<Rightarrow> p # jl_vals q) s'" and F': "routs_frame s s'" for r s'
  proof -
    obtain rc q' where q': "jl_enqueue q r = (rc, q')" by (cases "jl_enqueue q r")
    have q1: "jl_dense q'" "jl_vals q' = jl_vals q @ (case r of None \<Rightarrow> [] | Some p \<Rightarrow> [p])"
      using jl_enqueue_opt[OF d, of r] q' by simp_all
    have "proc_inv_with K L (jl_vals q') s'"
      by (rule proc_inv_perm[OF P']) (simp add: q1(2) split: option.split)
    with q1(1) routs_frame_trans[OF F F'] have "queue_ok K L s0 (q', s')" by (simp add: queue_ok_def)
    with run q' show ?thesis by (simp add: process_parse_rout_def qs exI[of _ False])
  qed
  show ?thesis
  proof (cases "y_txt v")
    case None
    have "rout_new E (Some kn) (y_txt v) s = Some (None, s)" using None by (simp add: rout_new_def rout_die_def rout_free_def)
    from step[OF this] P show ?thesis by simp
  next
    case (Some on)
    show ?thesis
    proof (rule rout_new_run[OF P, of E kn on])
      fix rp ip rule x
      assume ok: "rout_new_ok E kn on s" "rule_heap s rp = Some rule" "iface_heap s ip = Some x"
        and run: "rout_new E (Some kn) (Some on) s = Some (Some (next_addr s), rout_added rp rule ip x s)"
      show ?thesis
        by (rule step[OF run[folded Some]])
          (use rout_added_inv[OF E P ok] routs_frame_added[OF ok(2,3)] in simp_all)
    next
      fix n assume n: "next_addr s \<le> n"
        and run: "rout_new E (Some kn) (Some on) s = Some (None, s\<lparr>next_addr := n\<rparr>)"
      show ?thesis
        by (rule step[OF run[folded Some]]) (use proc_inv_next[OF P n] routs_frame_next[OF n] in simp_all)
    qed
  qed
qed

lemma process_parse_pair_total:
  fixes s0 :: "'a process_state_scheme"
  assumes E: "env_ok E" and v: "ynode_ok v" and ok: "queue_ok K L s0 (snd ls)"
  shows "\<exists>died e' ls'. process_parse_pair E kn v e ls = Some (died, e', ls') \<and> queue_ok K L s0 (snd ls')"
proof -
  obtain nm qs where ls: "ls = (nm, qs)" by (cases ls)
  have item: "\<exists>died e' qs'. process_parse_item E w e qs = Some (died, e', qs') \<and> queue_ok K L s0 qs'"
    if "ynode_ok w" "queue_ok K L s0 qs" for w e and qs :: "addr judyL \<times> 'a process_state_scheme"
  proof (cases w)
    case (YMap ps)
    have "\<exists>died e' qs'. y_for_map (process_parse_rout E) ps e qs = Some (died, e', qs') \<and> queue_ok K L s0 qs'"
      by (rule y_for_map_total[where P = "queue_ok K L s0"]) (use that YMap process_parse_rout_total[OF E] in simp_all)
    with YMap show ?thesis by (simp add: process_parse_item_def)
  qed (use that in \<open>simp_all add: process_parse_item_def exI[of _ False]\<close>)
  show ?thesis
  proof (cases v)
    case (YSeq vs)
    have "\<exists>died e' qs'. y_for_seq (process_parse_item E) vs e qs = Some (died, e', qs') \<and> queue_ok K L s0 qs'"
      by (rule y_for_seq_total[where P = "queue_ok K L s0"]) (use YSeq v ok ls item in simp_all)
    with YSeq ok show ?thesis by (cases qs) (auto simp: process_parse_pair_def ls)
  qed (use ok in \<open>cases qs; auto simp: process_parse_pair_def ls\<close>)+
qed

text \<open>What a command on processes changes: at most the one process that it names.\<close>

definition process_effect :: "parse_mode \<Rightarrow> 'a process_state_scheme \<Rightarrow> 'a process_state_scheme \<Rightarrow> bool" where
  "process_effect mode s s' \<longleftrightarrow> op_heap s' = op_heap s \<and> field_heap s' = field_heap s \<and> field_JS s' = field_JS s \<and>
     rule_JS s' = rule_JS s \<and> iface_JS s' = iface_JS s \<and> io_log s' = io_log s \<and> next_addr s \<le> next_addr s' \<and>
     process_state.more s' = process_state.more s \<and>
     (process_heap s' = process_heap s \<or>
        (case mode of
           PARSE_ADD \<Rightarrow> \<exists>p pc. process_heap s p = None \<and> process_heap s' = (process_heap s)(p \<mapsto> pc)
         | PARSE_DEL \<Rightarrow> \<exists>p. process_heap s' = (process_heap s)(p := None)
         | _ \<Rightarrow> False))"

lemma process_effect_frame: "routs_frame s s' \<Longrightarrow> process_effect mode s s'"
  by (simp add: process_effect_def routs_frame_sel)

lemma process_effect_after:
  assumes "routs_frame s t" and "process_effect mode t u"
  shows "process_effect mode s u"
  using routs_frame_sel[OF assms(1)] assms(2) unfolding process_effect_def by (cases mode; simp add: order_trans)

text \<open>
  The documents that lose no rout: no value is a mapping, and only a process to be added has
  sequences.
\<close>

definition process_doc_plain :: "parse_mode \<Rightarrow> (ynode \<times> ynode) list \<Rightarrow> bool" where
  "process_doc_plain mode ps \<longleftrightarrow>
     (\<forall>(k, v) \<in> set ps. case v of YMap _ \<Rightarrow> False | YSeq _ \<Rightarrow> mode = PARSE_ADD | _ \<Rightarrow> True)"

lemma process_pairs_scalar:
  assumes "y_for_map (process_parse_pair E) ps e (nm, qs) = Some (died, e', nm', qs')"
    and "\<forall>(k, v) \<in> set ps. case v of YMap _ \<Rightarrow> False | YSeq _ \<Rightarrow> False | _ \<Rightarrow> True"
  shows "qs' = qs"
  using assms
proof (induction ps arbitrary: e nm)
  case (Cons p ps)
  obtain key val where p: "p = (key, val)" by (cases p)
  have IH: "qs' = qs" if "y_for_map (process_parse_pair E) ps e1 (nm1, qs) = Some (died, e', nm', qs')" for e1 nm1
    using Cons.IH[OF that] Cons.prems(2) by simp
  obtain kn where kn: "scalar_value key = Some kn" using Cons.prems(1) p by (cases "scalar_value key") simp_all
  show ?case
  proof (cases val)
    case (YScalar t)
    have "\<exists>e1 nm1. process_parse_pair E kn val e (nm, qs) = Some (False, e1, nm1, qs)"
      using YScalar by (simp add: process_parse_pair_def)
    with Cons.prems(1) p kn YScalar show ?thesis by (auto dest: IH)
  next
    case YNone
    with Cons.prems(1) p kn show ?thesis by (auto dest: IH)
  qed (use Cons.prems(2) p in auto)
qed simp

lemma process_pairs_live:
  assumes "y_for_map (process_parse_pair E) ps e ls = Some (died, e', ls')" and "process_doc_plain mode ps"
  shows "\<not> died"
proof (rule y_for_map_lives[OF assms(1)])
  fix key v k e ls d e' ls'
  assume kv: "(key, v) \<in> set ps" and some: "v \<noteq> YNone" and run: "process_parse_pair E k v e ls = Some (d, e', ls')"
  have "case v of YMap _ \<Rightarrow> False | _ \<Rightarrow> True" using assms(2) kv by (auto simp: process_doc_plain_def split: ynode.splits)
  moreover have "\<not> d" if "v = YSeq items" for items
  proof (cases "k = ''rules'' \<or> k = ''r''")
    case True
    obtain nm qs where ls: "ls = (nm, qs)" by (cases ls)
    from True run that obtain d1 e1 q1 s1 where seq: "y_for_seq (process_parse_item E) items e qs = Some (d1, e1, q1, s1)" "d = d1"
      by (auto simp: process_parse_pair_def ls bind_eq_Some_conv split: prod.splits)
    have "\<not> d1"
    proof (rule y_for_seq_lives[OF seq(1)])
      fix w e qs d e' qs' assume w: "process_parse_item E w e qs = Some (d, e', qs')"
      show "\<not> d"
      proof (cases w)
        case (YMap m)
        show ?thesis
        proof (rule y_for_map_lives)
          show "y_for_map (process_parse_rout E) m e qs = Some (d, e', qs')" using w YMap by (simp add: process_parse_item_def)
        qed (auto simp: process_parse_rout_def bind_eq_Some_conv case_prod_unfold Let_def)
      qed (use w in \<open>auto simp: process_parse_item_def\<close>)
    qed
    with seq(2) show ?thesis by simp
  next
    case False
    with run that show ?thesis by (auto simp: process_parse_pair_def split: prod.splits)
  qed
  ultimately show "\<not> d" using run some by (cases v) (auto simp: process_parse_pair_def split: prod.splits if_splits)
qed

lemma process_add_spec:
  fixes s :: "'a process_state_scheme"
  assumes E: "env_ok E" and P: "proc_inv_with K L (jl_vals q) s" and d: "jl_dense q"
  obtains e' items' s' where "(do { (pp, s) \<leftarrow> process_new E (Some nm) q s;
      case pp of None \<Rightarrow> Some (e + 1, Some items, s)
      | Some p \<Rightarrow> do { out \<leftarrow> process_emit p s (Some items); Some (e, out, s) } }) = Some (e', Some items', s')"
    "proc_inv_with K L [] s'" "process_effect PARSE_ADD s s'"
proof -
  have P': "proc_inv_with K L (jl_vals q @ []) s" using P by simp
  show ?thesis
  proof (rule process_new_spec[OF E P' d, of nm])
    fix ip x sets
    let ?s' = "process_linked q sets ip x nm s"
    assume new: "process_new E (Some nm) q s = Some (Some (next_addr s), ?s')" and P2: "proc_inv_with K L [] ?s'"
    obtain items' where em: "process_emit (next_addr s) ?s' (Some items) = Some (Some items')"
      using process_emit_total[OF P2, of "next_addr s"] by (auto simp: process_linked_def)
    have "process_heap s (next_addr s) = None" using objects_fresh(2)[OF proc_invD(2)[OF P]] by simp
    then have "process_effect PARSE_ADD s ?s'" by (auto simp: process_effect_def process_linked_def)
    from that[OF _ P2 this] new em show ?thesis by simp
  next
    fix s2 assume "process_new E (Some nm) q s = Some (None, s2)" and P2: "proc_inv_with K L [] s2" and F: "routs_frame s s2"
    with that[OF _ P2 process_effect_frame[OF F]] show ?thesis by simp
  qed
qed

lemma process_del_spec:
  fixes s :: "'a process_state_scheme"
  assumes P: "proc_inv_with K L [] s"
  obtains e' items' s' where "(case js_get (process_JS s) nm of
        None \<Rightarrow> Some (e + 1, Some items, s)
      | Some p \<Rightarrow> do { out \<leftarrow> process_emit p s (Some items); s \<leftarrow> process_free (Some p) s; Some (e, out, s) }) =
      Some (e', Some items', s')"
    "proc_inv_with K L [] s'" "process_effect PARSE_DEL s s'"
proof (cases "js_get (process_JS s) nm")
  case None
  with that[OF _ P process_effect_frame[OF routs_frame_refl]] show ?thesis by simp
next
  case (Some p)
  obtain pc where pc: "process_heap s p = Some pc" "process_name s pc = Some nm"
    using reg.named_get[OF objects_okD(6)[OF proc_invD(2)[OF P]] Some] .
  obtain items' where em: "process_emit p s (Some items) = Some (Some items')" using process_emit_total[OF P pc(1)] by blast
  obtain ip x s2 where s2: "process_free (Some p) s = Some s2" "proc_inv_with K L [] s2"
    "routs_frame (process_unlinked p ip x nm s) s2" using process_free_spec[OF P pc] by blast
  have "process_effect PARSE_DEL s s2"
    using routs_frame_sel[OF s2(3)] by (auto simp: process_effect_def process_unlinked_def)
  from that[OF _ s2(2) this] Some em s2(1) show ?thesis by simp
qed

lemma process_prn_spec:
  fixes s :: "'a process_state_scheme"
  assumes P: "proc_inv_with K L qs s"
  shows "\<exists>items'. (if nm = '''' then do { out \<leftarrow> process_emit_all s (Some items); Some (e, out, s) }
      else (case js_get (process_JS s) nm of
              None \<Rightarrow> Some (e, Some items, s)
            | Some p \<Rightarrow> do { out \<leftarrow> process_emit p s (Some items); Some (e, out, s) })) = Some (e, Some items', s)"
proof (cases "nm = ''''")
  case True
  with process_emit_all_total[OF P, of items] show ?thesis by auto
next
  case False
  show ?thesis
  proof (cases "js_get (process_JS s) nm")
    case (Some p)
    obtain pc where "process_heap s p = Some pc"
      using reg.named_get[OF objects_okD(6)[OF proc_invD(2)[OF P]] Some] by blast
    from process_emit_total[OF P this, of items] Some False show ?thesis by auto
  qed (use False in simp)
qed

lemma process_parse_spec:
  fixes s :: "'a process_state_scheme"
  assumes E: "env_ok E" and P: "proc_inv_with K L [] s" and ps: "ymap_ok ps"
  obtains e items' s' L' where "process_parse E mode ps (Some items) s = Some (e, Some items', s')"
    "proc_inv_with K L' [] s'" "process_effect mode s s'" "process_doc_plain mode ps \<Longrightarrow> L' = L"
proof -
  have Q0: "queue_ok K L s (snd ('''' :: string, [] :: addr judyL, s))"
    using P by (simp add: queue_ok_def jl_dense_def jl_vals_def map_filter_simps)
  obtain died e nm q s1 where l: "y_for_map (process_parse_pair E) ps 0 ('''', [], s) = Some (died, e, nm, q, s1)"
    and Q: "queue_ok K L s (q, s1)"
  proof -
    have "\<exists>died e ls. y_for_map (process_parse_pair E) ps 0 ('''', [], s) = Some (died, e, ls) \<and> queue_ok K L s (snd ls)"
      by (rule y_for_map_total[where P = "\<lambda>ls. queue_ok K L s (snd ls)", OF ps Q0]) (rule process_parse_pair_total[OF E])
    with that show ?thesis by (auto simp: split_paired_all)
  qed
  from Q have d: "jl_dense q" and P1: "proc_inv_with K L (jl_vals q) s1" and F: "routs_frame s s1"
    by (simp_all add: queue_ok_def)
  let ?L = "L \<union> set (jl_vals q)"
  have lost: "proc_inv_with K ?L [] s1" using proc_inv_lose[OF P1] .
  have keep: "?L = L" if plain: "process_doc_plain mode ps" and add: "mode \<noteq> PARSE_ADD"
  proof -
    have "(q, s1) = ([], s)"
      by (rule process_pairs_scalar[OF l]) (use plain add in \<open>fastforce simp: process_doc_plain_def split: ynode.splits\<close>)
    then show ?thesis by (simp add: jl_vals_def map_filter_simps)
  qed
  have live: "\<not> died" if "process_doc_plain mode ps" using process_pairs_live[OF l that] .
  note F' = process_effect_frame[OF F, of mode] and after = process_effect_after[OF F]
  note run = l process_parse_def
  consider (died) "died" | (add) "\<not> died" "mode = PARSE_ADD" | (del) "\<not> died" "mode = PARSE_DEL"
    | (prn) "\<not> died" "mode = PARSE_PRN" | (inval) "\<not> died" "mode = PARSE_INVALID" by (cases mode) auto
  then show ?thesis
  proof cases
    case died
    then have "\<not> process_doc_plain mode ps" using live by blast
    with that[OF _ lost F'] died show ?thesis by (simp add: run)
  next
    case add
    show ?thesis
      by (rule process_add_spec[OF E P1 d, where nm = nm and e = e and items = items], rule that)
        (use add after in \<open>simp_all add: run\<close>)
  next
    case del
    show ?thesis
      by (rule process_del_spec[OF lost, where nm = nm and e = e and items = items], rule that[where L' = ?L])
        (use del after keep in \<open>simp_all add: run\<close>)
  next
    case prn
    with process_prn_spec[OF P1, of nm items e] that[OF _ lost F'] keep show ?thesis by (auto simp: run)
  next
    case inval
    with that[OF _ lost F'] keep show ?thesis by (simp add: run)
  qed
qed

subsection \<open>Freeing everything\<close>

definition no_processes :: "'a process_state_scheme \<Rightarrow> bool" where
  "no_processes s \<longleftrightarrow> process_heap s = Map.empty \<and> rout_heap s = Map.empty \<and> rout_set_heap s = Map.empty \<and>
     (\<forall>p rule. rule_heap s p = Some rule \<longrightarrow> rl_refcnt rule = 0) \<and>
     (\<forall>p x. iface_heap s p = Some x \<longrightarrow> if_refcnt x = 0 \<and> if_handler x = None)"

lemma no_processesI:
  fixes s :: "'a process_state_scheme"
  assumes P: "proc_inv_with K {} [] s" and js: "process_JS s = []"
  shows "no_processes s"
proof -
  note O = objects_okD[OF proc_invD(2)[OF P]]
  have pcs: "process_heap s = Map.empty"
  proof
    fix p
    show "process_heap s p = None"
      using O(5)[of p] js by (cases "process_heap s p") (auto simp: process_ok_def js_get_def)
  qed
  have routs: "rout_heap s = Map.empty"
  proof
    fix q
    show "rout_heap s q = None" using proc_invD(7)[OF P] pcs by (cases "rout_heap s q") (auto simp: routs_held_def)
  qed
  have "rout_set_heap s = Map.empty"
  proof
    fix q
    show "rout_set_heap s q = None" using proc_invD(6)[OF P] routs by (cases "rout_set_heap s q") (auto simp: sets_held_def)
  qed
  moreover have "rl_refcnt rule = 0" if "rule_heap s p = Some rule" for p rule
    using proc_invD(4)[OF P] routs that by (simp add: rule_counts_def unat_eq_zero)
  moreover have "if_refcnt x = 0" "if_handler x = None" if "iface_heap s p = Some x" for p x
    using proc_invD(3,5)[OF P] routs pcs that by (auto simp: handlers_ok_def iface_counts_def unat_eq_zero)
  ultimately show ?thesis using pcs routs by (auto simp: no_processes_def)
qed

lemma process_free_all_spec:
  fixes s :: "'a process_state_scheme"
  assumes P: "proc_inv_with K {} [] s"
  obtains s' where "process_free_all s = Some s'" "proc_inv_with K {} [] s'" "no_processes s'" "io_log s' = io_log s"
    "op_heap s' = op_heap s" "field_heap s' = field_heap s" "iface_JS s' = iface_JS s" "rule_JS s' = rule_JS s"
    "process_JS s' = []" "process_state.more s' = process_state.more s" "next_addr s \<le> next_addr s'"
proof -
  let ?I = "\<lambda>t. proc_inv_with K {} [] t \<and> io_log t = io_log s \<and> op_heap t = op_heap s \<and> field_heap t = field_heap s \<and>
    iface_JS t = iface_JS s \<and> rule_JS t = rule_JS s \<and> process_state.more t = process_state.more s \<and> next_addr s \<le> next_addr t"
  have "\<exists>s'. js_loop process_JS process_free s = Some s' \<and> ?I s' \<and> process_JS s' = []"
  proof (rule js_loop_frees)
    fix k v and t :: "'a process_state_scheme" assume I: "?I t" and get: "map_of (process_JS t) k = Some v"
    then have T: "proc_inv_with K {} [] t" by blast
    note O = objects_okD[OF proc_invD(2)[OF T]]
    from get map_of_js_get[OF O(7), of k] obtain p where p: "v = Some p" "js_get (process_JS t) k = Some p"
      by (cases "js_get (process_JS t) k") auto
    obtain pc where pc: "process_heap t p = Some pc" "process_name t pc = Some k" using reg.named_get[OF O(6) p(2)] .
    obtain ip x t' where t': "process_free (Some p) t = Some t'" "proc_inv_with K {} [] t'"
      "routs_frame (process_unlinked p ip x k t) t'" using process_free_spec[OF T pc] by blast
    have "?I t'" "process_JS t' = js_delete (process_JS t) k"
      using t'(2) I routs_frame_sel[OF t'(3)] by (simp_all add: process_unlinked_def)
    with t'(1) p(1) show "\<exists>s'. process_free v t = Some s' \<and> ?I s' \<and> process_JS s' = judy_del (process_JS t) k"
      by (auto simp: js_delete_def)
  next
    show "judy_ok (process_JS t)" if "?I t" for t using that objects_okD(7) proc_invD(2) by blast
  qed (use P in simp)
  then obtain s' where s': "process_free_all s = Some s'" "?I s'" "process_JS s' = []"
    unfolding process_free_all_def by blast
  with that no_processesI[of K s'] show ?thesis by blast
qed

subsection \<open>What this gives\<close>

text \<open>Nothing that a process needs can be freed: its counter is not 0, and the code checks it.\<close>

lemma process_needs:
  fixes s :: "'a process_state_scheme"
  assumes P: "proc_inv_with K L qs s" and q: "rout_heap s q = Some rt"
  obtains rp ip rule x where "rt_rule rt = Some rp" "rule_heap s rp = Some rule" "rl_refcnt rule \<noteq> 0"
    "rt_output rt = Some ip" "iface_heap s ip = Some x" "if_refcnt x \<noteq> 0"
proof -
  note O = objects_okD[OF proc_invD(2)[OF P]]
  from O(3)[OF q] obtain rp ip sp rule x rst where
    r: "rt = \<lparr>rt_rule = Some rp, rt_output = Some ip, rt_set = Some sp\<rparr>" "rule_heap s rp = Some rule"
    "iface_heap s ip = Some x" "rout_set_heap s sp = Some rst" unfolding rout_ok_def by blast
  have "0 < refs_to rout_rule_uses (rout_heap s) rp" "0 < refs_to rout_out_uses (rout_heap s) ip"
    using refs_to_pos[OF O(1) q] r(1) by (simp_all add: rout_rule_uses_def rout_out_uses_def)
  moreover have "unat (rl_refcnt rule) = refs_to rout_rule_uses (rout_heap s) rp"
    "unat (if_refcnt x) = refs_to rout_out_uses (rout_heap s) ip + refs_to process_in_uses (process_heap s) ip"
    using proc_invD(4,5)[OF P] r(2,3) unfolding rule_counts_def iface_counts_def by blast+
  ultimately have "0 < unat (rl_refcnt rule)" "0 < unat (if_refcnt x)" by linarith+
  then have "rl_refcnt rule \<noteq> 0" "if_refcnt x \<noteq> 0" by auto
  with that r show ?thesis by simp
qed

text \<open>An example: a state with an interface and a rule, and the text of a process.\<close>

definition process_state1 :: process_state where
  "process_state1 = \<lparr>next_addr = 6, field_heap = field_heap op_state1, field_JS = field_JS op_state1,
     memref_heap = Map.empty, state_JS = [], op_heap = Map.empty, rule_heap = [3 \<mapsto> rule_of ''r'' [] []],
     rule_JS = [(''r'', Some 3)], iface_heap = [2 \<mapsto> iface_x1], iface_JS = [(''eth0'', Some 2)], io_log = [Io_socket 3],
     rout_set_heap = Map.empty, rout_heap = Map.empty, process_heap = Map.empty, process_JS = []\<rparr>"

lemma rule_inv_process_state1: "rule_inv_with {} [] process_state1"
proof (rule rule_invI)
  show "op_inv process_state1"
    by (rule op_inv_cong[OF op_inv_rule_state1]) (simp_all add: process_state1_def rule_state1_def)
  have "refs_to rule_uses [3 \<mapsto> rule_of ''r'' [] []] q = 0" for q
    using refs_to_fresh[of Map.empty 3 rule_uses "rule_of ''r'' [] []"]
    by (simp add: rule_uses_def rule_ops_def rule_of_def jl_vals_def map_filter_simps)
  then show "rules_hold {} (op_heap process_state1) (rule_heap process_state1) []"
    by (simp add: rules_hold_def process_state1_def)
qed (auto simp: process_state1_def rule_of_def registered_def rule_ok_def js_get_def judy_ok_def jl_dense_def MAXALLOC_def
    split: if_splits)

lemma proc_tight1: "proc_tight process_state1"
  unfolding proc_tight_def
proof (rule proc_invI)
  have "ifaces_inv process_state1"
    by (rule ifaces_invI)
      (auto simp: process_state1_def iface_x1_def iface_zero_def iface_ok_def registered_def judy_ok_def js_get_def
        fds_held_def MAXALLOC_def split: if_splits)
  then show "base_inv {} process_state1"
    using rule_inv_process_state1 by (simp add: base_inv_def ifaces_tracked_def) (simp add: process_state1_def)
qed (auto simp: process_state1_def objects_ok_def registered_def judy_ok_def js_get_def handlers_ok_def rule_counts_def
    iface_counts_def sets_held_def routs_held_def iface_x1_def iface_zero_def rule_of_def split: if_splits)

lemma proc_inv1: "proc_inv process_state1"
  using proc_tight1 by (auto simp: proc_inv_def proc_tight_def)

definition process_text1 :: "(ynode \<times> ynode) list" where
  "process_text1 = [(YScalar ''process'', YScalar ''eth0''),
     (YScalar ''rules'', YSeq [YMap [(YScalar ''r'', YScalar ''eth0'')]])]"

lemma process_text1_ok: "ymap_ok process_text1" "process_doc_plain PARSE_ADD process_text1"
  by (simp_all add: process_text1_def process_doc_plain_def)

text \<open>
  C4: the invariant of the whole configuration. Parsing a process, in any mode and for any
  document whose keys are scalars, returns without undefined behaviour and keeps it: the
  reference count of a rule is the number of routs to it, that of an interface the number of
  routs and processes, no rout is in two processes, each process is registered under the name of
  its interface and is its handler. At most the one process of the document is added or
  deleted; fields, operations, names and sockets stay as they are.
\<close>

theorem process_parse_correct:
  fixes s :: "'a process_state_scheme"
  assumes "env_ok E" and "proc_inv s" and "ymap_ok ps"
  shows "\<exists>e items' s'. process_parse E mode ps (Some items) s = Some (e, Some items', s') \<and>
    proc_inv s' \<and> process_effect mode s s'"
  using process_parse_spec[OF assms(1) _ assms(3), of _ _ s mode items] assms(2) unfolding proc_inv_def by metis

theorem process_parse_correct_witness:
  "\<exists>e items' s'. process_parse env0 PARSE_ADD process_text1 (Some []) process_state1 = Some (e, Some items', s') \<and> proc_inv s'"
  using process_parse_correct[OF env_ok_env0 proc_inv1 process_text1_ok(1), of PARSE_ADD "[]"] by blast

text \<open>
  C19: no rout is lost by a document that has rules only when it adds a process, and no mapping
  where a scalar or a sequence is expected: if every rout belongs to a process before, then
  afterwards, also when a rout or the whole process is refused.
\<close>

theorem process_parse_tight:
  fixes s :: "'a process_state_scheme"
  assumes "env_ok E" and "proc_tight s" and "ymap_ok ps" and "process_doc_plain mode ps"
  shows "\<exists>e items' s'. process_parse E mode ps (Some items) s = Some (e, Some items', s') \<and> proc_tight s'"
  using process_parse_spec[OF assms(1) _ assms(3), of "{}" "{}" s mode items] assms(2,4) unfolding proc_tight_def by metis

theorem process_parse_tight_witness:
  "\<exists>e items' s'. process_parse env0 PARSE_ADD process_text1 (Some []) process_state1 = Some (e, Some items', s') \<and> proc_tight s'"
  using process_parse_tight[OF env_ok_env0 proc_tight1 process_text1_ok, of "[]"] by blast

text \<open>The state with the process of the example.\<close>

lemma process_example:
  obtains items s' where "process_parse env0 PARSE_ADD process_text1 (Some []) process_state1 = Some (0, Some items, s')"
    "process_heap s' = [8 \<mapsto> \<lparr>pc_in_iface = Some 2, pc_rout_JQ = [(0, Some 6)], pc_rout_set_JQ = [(0, Some 7)]\<rparr>]"
    "rout_heap s' = [6 \<mapsto> \<lparr>rt_rule = Some 3, rt_output = Some 2, rt_set = Some 7\<rparr>]"
    "\<exists>x. iface_heap s' 2 = Some x \<and> if_fd x = 3 \<and> if_handler x = Some process_exec_ptr \<and> if_context x = [(0, Some 7)]"
    "op_heap s' = Map.empty" "io_log s' = [Io_socket 3]" "rule_heap s' = [3 \<mapsto> (rule_of ''r'' [] [])\<lparr>rl_refcnt := 1\<rparr>]"
    "rout_set_heap s' = [7 \<mapsto> \<lparr>rs_if_out = Some 2, rs_match = [], rs_write = [], rs_count_match = 0\<rparr>]"
  by (simp add: process_parse_def process_parse_pair_def process_parse_item_def process_parse_rout_def
      process_text1_def rout_new_def calloc_def process_state1_def rule_get_def js_get_def rout_put_def iface_get_def
      iface_put_def rout_set_new_def jl_enqueue_def jl_insert_def jxx_insert_def process_new_def
      iface_handler_register_def iface_x1_def iface_zero_def js_insert_def process_emit_def rout_emit_def rule_of_def
      refcnt_take_def)

lemma process_example_tight:
  assumes "process_parse env0 PARSE_ADD process_text1 (Some []) process_state1 = Some (e, Some items, s')"
  shows "proc_tight s'"
proof -
  have "proc_inv_with {} {} [] process_state1" using proc_tight1 by (simp add: proc_tight_def)
  then show ?thesis
    by (rule process_parse_spec[OF env_ok_env0 _ process_text1_ok(1), where mode = PARSE_ADD and items = "[]"])
      (use assms process_text1_ok(2) in \<open>simp add: proc_tight_def\<close>)
qed

text \<open>
  C18: when every rout belongs to a process (\<open>proc_tight\<close>), \<open>process_free_all\<close> frees every process, rout and set, and takes every reference to a rule or
  an interface back, so that \<open>rule_free_all\<close> and the closing of the interfaces, which come
  next, find nothing in use; every handler is cleared.
\<close>

theorem process_free_all_correct:
  fixes s :: "'a process_state_scheme"
  assumes "proc_tight s"
  shows "\<exists>s'. process_free_all s = Some s' \<and> no_processes s' \<and> proc_tight s'"
  using process_free_all_spec[of "{}" s] assms unfolding proc_tight_def by metis

theorem process_free_all_correct_witness:
  "\<exists>(s :: process_state) s'. process_heap s 8 \<noteq> None \<and> process_free_all s = Some s' \<and> no_processes s'"
proof (rule process_example)
  fix items and s' :: process_state
  assume run: "process_parse env0 PARSE_ADD process_text1 (Some []) process_state1 = Some (0, Some items, s')"
    and pc: "process_heap s' = [8 \<mapsto> \<lparr>pc_in_iface = Some 2, pc_rout_JQ = [(0, Some 6)], pc_rout_set_JQ = [(0, Some 7)]\<rparr>]"
  obtain t where "process_free_all s' = Some t" "no_processes t"
    using process_free_all_correct[OF process_example_tight[OF run]] by blast
  with pc show ?thesis by (intro exI[of _ s'] exI[of _ t]) simp
qed

text \<open>
  C34: two kinds of document lose routs. When a mapping follows the rules among the pairs, \<open>NB_die\<close>
  skips everything that would free the queue; when rules are given in a command that does not
  add, nobody takes the queue. The rout stays allocated though no process has it, and keeps its
  references: the rule can never be deleted again.
\<close>

theorem process_parse_leak:
  fixes s :: "'a process_state_scheme"
  assumes "env_ok E" and "proc_tight s" and "rout_new E (Some rn) (Some on) s = Some (Some q, s')"
    and "rules = (YScalar ''rules'', YSeq [YMap [(YScalar rn, YScalar on)]])"
    and "nm \<noteq> ''''" and "js_get (process_JS s) nm = None"
  shows "process_parse E PARSE_ADD [rules, (YScalar k, YMap m)] (Some items) s = Some (1, Some items, s') \<and>
    process_parse E PARSE_PRN [rules, (YScalar ''process'', YScalar nm)] (Some items) s = Some (0, Some items, s') \<and>
    rout_heap s' q \<noteq> None \<and> \<not> (\<exists>a pc. process_heap s' a = Some pc \<and> q \<in> set (jl_vals (pc_rout_JQ pc))) \<and>
    (\<exists>rp rule. js_get (rule_JS s') rn = Some rp \<and> rule_heap s' rp = Some rule \<and> rl_refcnt rule \<noteq> 0)"
proof -
  have P: "proc_inv_with {} {} [] s" using assms(2) by (simp add: proc_tight_def)
  have P': "proc_inv_with {} {} [q] s' \<and> process_JS s' = process_JS s \<and>
      (\<exists>rp rule. js_get (rule_JS s') rn = Some rp \<and> rule_heap s' rp = Some rule \<and>
        (\<exists>rt. rout_heap s' q = Some rt \<and> rt_rule rt = Some rp))"
  proof (rule rout_new_run[OF P, of E rn on])
    fix rp ip rule x
    assume ok: "rout_new_ok E rn on s" "rule_heap s rp = Some rule" "iface_heap s ip = Some x"
      and js: "js_get (rule_JS s) rn = Some rp"
      and run: "rout_new E (Some rn) (Some on) s = Some (Some (next_addr s), rout_added rp rule ip x s)"
    have q: "q = next_addr s" "s' = rout_added rp rule ip x s" using assms(3) run by simp_all
    have "proc_inv_with {} {} [q] s'" using rout_added_inv[OF assms(1) P ok] q by simp
    with q js show ?thesis by (simp add: rout_added_def)
  next
    fix n assume "rout_new E (Some rn) (Some on) s = Some (None, s\<lparr>next_addr := n\<rparr>)"
    with assms(3) show ?thesis by simp
  qed
  have parse: "process_parse E PARSE_ADD [rules, (YScalar k, YMap m)] (Some items) s = Some (1, Some items, s')"
    "process_parse E PARSE_PRN [rules, (YScalar ''process'', YScalar nm)] (Some items) s = Some (0, Some items, s')"
    using P' assms(5,6) by (simp_all add: assms(4) process_parse_def process_parse_pair_def process_parse_item_def
        process_parse_rout_def assms(3) jl_enqueue_def jl_insert_def jxx_insert_def)
  from P' have I: "proc_inv_with {} {} [q] s'" by blast
  from P' obtain rp rule rt where r: "js_get (rule_JS s') rn = Some rp" "rule_heap s' rp = Some rule" "rout_heap s' q = Some rt"
    "rt_rule rt = Some rp" by blast
  have "rl_refcnt rule \<noteq> 0" by (rule process_needs[OF I r(3)]) (use r in simp)
  moreover have "\<not> (\<exists>a pc. process_heap s' a = Some pc \<and> q \<in> set (jl_vals (pc_rout_JQ pc)))"
    using process_routs_not_held(1)[OF proc_invD(7)[OF I] objects_okD(2)[OF proc_invD(2)[OF I]]] by fastforce
  ultimately show ?thesis using parse r by blast
qed

lemma rout_example:
  obtains s' where "rout_new env0 (Some ''r'') (Some ''eth0'') process_state1 = Some (Some 6, s')"
  by (simp add: rout_new_def calloc_def process_state1_def rule_get_def js_get_def rout_put_def iface_get_def iface_put_def
      rout_set_new_def)

theorem process_parse_leak_witness:
  "\<exists>s'. process_parse env0 PARSE_PRN [(YScalar ''rules'', YSeq [YMap [(YScalar ''r'', YScalar ''eth0'')]]),
       (YScalar ''process'', YScalar ''none'')] (Some []) process_state1 = Some (0, Some [], s') \<and> rout_heap s' 6 \<noteq> None"
proof (rule rout_example)
  fix s' assume run: "rout_new env0 (Some ''r'') (Some ''eth0'') process_state1 = Some (Some 6, s')"
  have "js_get (process_JS process_state1) ''none'' = None" "''none'' \<noteq> ''''" by (simp_all add: process_state1_def js_get_def)
  from process_parse_leak[OF env_ok_env0 proc_tight1 run refl this(2,1)] show ?thesis by blast
qed

end
