(* ===== verification/Datapath.thy ===== *)
theory Datapath
  imports Processes
begin

text \<open>
  The handling of packets, from \<open>iface_callback\<close> down to \<open>op_write\<close> and \<open>send\<close>: it only
  changes the bytes of states, the counters and the history of the sockets, so that the
  invariant of the configuration holds between any two packets; and \<open>process_exec\<close> applies
  the first rule that matches.
\<close>

subsection \<open>What packets change\<close>

definition same_but :: "('ob \<Rightarrow> 'c) \<Rightarrow> (addr \<rightharpoonup> 'ob) \<Rightarrow> (addr \<rightharpoonup> 'ob) \<Rightarrow> bool" where
  "same_but f h h' \<longleftrightarrow> (\<forall>p. map_option f (h' p) = map_option f (h p))"

lemma same_but_refl [simp]: "same_but f h h"
  by (simp add: same_but_def)

lemma same_but_trans [trans]: "same_but f h h' \<Longrightarrow> same_but f h' h'' \<Longrightarrow> same_but f h h''"
  by (simp add: same_but_def)

lemma same_but_upd: "h p = Some x \<Longrightarrow> f x' = f x \<Longrightarrow> same_but f h (h(p \<mapsto> x'))"
  by (simp add: same_but_def)

lemma same_butD: "same_but f h h' \<Longrightarrow> h' p = Some x' \<Longrightarrow> \<exists>x. h p = Some x \<and> f x' = f x"
  unfolding same_but_def by (metis map_option_eq_Some)

lemma same_butE: "same_but f h h' \<Longrightarrow> h p = Some x \<Longrightarrow> \<exists>x'. h' p = Some x' \<and> f x' = f x"
  unfolding same_but_def by (metis map_option_eq_Some)

lemma same_but_dom: "same_but f h h' \<Longrightarrow> dom h' = dom h"
  unfolding same_but_def dom_def by (metis map_option_is_None)

text \<open>A memref without its bytes, an interface without its counters.\<close>

definition mem_shape :: "memref \<Rightarrow> memref \<times> nat" where
  "mem_shape m = (m\<lparr>mr_bytes := []\<rparr>, length (mr_bytes m))"

definition iface_shape :: "iface \<Rightarrow> iface" where
  "iface_shape x = x\<lparr>if_count_in := 0, if_count_out := 0, if_count_checkfail := 0, if_count_sockdrop := 0\<rparr>"

definition set_shape :: "rout_set \<Rightarrow> rout_set" where
  "set_shape rst = rst\<lparr>rs_count_match := 0\<rparr>"

lemma mem_shapeD:
  assumes "mem_shape m' = mem_shape m"
  shows "mr_name m' = mr_name m" "mr_refcnt m' = mr_refcnt m" "mr_rendered m' = mr_rendered m" "mr_set m' = mr_set m"
    "length (mr_bytes m') = length (mr_bytes m)"
  using assms by (cases m; cases m'; simp add: mem_shape_def)+

lemma iface_shapeD:
  assumes "iface_shape x' = iface_shape x"
  shows "if_fd x' = if_fd x" "if_handler x' = if_handler x" "if_context x' = if_context x" "if_hwaddr x' = if_hwaddr x"
    "if_name x' = if_name x" "if_ip_prn x' = if_ip_prn x" "if_refcnt x' = if_refcnt x"
  using assms by (cases x; cases x'; simp add: iface_shape_def)+

lemma set_shapeD:
  assumes "set_shape x' = set_shape x"
  shows "rs_if_out x' = rs_if_out x" "rs_match x' = rs_match x" "rs_write x' = rs_write x"
  using assms by (cases x; cases x'; simp add: set_shape_def)+

text \<open>
  The states before and after a packet. The members that may differ are those that the
  equation overwrites, and they differ in bytes and counters only.
\<close>

definition hot_frame :: "'a process_state_scheme \<Rightarrow> 'a process_state_scheme \<Rightarrow> bool" where
  "hot_frame s s' \<longleftrightarrow>
     s'\<lparr>memref_heap := memref_heap s, iface_heap := iface_heap s, io_log := io_log s, rout_set_heap := rout_set_heap s\<rparr> = s \<and>
     same_but mem_shape (memref_heap s) (memref_heap s') \<and> same_but iface_shape (iface_heap s) (iface_heap s') \<and>
     same_but set_shape (rout_set_heap s) (rout_set_heap s') \<and>
     open_fds (io_log s') = open_fds (io_log s) \<and> tracked (io_log s') = tracked (io_log s)"

lemma hot_frame_refl [simp]: "hot_frame s s"
  by (simp add: hot_frame_def)

lemma hot_frame_sel:
  assumes "hot_frame s s'"
  shows "next_addr s' = next_addr s" "field_heap s' = field_heap s" "field_JS s' = field_JS s" "state_JS s' = state_JS s"
    "op_heap s' = op_heap s" "rule_heap s' = rule_heap s" "rule_JS s' = rule_JS s" "iface_JS s' = iface_JS s"
    "rout_heap s' = rout_heap s" "process_heap s' = process_heap s" "process_JS s' = process_JS s"
    "process_state.more s' = process_state.more s"
  using assms unfolding hot_frame_def by (cases s; cases s'; simp)+

lemma hot_frame_same:
  assumes "hot_frame s s'"
  shows "same_but mem_shape (memref_heap s) (memref_heap s')" "same_but iface_shape (iface_heap s) (iface_heap s')"
    "same_but set_shape (rout_set_heap s) (rout_set_heap s')"
    "open_fds (io_log s') = open_fds (io_log s)" "tracked (io_log s') = tracked (io_log s)"
  using assms unfolding hot_frame_def by blast+

lemma hot_frameI:
  assumes "s'\<lparr>memref_heap := memref_heap s, iface_heap := iface_heap s, io_log := io_log s, rout_set_heap := rout_set_heap s\<rparr> = s"
    and "same_but mem_shape (memref_heap s) (memref_heap s')" and "same_but iface_shape (iface_heap s) (iface_heap s')"
    and "same_but set_shape (rout_set_heap s) (rout_set_heap s')"
    and "open_fds (io_log s') = open_fds (io_log s)" and "tracked (io_log s') = tracked (io_log s)"
  shows "hot_frame s s'"
  using assms unfolding hot_frame_def by blast

lemma hot_frame_trans [trans]:
  assumes "hot_frame s t" and "hot_frame t u"
  shows "hot_frame s u"
proof (rule hot_frameI)
  note S = hot_frame_same[OF assms(1)] and T = hot_frame_same[OF assms(2)]
  show "same_but mem_shape (memref_heap s) (memref_heap u)" by (rule same_but_trans[OF S(1) T(1)])
  show "same_but iface_shape (iface_heap s) (iface_heap u)" by (rule same_but_trans[OF S(2) T(2)])
  show "same_but set_shape (rout_set_heap s) (rout_set_heap u)" by (rule same_but_trans[OF S(3) T(3)])
  show "open_fds (io_log u) = open_fds (io_log s)" "tracked (io_log u) = tracked (io_log s)" using S(4,5) T(4,5) by simp_all
  show "u\<lparr>memref_heap := memref_heap s, iface_heap := iface_heap s, io_log := io_log s, rout_set_heap := rout_set_heap s\<rparr> = s"
    (is "?f s u = s")
  proof -
    have "?f s u = ?f s (?f t u)" by simp
    also have "?f t u = t" using assms(2) unfolding hot_frame_def by blast
    also have "?f s t = s" using assms(1) unfolding hot_frame_def by blast
    finally show ?thesis .
  qed
qed

subsection \<open>Each step\<close>

definition mem_frame :: "'a memref_state_scheme \<Rightarrow> 'a memref_state_scheme \<Rightarrow> bool" where
  "mem_frame s s' \<longleftrightarrow> (\<exists>h. s' = s\<lparr>memref_heap := h\<rparr> \<and> same_but mem_shape (memref_heap s) h)"

lemma mem_frame_refl [simp]: "mem_frame s s"
  unfolding mem_frame_def by (rule exI[of _ "memref_heap s"]) simp

lemma mem_frame_trans: "mem_frame s t \<Longrightarrow> mem_frame t u \<Longrightarrow> mem_frame s u"
  unfolding mem_frame_def by (intro exI[of _ "memref_heap u"]) (auto dest: same_but_trans)

lemma mem_store_frame:
  assumes "mem_store l bs pkt s = Some (pkt', s')"
  shows "length pkt' = length pkt \<and> mem_frame s s'"
proof (cases l)
  case (InPkt i)
  with assms show ?thesis by (auto split: if_splits)
next
  case (InMem a i)
  with assms obtain m where m: "memref_heap s a = Some m" "i + length bs \<le> length (mr_bytes m)" "pkt' = pkt"
    "s' = s\<lparr>memref_heap := (memref_heap s)(a \<mapsto> m\<lparr>mr_bytes := write_at (mr_bytes m) i bs\<rparr>)\<rparr>"
    by (auto simp: bind_eq_Some_conv split: if_splits)
  have "same_but mem_shape (memref_heap s) ((memref_heap s)(a \<mapsto> m\<lparr>mr_bytes := write_at (mr_bytes m) i bs\<rparr>))"
    by (rule same_but_upd[where x = m]) (use m(1,2) in \<open>simp_all add: mem_shape_def\<close>)
  with m(3,4) show ?thesis unfolding mem_frame_def by blast
qed

lemma op_write_frame:
  assumes "op_write os pkt plen s = Some (r, pkt', s')"
  shows "length pkt' = length pkt \<and> mem_frame s s'"
proof (cases "op_common os plen")
  case (Op_args n t f)
  with assms obtain b pkt1 s1 z where "mem_store t b pkt s = Some (pkt1, s1)"
    "mem_store (loc_add t n) [z] pkt1 s1 = Some (pkt', s')"
    by (auto simp: op_write_def bind_eq_Some_conv Let_def split: if_splits)
  with mem_store_frame[of t b pkt s] mem_store_frame[of "loc_add t n" "[z]" pkt1 s1] mem_frame_trans[of s s1 s']
  show ?thesis by auto
qed (use assms in \<open>simp_all add: op_write_def\<close>)

lemma write_loop_frame:
  "write_loop q pkt plen s = Some (ok, pkt', s') \<Longrightarrow> length pkt' = length pkt \<and> mem_frame s s'"
proof (induction q pkt plen s rule: write_loop.induct)
  case (2 i val q pkt plen s)
  from "2.prems" obtain p op r pkt1 s1 where w: "val = Some p" "op_heap s p = Some op"
    "op_write (op_set op) pkt plen s = Some (r, pkt1, s1)"
    "(if r \<noteq> 0 then Some (False, pkt1, s1) else write_loop q pkt1 plen s1) = Some (ok, pkt', s')"
    by (auto simp: bind_eq_Some_conv split del: if_split split: prod.splits)
  note W = op_write_frame[OF w(3)]
  show ?case
  proof (cases "r = 0")
    case True
    with w(4) have "length pkt' = length pkt1 \<and> mem_frame s1 s'" using "2.IH"[OF w(1,2,3)] by simp
    with W mem_frame_trans[of s s1 s'] show ?thesis by auto
  next
    case False
    with w(4) W show ?thesis by simp
  qed
qed simp

lemma hot_frame_mem:
  fixes s :: "'a process_state_scheme"
  assumes "mem_frame s s'"
  shows "hot_frame s s'"
proof -
  from assms obtain h where h: "s' = s\<lparr>memref_heap := h\<rparr>" "same_but mem_shape (memref_heap s) h"
    unfolding mem_frame_def by blast
  then show ?thesis by (intro hot_frameI) simp_all
qed

lemma hot_frame_iface:
  fixes s :: "'a process_state_scheme"
  assumes "iface_heap s p = Some x" and "iface_shape x' = iface_shape x"
    and "open_fds l = open_fds (io_log s)" and "tracked l = tracked (io_log s)"
  shows "hot_frame s (s\<lparr>iface_heap := (iface_heap s)(p \<mapsto> x'), io_log := l\<rparr>)"
  by (rule hot_frameI) (use assms in \<open>simp_all add: same_but_upd\<close>)

lemma hot_frame_set:
  fixes s :: "'a process_state_scheme"
  assumes "rout_set_heap s p = Some rst"
  shows "hot_frame s (s\<lparr>rout_set_heap := (rout_set_heap s)(p \<mapsto> rst\<lparr>rs_count_match := c\<rparr>)\<rparr>)"
  by (rule hot_frameI) (use assms in \<open>simp_all add: same_but_upd set_shape_def\<close>)

lemma rout_set_match_frame:
  assumes "rout_set_match p pkt plen s = Some (m, s')"
  shows "hot_frame s s'"
  using assms hot_frame_set[of s p] by (auto simp: rout_set_match_def bind_eq_Some_conv split: if_splits)

lemma rout_set_exec_frame:
  assumes "rout_set_exec p pkt plen s = Some (ok, pkt', s')"
  shows "length pkt' = length pkt \<and> hot_frame s s'"
  using assms write_loop_frame hot_frame_mem by (fastforce simp: rout_set_exec_def bind_eq_Some_conv)

lemma iface_put_frame:
  fixes s :: "'a process_state_scheme"
  assumes "iface_put f p s = Some s'" and "\<And>x. iface_shape (f x) = iface_shape x"
  shows "hot_frame s s'"
proof -
  from assms(1) obtain x where x: "iface_heap s p = Some x" "s' = s\<lparr>iface_heap := (iface_heap s)(p \<mapsto> f x)\<rparr>"
    by (auto simp: iface_put_def bind_eq_Some_conv)
  then show ?thesis by (intro hot_frameI) (simp_all add: same_but_upd assms(2))
qed

lemma hot_frame_io:
  fixes s :: "'a process_state_scheme"
  shows "hot_frame s (io_do (Io_send fd bs) s)"
  by (rule hot_frameI) (simp_all add: io_do_def fun_eq_iff)

lemma iface_output_frame:
  fixes s :: "'a process_state_scheme"
  assumes "iface_output en os p pkt plen s = Some (r, pkt', s')"
  shows "hot_frame s s'"
proof -
  from assms obtain x ret pkt1 where x: "iface_heap s p = Some x" and c: "checksum en (Some pkt) plen = Some (ret, pkt1)"
    by (auto simp: iface_output_def bind_eq_Some_conv)
  let ?io = "io_do (Io_send (if_fd x) (take plen pkt1)) s"
  have "iface_put (\<lambda>x. x\<lparr>if_count_checkfail := if_count_checkfail x + 1\<rparr>) p s = Some s' \<or> s' = ?io \<or>
      iface_put (\<lambda>x. x\<lparr>if_count_sockdrop := if_count_sockdrop x + 1\<rparr>) p ?io = Some s'"
    using assms x c by (auto simp: iface_output_def Let_def bind_eq_Some_conv split: if_splits)
  then consider (bad) "iface_put (\<lambda>x. x\<lparr>if_count_checkfail := if_count_checkfail x + 1\<rparr>) p s = Some s'"
    | (sent) "s' = ?io" | (drop) "iface_put (\<lambda>x. x\<lparr>if_count_sockdrop := if_count_sockdrop x + 1\<rparr>) p ?io = Some s'" by blast
  then show ?thesis
  proof cases
    case bad
    then show ?thesis by (rule iface_put_frame) (simp add: iface_shape_def)
  next
    case sent
    then show ?thesis using hot_frame_io by simp
  next
    case drop
    then have "hot_frame ?io s'" by (rule iface_put_frame) (simp add: iface_shape_def)
    then show ?thesis by (rule hot_frame_trans[OF hot_frame_io])
  qed
qed

lemma process_exec_frame:
  "process_exec en os q pkt len s = Some (pkt', s') \<Longrightarrow> hot_frame s s'"
proof (induction en os q pkt len s rule: process_exec.induct)
  case (2 en os i val q pkt len s)
  from "2.prems" obtain rst m s1 where m: "val = Some rst" "rout_set_match rst pkt len s = Some (m, s1)"
    by (auto simp: bind_eq_Some_conv)
  have F1: "hot_frame s s1" using rout_set_match_frame[OF m(2)] .
  show ?case
  proof (cases m)
    case False
    with "2.prems" m have "process_exec en os q pkt len s1 = Some (pkt', s')" by simp
    with "2.IH"[OF m(1,2) refl] False hot_frame_trans[OF F1] show ?thesis by simp
  next
    case True
    with "2.prems" m obtain ok pkt1 s2 where x: "rout_set_exec rst pkt len s1 = Some (ok, pkt1, s2)"
      by (auto simp: bind_eq_Some_conv)
    have F2: "hot_frame s s2" using rout_set_exec_frame[OF x] hot_frame_trans[OF F1] by blast
    show ?thesis
    proof (cases ok)
      case True
      with "2.prems" m x \<open>m\<close> obtain out r where "iface_output en os out pkt1 len s2 = Some (r, pkt', s')"
        by (auto simp: bind_eq_Some_conv)
      from hot_frame_trans[OF F2 iface_output_frame[OF this]] show ?thesis .
    next
      case False
      with "2.prems" m x \<open>m\<close> F2 show ?thesis by simp
    qed
  qed
qed simp

subsection \<open>The invariant between packets\<close>

lemma memref_inv_hot:
  fixes s :: "'a process_state_scheme"
  assumes F: "hot_frame s s'" and I: "memref_inv s"
  shows "memref_inv s'"
  unfolding memref_inv_def
proof (intro conjI allI impI)
  note S = hot_frame_sel[OF F] and M = hot_frame_same(1)[OF F]
  have shape: "state_name m' = state_name m \<and> memref_is_value m' = memref_is_value m" if "mem_shape m' = mem_shape m" for m m'
    using mem_shapeD[OF that] by (simp add: state_name_def memref_is_value_def)
  show "registered state_name (state_JS s') (memref_heap s')"
    unfolding registered_def
  proof (intro conjI allI impI)
    fix n p assume "js_get (state_JS s') n = Some p"
    then have "js_get (state_JS s) n = Some p" by (simp add: S)
    then obtain m where m: "memref_heap s p = Some m" "state_name m = Some n"
      by (rule reg.named_get[OF memref_inv_registered[OF I]])
    obtain m' where m': "memref_heap s' p = Some m'" "mem_shape m' = mem_shape m" using same_butE[OF M m(1)] by blast
    with m(2) shape[OF m'(2)] show "\<exists>m'. memref_heap s' p = Some m' \<and> state_name m' = Some n" by simp
  next
    show "judy_ok (state_JS s')" using memref_inv_judy[OF I] by (simp add: S(4))
  qed
  show "memref_ok (state_JS s') (next_addr s') p m'" if m': "memref_heap s' p = Some m'" for p m'
  proof -
    obtain m where m: "memref_heap s p = Some m" "mem_shape m' = mem_shape m" using same_butD[OF M m'] by blast
    from memref_inv_live[OF I m(1)] shape[OF m(2)] mem_shapeD[OF m(2)] show ?thesis
      by (simp add: memref_ok_def S)
  qed
qed

lemma op_inv_hot:
  fixes s :: "'a process_state_scheme"
  assumes F: "hot_frame s s'" and I: "op_inv s"
  shows "op_inv s'"
proof -
  note S = hot_frame_sel[OF F] and M = hot_frame_same(1)[OF F]
  have H: "held (op_heap s) s (\<lambda>_. 0) (\<lambda>_. 0)" using I by (simp add: op_inv_def)
  note h = held_parts[OF H]
  have "field_inv s'" using h(1) by (simp add: field_inv_def S)
  moreover have "memref_inv s'" using memref_inv_hot[OF F h(2)] .
  moreover have "op_ok (field_heap s') (memref_heap s') op" if "op_heap s q = Some op" for q op
  proof (rule op_ok_mono)
    show "op_ok (field_heap s) (memref_heap s) op" using h(4)[OF that] by blast
    show "\<exists>m'. memref_heap s' p = Some m' \<and> length (mr_bytes m') = length (mr_bytes m)" if "memref_heap s p = Some m" for p m
      using same_butE[OF M that] mem_shapeD(5) by blast
  qed (simp add: S)
  moreover have "memref_counts (op_heap s) (memref_heap s') (\<lambda>_. 0)"
    unfolding memref_counts_def
  proof (intro allI impI)
    fix p m' assume "memref_heap s' p = Some m'"
    then obtain m where m: "memref_heap s p = Some m" "mem_shape m' = mem_shape m" using same_butD[OF M] by blast
    have "(if memref_is_value m then 1 else unat (mr_refcnt m)) = refs_to memref_uses (op_heap s) p + 0"
      using h(6) m(1) unfolding memref_counts_def by blast
    moreover have "memref_is_value m' = memref_is_value m" "mr_refcnt m' = mr_refcnt m"
      using mem_shapeD[OF m(2)] by (simp_all add: memref_is_value_def)
    ultimately show "(if memref_is_value m' then 1 else unat (mr_refcnt m')) = refs_to memref_uses (op_heap s) p + 0" by simp presburger
  qed
  ultimately show ?thesis using h(3-5) by (simp add: op_inv_def held_def S)
qed

lemma ifaces_inv_hot:
  fixes s :: "'a process_state_scheme"
  assumes F: "hot_frame s s'" and I: "ifaces_inv s"
  shows "ifaces_inv s'"
proof (rule ifaces_invI)
  note S = hot_frame_sel[OF F] and M = hot_frame_same[OF F] and inv = ifaces_invD[OF I]
  show "finite (dom (iface_heap s'))" using inv(1) same_but_dom[OF M(2)] by simp
  show "registered if_name (iface_JS s') (iface_heap s')"
    unfolding registered_def
  proof (intro conjI allI impI)
    fix n p assume "js_get (iface_JS s') n = Some p"
    then have "js_get (iface_JS s) n = Some p" by (simp add: S)
    then obtain x where x: "iface_heap s p = Some x" "if_name x = Some n" by (rule ifaces_inv_get[OF I])
    obtain x' where x': "iface_heap s' p = Some x'" "iface_shape x' = iface_shape x" using same_butE[OF M(2) x(1)] by blast
    with x(2) iface_shapeD(5)[OF x'(2)] show "\<exists>x'. iface_heap s' p = Some x' \<and> if_name x' = Some n" by simp
  next
    show "judy_ok (iface_JS s')" using inv(5) by (simp add: S)
  qed
  show "iface_ok (iface_JS s') (next_addr s') p x'" if x': "iface_heap s' p = Some x'" for p x'
  proof -
    obtain x where x: "iface_heap s p = Some x" "iface_shape x' = iface_shape x" using same_butD[OF M(2) x'] by blast
    from inv(3)[OF x(1)] iface_shapeD[OF x(2)] show ?thesis by (simp add: iface_ok_def S)
  qed
  have "(\<exists>p x. iface_heap s' p = Some x \<and> if_fd x = fd) \<longleftrightarrow> (\<exists>p x. iface_heap s p = Some x \<and> if_fd x = fd)" for fd
    using same_butD[OF M(2)] same_butE[OF M(2)] iface_shapeD(1) by metis
  moreover have "p = q" if xy: "iface_heap s' p = Some x" "iface_heap s' q = Some y" "if_fd x = if_fd y" for p q x y
  proof -
    obtain x1 y1 where "iface_heap s p = Some x1" "iface_shape x = iface_shape x1" "iface_heap s q = Some y1" "iface_shape y = iface_shape y1"
      using same_butD[OF M(2) xy(1)] same_butD[OF M(2) xy(2)] by blast
    with xy(3) iface_shapeD(1)[of x x1] iface_shapeD(1)[of y y1] inv(4) show ?thesis unfolding fds_held_def by metis
  qed
  ultimately show "fds_held (iface_heap s') (io_log s')"
    using inv(4) M(4) unfolding fds_held_def by blast
qed

lemma base_inv_hot:
  fixes s :: "'a process_state_scheme"
  assumes F: "hot_frame s s'" and I: "base_inv K s"
  shows "base_inv K s'"
  unfolding base_inv_def
proof (intro conjI)
  note S = hot_frame_sel[OF F] and M = hot_frame_same[OF F] and R = rule_invD[OF base_invD(1)[OF I]]
  show "rule_inv_with K [] s'"
    by (rule rule_invI) (use R op_inv_hot[OF F R(1)] in \<open>simp_all add: S\<close>)
  show "ifaces_inv s'" using ifaces_inv_hot[OF F base_invD(2)[OF I]] .
  show "ifaces_tracked s'"
    unfolding ifaces_tracked_def
  proof (intro allI impI)
    fix fd p assume "tracked (io_log s') fd = Some p"
    then obtain x where x: "iface_heap s p = Some x" "if_fd x = fd"
      using base_invD(3)[OF I] M(5) unfolding ifaces_tracked_def by auto
    obtain x' where "iface_heap s' p = Some x'" "iface_shape x' = iface_shape x" using same_butE[OF M(2) x(1)] by blast
    with x(2) iface_shapeD(1) show "\<exists>x. iface_heap s' p = Some x \<and> if_fd x = fd" by metis
  qed
qed

lemma proc_inv_hot:
  fixes s :: "'a process_state_scheme"
  assumes F: "hot_frame s s'" and P: "proc_inv_with K L qs s"
  shows "proc_inv_with K L qs s'"
proof (rule proc_invI)
  note S = hot_frame_sel[OF F] and M = hot_frame_same[OF F]
  note O = objects_okD[OF proc_invD(2)[OF P]]
  show "base_inv K s'" using base_inv_hot[OF F proc_invD(1)[OF P]] .
  have iface: "\<exists>x'. iface_heap s' i = Some x' \<and> if_name x' = if_name y \<and> if_handler x' = if_handler y \<and> if_context x' = if_context y"
    if "iface_heap s i = Some y" for i y
    using same_butE[OF M(2) that] iface_shapeD by metis
  have old: "\<exists>y. iface_heap s i = Some y \<and> iface_shape x = iface_shape y" if "iface_heap s' i = Some x" for i x
    using same_butD[OF M(2) that] .
  show "objects_ok s'"
    unfolding objects_ok_def
  proof (intro conjI allI impI)
    show "finite (dom (rout_heap s'))" "finite (dom (process_heap s'))" using O(1,2) by (simp_all add: S)
    show "rout_ok s' p rt" if rt: "rout_heap s' p = Some rt" for p rt
    proof (rule rout_ok_mono)
      show "rout_ok s p rt" using O(3)[of p rt] rt by (simp add: S)
      fix sp rst assume "rout_set_heap s sp = Some rst"
      then obtain rst' where "rout_set_heap s' sp = Some rst'" "set_shape rst' = set_shape rst" using same_butE[OF M(3)] by blast
      then show "\<exists>c. rout_set_heap s' sp = Some (rst\<lparr>rs_count_match := c\<rparr>)"
        by (intro exI[of _ "rs_count_match rst'"]) (cases rst; cases rst'; simp add: set_shape_def)
    qed (use iface S in auto)
    show "sp < next_addr s'" if "rout_set_heap s' sp \<noteq> None" for sp
      using that same_but_dom[OF M(3)] O(4)[of sp] by (auto simp: S dom_def)
    show "process_ok s' p pc" if pc: "process_heap s' p = Some pc" for p pc
    proof (rule process_ok_mono)
      show "process_ok s p pc" using O(5)[of p pc] pc by (simp add: S)
    qed (use iface S in auto)
    show "registered (process_name s') (process_JS s') (process_heap s')"
      unfolding S
    proof (rule registered_cong[OF O(6)])
      show "process_name s' pc = process_name s pc" if "process_heap s p = Some pc" for p pc
        by (rule process_name_cong[OF _ O(5)[OF that]]) (use iface in blast)
    qed
  qed
  show "handlers_ok s'"
    using proc_invD(3)[OF P] old iface_shapeD(2) unfolding handlers_ok_def S by metis
  show "rule_counts s'" using proc_invD(4)[OF P] by (simp add: rule_counts_def S)
  show "iface_counts s'"
    using proc_invD(5)[OF P] old iface_shapeD(7) unfolding iface_counts_def S by metis
  have "rout_set_heap s' sp \<noteq> None \<longleftrightarrow> rout_set_heap s sp \<noteq> None" for sp
    using same_but_dom[OF M(3)] by (auto simp: dom_def)
  then show "sets_held s'" using proc_invD(6)[OF P] unfolding sets_held_def S by simp
  show "routs_held L qs s'" using proc_invD(7)[OF P] by (simp add: routs_held_def S)
qed

subsection \<open>The first rule that matches\<close>

text \<open>
  The specification: an operation hits a packet if it is empty or its two sides, masked, are
  equal; a rout hits if all operations to match of its rule do.
\<close>

definition op_hits :: "op_set \<Rightarrow> byte list \<Rightarrow> nat \<Rightarrow> 'a memref_state_scheme \<Rightarrow> bool" where
  "op_hits os pkt plen s \<longleftrightarrow> fs_len (os_set_to os) = 0 \<or>
     (\<exists>a b. op_side (os_set_to os) (os_to os) pkt plen s = Some a \<and> op_side (os_set_from os) (os_from os) pkt plen s = Some b \<and>
        masked (fs_mask (os_set_to os)) a = masked (fs_mask (os_set_from os)) b)"

definition rout_parts :: "'a process_state_scheme \<Rightarrow> addr \<Rightarrow> (rule \<times> addr \<times> addr \<times> rout_set) option" where
  "rout_parts s q = do { rt \<leftarrow> rout_heap s q; rp \<leftarrow> rt_rule rt; rule \<leftarrow> rule_heap s rp; ip \<leftarrow> rt_output rt;
     sp \<leftarrow> rt_set rt; rst \<leftarrow> rout_set_heap s sp; Some (rule, ip, sp, rst) }"

definition rout_hits :: "'a process_state_scheme \<Rightarrow> byte list \<Rightarrow> nat \<Rightarrow> addr \<Rightarrow> bool" where
  "rout_hits s pkt plen q \<longleftrightarrow> (case rout_parts s q of
     None \<Rightarrow> False
   | Some (rule, _, _, _) \<Rightarrow> \<forall>a \<in> set (jl_vals (rl_match rule)). \<forall>op. op_heap s a = Some op \<longrightarrow> op_hits (op_set op) pkt plen s)"

text \<open>All operations compare or copy as many bytes as they have on either side.\<close>

definition ops_level :: "'a op_state_scheme \<Rightarrow> bool" where
  "ops_level s \<longleftrightarrow> (\<forall>a op. op_heap s a = Some op \<longrightarrow> fs_len (os_set_to (op_set op)) = fs_len (os_set_from (op_set op)))"

lemma op_match_hits:
  assumes "op_set_ok os pkt plen s"
  shows "\<exists>r. op_match os pkt plen s = Some r \<and> (r = 0 \<longleftrightarrow> op_hits os pkt plen s)"
  unfolding op_match_eq[OF assms] op_hits_def by (auto split: option.split)

lemma level_op_ok:
  fixes s :: "'a op_state_scheme"
  assumes I: "op_inv s" and level: "ops_level s" and op: "op_heap s a = Some op" and len: "plen \<le> length pkt"
  shows "op_set_ok (op_set op) pkt plen s"
proof -
  have "held (op_heap s) s (\<lambda>_. 0) (\<lambda>_. 0)" using I by (simp add: op_inv_def)
  from held_parts(4)[OF this op] have "op_ok (field_heap s) (memref_heap s) op" by blast
  then have "op_side_ok (os_set_to (op_set op)) (os_to (op_set op)) s" "op_side_ok (os_set_from (op_set op)) (os_from (op_set op)) s"
    unfolding op_ok_def side_ok_def op_side_ok_def by blast+
  with level op len show ?thesis unfolding ops_level_def op_set_ok_def by blast
qed

lemma match_loop_hits:
  fixes s :: "'a process_state_scheme"
  assumes "None \<notin> snd ` set q" and I: "op_inv s" and level: "ops_level s" and len: "plen \<le> length pkt"
    and "\<And>a. a \<in> set (jl_vals q) \<Longrightarrow> op_heap s a \<noteq> None"
  shows "match_loop q pkt plen s = Some (\<forall>a \<in> set (jl_vals q). \<forall>op. op_heap s a = Some op \<longrightarrow> op_hits (op_set op) pkt plen s)"
  using assms(1,5)
proof (induction q)
  case Nil
  then show ?case by (simp add: jl_vals_def map_filter_simps)
next
  case (Cons kv q)
  obtain k a where kv: "kv = (k, Some a)" using Cons.prems(1) by (cases kv; cases "snd kv") auto
  have vals: "jl_vals (kv # q) = a # jl_vals q" by (simp add: kv jl_vals_def map_filter_simps)
  obtain op where op: "op_heap s a = Some op" using Cons.prems(2)[of a] vals by (cases "op_heap s a") auto
  obtain r where r: "op_match (op_set op) pkt plen s = Some r" "r = 0 \<longleftrightarrow> op_hits (op_set op) pkt plen s"
    using op_match_hits[OF level_op_ok[OF I level op len]] by blast
  have IH: "match_loop q pkt plen s = Some (\<forall>a \<in> set (jl_vals q). \<forall>op. op_heap s a = Some op \<longrightarrow> op_hits (op_set op) pkt plen s)"
    by (rule Cons.IH) (use Cons.prems vals in auto)
  show ?case unfolding vals using IH op r by (cases "r = 0") (simp_all add: kv)
qed

text \<open>What handling a packet comes to, in terms of the rules.\<close>

definition process_exec_spec ::
  "endian \<Rightarrow> os \<Rightarrow> 'a process_state_scheme \<Rightarrow> addr list \<Rightarrow> byte list \<Rightarrow> nat \<Rightarrow> (byte list \<times> 'a process_state_scheme) option"
where
  "process_exec_spec en os s qs pkt len =
     (case find (rout_hits s pkt len) qs of
        None \<Rightarrow> Some (pkt, s)
      | Some q \<Rightarrow>
          do { (rule, ip, sp, rst) \<leftarrow> rout_parts s q;
               (ok, pkt, s) \<leftarrow> write_loop (rl_write rule) pkt len
                 (s\<lparr>rout_set_heap := (rout_set_heap s)(sp \<mapsto> rst\<lparr>rs_count_match := rs_count_match rst + 1\<rparr>)\<rparr>);
               if ok then do { (r, pkt, s) \<leftarrow> iface_output en os ip pkt len s; Some (pkt, s) } else Some (pkt, s) })"

lemma rout_parts_ok:
  fixes s :: "'a process_state_scheme"
  assumes P: "proc_inv_with K L qs s" and q: "rout_heap s q = Some rt"
  obtains rule ip sp rst where "rout_parts s q = Some (rule, ip, sp, rst)" "rt_set rt = Some sp" "rout_set_heap s sp = Some rst"
    "rs_if_out rst = Some ip" "rs_match rst = rl_match rule" "rs_write rst = rl_write rule"
    "None \<notin> snd ` set (rl_match rule)" "\<And>a. a \<in> set (jl_vals (rl_match rule)) \<Longrightarrow> op_heap s a \<noteq> None"
proof -
  note O = objects_okD[OF proc_invD(2)[OF P]]
  note R = rule_invD[OF base_invD(1)[OF proc_invD(1)[OF P]]]
  from O(3)[OF q] obtain rp ip sp rule rst where r: "rt = \<lparr>rt_rule = Some rp, rt_output = Some ip, rt_set = Some sp\<rparr>"
    "rule_heap s rp = Some rule" "rout_set_heap s sp = Some rst"
    "rs_if_out rst = Some ip" "rs_match rst = rl_match rule" "rs_write rst = rl_write rule" unfolding rout_ok_def by blast
  have dense: "jl_dense (rl_match rule)" using R(4)[OF r(2)] by (simp add: rule_ok_def)
  have live: "op_heap s a \<noteq> None" if "a \<in> set (jl_vals (rl_match rule))" for a
  proof -
    have "0 < refs_to rule_uses (rule_heap s) a"
      by (rule refs_to_pos[OF R(2) r(2)]) (use that in \<open>simp add: rule_uses_def rule_ops_def count_list_pos\<close>)
    moreover have "refs_to rule_uses (rule_heap s) a + count_list [] a + of_bool (a \<in> K) = of_bool (op_heap s a \<noteq> None)"
      using R(5) unfolding rules_hold_def by (rule spec)
    ultimately show ?thesis by (cases "op_heap s a") simp_all
  qed
  show ?thesis
    by (rule that[of rule ip sp rst]) (use q r jl_dense_no_None[OF dense] live in \<open>simp_all add: rout_parts_def\<close>)
qed

lemma process_exec_first:
  fixes s :: "'a process_state_scheme"
  assumes P: "proc_inv_with K L ws s" and level: "ops_level s" and len: "plen \<le> length pkt"
  shows "None \<notin> snd ` set sets \<Longrightarrow> map Some (jl_vals sets) = map (\<lambda>q. Option.bind (rout_heap s q) rt_set) qs \<Longrightarrow>
    (\<And>q. q \<in> set qs \<Longrightarrow> rout_heap s q \<noteq> None) \<Longrightarrow>
    process_exec en os sets pkt plen s = process_exec_spec en os s qs pkt plen"
proof (induction sets arbitrary: qs)
  case Nil
  then show ?case by (simp add: process_exec_spec_def jl_vals_def map_filter_simps)
next
  case (Cons kv sets)
  obtain k sp where kv: "kv = (k, Some sp)" using Cons.prems(1) by (cases kv; cases "snd kv") auto
  have "jl_vals (kv # sets) = sp # jl_vals sets" by (simp add: kv jl_vals_def map_filter_simps)
  with Cons.prems(2) obtain q qs' where qs: "qs = q # qs'" "Option.bind (rout_heap s q) rt_set = Some sp"
    "map Some (jl_vals sets) = map (\<lambda>q. Option.bind (rout_heap s q) rt_set) qs'" by (cases qs) auto
  then obtain rt where rt: "rout_heap s q = Some rt" "rt_set rt = Some sp" by (cases "rout_heap s q") auto
  obtain rule ip rst where parts: "rout_parts s q = Some (rule, ip, sp, rst)" and set: "rout_set_heap s sp = Some rst"
    and r: "rs_if_out rst = Some ip" "rs_match rst = rl_match rule" "rs_write rst = rl_write rule"
    and m: "match_loop (rl_match rule) pkt plen s = Some (rout_hits s pkt plen q)"
  proof (rule rout_parts_ok[OF P rt(1)])
    fix rule ip sp' rst
    assume a: "rout_parts s q = Some (rule, ip, sp', rst)" "rt_set rt = Some sp'" "rout_set_heap s sp' = Some rst"
      "rs_if_out rst = Some ip" "rs_match rst = rl_match rule" "rs_write rst = rl_write rule"
      "None \<notin> snd ` set (rl_match rule)" "\<And>a. a \<in> set (jl_vals (rl_match rule)) \<Longrightarrow> op_heap s a \<noteq> None"
    have I: "op_inv s" using rule_invD(1)[OF base_invD(1)[OF proc_invD(1)[OF P]]] .
    have "match_loop (rl_match rule) pkt plen s = Some (rout_hits s pkt plen q)"
      using match_loop_hits[OF a(7) I level len a(8)] a(1) by (simp add: rout_hits_def)
    with that a rt(2) show ?thesis by simp
  qed
  show ?case
  proof (cases "rout_hits s pkt plen q")
    case False
    have "process_exec en os sets pkt plen s = process_exec_spec en os s qs' pkt plen"
      by (rule Cons.IH) (use Cons.prems qs in auto)
    with False m set r show ?thesis by (simp add: kv qs(1) rout_set_match_def process_exec_spec_def)
  next
    case True
    let ?rst = "rst\<lparr>rs_count_match := rs_count_match rst + 1\<rparr>"
    let ?s1 = "s\<lparr>rout_set_heap := (rout_set_heap s)(sp \<mapsto> ?rst)\<rparr>"
    have keep: "rout_set_heap s2 sp = Some ?rst" if w: "write_loop (rl_write rule) pkt plen ?s1 = Some (ok, pkt2, s2)" for ok pkt2 s2
    proof -
      obtain h where "s2 = ?s1\<lparr>memref_heap := h\<rparr>" using write_loop_frame[OF w] unfolding mem_frame_def by blast
      then show ?thesis by simp
    qed
    show ?thesis
    proof (cases "write_loop (rl_write rule) pkt plen ?s1")
      case None
      with True m set r show ?thesis
        by (simp add: kv qs(1) rout_set_match_def rout_set_exec_def process_exec_spec_def parts)
    next
      case (Some w)
      obtain ok pkt2 s2 where w: "w = (ok, pkt2, s2)" by (cases w)
      from keep Some w have "rout_set_heap s2 sp = Some ?rst" by blast
      with True m set r Some w show ?thesis
        by (simp add: kv qs(1) rout_set_match_def rout_set_exec_def process_exec_spec_def parts)
    qed
  qed
qed

subsection \<open>What this gives\<close>

text \<open>
  C3: the first rule that matches is applied. For a packet that its buffer holds, and operations
  whose two sides have one length, \<open>process_exec\<close> of a process with its queue of sets
  is: find the first rout of the process whose rule's operations to match all hit; if there is
  none, leave the packet alone; else count the match, run the writes of that rule, and, if all
  of them succeed, give the packet to the interface of the rout. In particular the queues that
  the sets copied are those that the rules have.
\<close>

theorem process_exec_first_match:
  fixes s :: "'a process_state_scheme"
  assumes "proc_inv s" and "process_heap s p = Some pc" and "ops_level s" and "plen \<le> length pkt"
  shows "process_exec en os (pc_rout_set_JQ pc) pkt plen s = process_exec_spec en os s (jl_vals (pc_rout_JQ pc)) pkt plen"
proof -
  obtain K L where P: "proc_inv_with K L [] s" using assms(1) by (auto simp: proc_inv_def)
  note O = objects_okD[OF proc_invD(2)[OF P]]
  have dense: "jl_dense (pc_rout_set_JQ pc)"
    and vals: "map Some (jl_vals (pc_rout_set_JQ pc)) = map (\<lambda>q. Option.bind (rout_heap s q) rt_set) (jl_vals (pc_rout_JQ pc))"
    using O(5)[OF assms(2)] unfolding process_ok_def by blast+
  show ?thesis
    by (rule process_exec_first[OF P assms(3,4) jl_dense_no_None[OF dense] vals])
      (rule process_routs_not_held(3)[OF proc_invD(7)[OF P] O(2) assms(2)])
qed

text \<open>The call through the pointer of an interface: only \<open>process_exec\<close> is ever registered.\<close>

definition call_handler ::
  "endian \<Rightarrow> os \<Rightarrow> addr \<Rightarrow> addr judyL \<Rightarrow> byte list \<Rightarrow> nat \<Rightarrow> 'a process_state_scheme \<Rightarrow> 'a process_state_scheme option"
where
  "call_handler en os handler context pkt len s =
     (if handler = process_exec_ptr
      then do { (pkt, s) \<leftarrow> process_exec en os context pkt len s; Some s }
      else None)"

lemma iface_callback_frame:
  fixes s :: "'a process_state_scheme"
  assumes "iface_callback (call_handler en os) rx p s = Some (r, s')"
  shows "hot_frame s s'"
proof (cases rx)
  case Rx_none
  with assms show ?thesis by (simp add: iface_callback_def)
next
  case (Rx_packet outgoing buf len)
  show ?thesis
  proof (cases outgoing)
    case True
    with assms Rx_packet have "iface_put (\<lambda>x. x\<lparr>if_count_out := if_count_out x + 1\<rparr>) p s = Some s'"
      by (auto simp: iface_callback_def bind_eq_Some_conv)
    then show ?thesis by (rule iface_put_frame) (simp add: iface_shape_def)
  next
    case False
    with assms Rx_packet obtain s1 sk where s1: "iface_put (\<lambda>x. x\<lparr>if_count_in := if_count_in x + 1\<rparr>) p s = Some s1"
      and sk: "iface_heap s1 p = Some sk"
      and rest: "(case if_handler sk of None \<Rightarrow> Some (0, s1)
        | Some h \<Rightarrow> do { s \<leftarrow> call_handler en os h (if_context sk) buf len s1; Some (0, s) }) = Some (r, s')"
      by (auto simp: iface_callback_def bind_eq_Some_conv)
    have F: "hot_frame s s1" using s1 by (rule iface_put_frame) (simp add: iface_shape_def)
    show ?thesis
    proof (cases "if_handler sk")
      case None
      with rest F show ?thesis by simp
    next
      case (Some h)
      with rest obtain pkt' where "process_exec en os (if_context sk) buf len s1 = Some (pkt', s')"
        by (auto simp: call_handler_def bind_eq_Some_conv split: if_splits)
      from hot_frame_trans[OF F process_exec_frame[OF this]] show ?thesis .
    qed
  qed
qed


text \<open>A packet that comes in for the process of the example.\<close>

lemma process_example_run:
  obtains s :: process_state and x where "proc_tight s" "op_heap s = Map.empty" "io_log s = [Io_socket 3]" "iface_heap s 2 = Some x" "if_fd x = 3"
    "if_handler x = Some process_exec_ptr" "if_context x = [(0, Some 7)]"
    "process_heap s = [8 \<mapsto> \<lparr>pc_in_iface = Some 2, pc_rout_JQ = [(0, Some 6)], pc_rout_set_JQ = [(0, Some 7)]\<rparr>]"
    "rout_parts s 6 = Some ((rule_of ''r'' [] [])\<lparr>rl_refcnt := 1\<rparr>, 2, 7,
       \<lparr>rs_if_out = Some 2, rs_match = [], rs_write = [], rs_count_match = 0\<rparr>)"
    "rout_set_heap s = [7 \<mapsto> \<lparr>rs_if_out = Some 2, rs_match = [], rs_write = [], rs_count_match = 0\<rparr>]"
proof (rule process_example)
  fix items and s' :: process_state
  assume run: "process_parse env0 PARSE_ADD process_text1 (Some []) process_state1 = Some (0, Some items, s')"
    and s': "process_heap s' = [8 \<mapsto> \<lparr>pc_in_iface = Some 2, pc_rout_JQ = [(0, Some 6)], pc_rout_set_JQ = [(0, Some 7)]\<rparr>]"
    "rout_heap s' = [6 \<mapsto> \<lparr>rt_rule = Some 3, rt_output = Some 2, rt_set = Some 7\<rparr>]"
    "\<exists>x. iface_heap s' 2 = Some x \<and> if_fd x = 3 \<and> if_handler x = Some process_exec_ptr \<and> if_context x = [(0, Some 7)]"
    "op_heap s' = Map.empty" "io_log s' = [Io_socket 3]" "rule_heap s' = [3 \<mapsto> (rule_of ''r'' [] [])\<lparr>rl_refcnt := 1\<rparr>]"
    "rout_set_heap s' = [7 \<mapsto> \<lparr>rs_if_out = Some 2, rs_match = [], rs_write = [], rs_count_match = 0\<rparr>]"
  have "proc_tight s'" using process_example_tight[OF run] .
  moreover have "rout_parts s' 6 = Some ((rule_of ''r'' [] [])\<lparr>rl_refcnt := 1\<rparr>, 2, 7,
       \<lparr>rs_if_out = Some 2, rs_match = [], rs_write = [], rs_count_match = 0\<rparr>)" using s' by (simp add: rout_parts_def)
  moreover obtain x where "iface_heap s' 2 = Some x" "if_fd x = 3" "if_handler x = Some process_exec_ptr" "if_context x = [(0, Some 7)]"
    using s'(3) by blast
  ultimately show ?thesis using s' by (intro that[of s' x]) simp_all
qed

lemma ip4_run:
  obtains pkt' where "checksum LE (Some udp_frame) 44 = Some (CHK_OK, pkt')" "44 \<le> length pkt'"
proof -
  obtain pkt' where c: "checksum LE (Some udp_frame) 44 = Some (CHK_OK, pkt')" and ok: "ip4_checked udp_frame pkt'"
    using checksum_ip4_spec[OF udp_frame_ok] by blast
  have "44 \<le> length pkt'" using ok by (simp add: ip4_checked_def Let_def udp_frame_def)
  with c show ?thesis by (rule that)
qed

theorem process_exec_first_match_witness:
  "\<exists>(s :: process_state) pkt' s'. process_exec LE os0 [(0, Some 7)] udp_frame 44 s = Some (pkt', s') \<and>
     io_log s' = [Io_send 3 (take 44 pkt'), Io_socket 3]"
proof (rule process_example_run)
  fix s :: process_state and x
  let ?pc = "\<lparr>pc_in_iface = Some 2, pc_rout_JQ = [(0, Some 6)], pc_rout_set_JQ = [(0, Some 7)]\<rparr>"
  assume t: "proc_tight s" and s: "op_heap s = Map.empty" "io_log s = [Io_socket 3]" "iface_heap s 2 = Some x" "if_fd x = 3"
    and pc: "process_heap s = [8 \<mapsto> ?pc]"
    and parts: "rout_parts s 6 = Some ((rule_of ''r'' [] [])\<lparr>rl_refcnt := 1\<rparr>, 2, 7,
       \<lparr>rs_if_out = Some 2, rs_match = [], rs_write = [], rs_count_match = 0\<rparr>)"
  have "proc_inv s" using t by (auto simp: proc_inv_def proc_tight_def)
  moreover have "process_heap s 8 = Some ?pc" using pc by simp
  moreover have "ops_level s" by (simp add: ops_level_def s)
  moreover have "44 \<le> length udp_frame" by (simp add: udp_frame_def)
  ultimately have "process_exec LE os0 (pc_rout_set_JQ ?pc) udp_frame 44 s = process_exec_spec LE os0 s (jl_vals (pc_rout_JQ ?pc)) udp_frame 44"
    by (rule process_exec_first_match)
  moreover have "rout_hits s udp_frame 44 6" by (simp add: rout_hits_def parts rule_of_def jl_vals_def map_filter_simps)
  moreover obtain pkt' where c: "checksum LE (Some udp_frame) 44 = Some (CHK_OK, pkt')" "44 \<le> length pkt'" using ip4_run .
  moreover have "os_send os0 l 3 (take 44 pkt') = 44" for l using c(2) by (simp add: os0_def)
  ultimately have "\<exists>s'. process_exec LE os0 [(0, Some 7)] udp_frame 44 s = Some (pkt', s') \<and>
     io_log s' = [Io_send 3 (take 44 pkt'), Io_socket 3]"
    using s by (simp add: process_exec_spec_def parts jl_vals_def map_filter_simps rule_of_def iface_output_def io_do_def Let_def)
  then show ?thesis by blast
qed


text \<open>
  C6: what is in use stays. A rule or an interface that a rout of any process refers to cannot be
  deleted: the command reports an error and changes nothing, so that handling a packet never
  meets a freed rule or interface.
\<close>

theorem in_use_kept:
  fixes s :: "'a process_state_scheme"
  assumes "proc_inv s" and "rout_heap s q = Some rt" and "rt_rule rt = Some rp" and "rt_output rt = Some ip"
    and "rule_heap s rp = Some rule" "rl_name rule = Some rn" and "iface_heap s ip = Some x" "if_name x = Some nm"
  shows "rule_parse E PARSE_DEL [(YScalar ''rule'', YScalar rn)] out s = Some (1, out, s) \<and>
    iface_parse E os PARSE_DEL [(YScalar ''iface'', YScalar nm)] out s = Some (1, out, s)"
proof -
  obtain K L where P: "proc_inv_with K L [] s" using assms(1) by (auto simp: proc_inv_def)
  note B = base_invD[OF proc_invD(1)[OF P]]
  obtain rp' ip' rule' x' where "rt_rule rt = Some rp'" "rule_heap s rp' = Some rule'" "rl_refcnt rule' \<noteq> 0"
    "rt_output rt = Some ip'" "iface_heap s ip' = Some x'" "if_refcnt x' \<noteq> 0" by (rule process_needs[OF P assms(2)])
  then have refs: "rl_refcnt rule \<noteq> 0" "if_refcnt x \<noteq> 0" using assms(3-5,7) by simp_all
  have "js_get (rule_JS s) rn = Some rp" using rule_invD(4)[OF B(1) assms(5)] assms(6) by (simp add: rule_ok_def)
  moreover have "js_get (iface_JS s) nm = Some ip" using ifaces_invD(3)[OF B(2) assms(7)] assms(8) by (simp add: iface_ok_def)
  ultimately show ?thesis
    using assms(5,7) refs by (simp add: rule_parse_def rule_parse_pair_def iface_parse_def)
qed

theorem in_use_kept_witness:
  "\<exists>s :: process_state. rule_parse env0 PARSE_DEL [(YScalar ''rule'', YScalar ''r'')] (Some []) s = Some (1, Some [], s) \<and>
     rule_heap s 3 \<noteq> None"
proof (rule process_example)
  fix items and s' :: process_state
  assume run: "process_parse env0 PARSE_ADD process_text1 (Some []) process_state1 = Some (0, Some items, s')"
    and r: "rout_heap s' = [6 \<mapsto> \<lparr>rt_rule = Some 3, rt_output = Some 2, rt_set = Some 7\<rparr>]"
    and rule: "rule_heap s' = [3 \<mapsto> (rule_of ''r'' [] [])\<lparr>rl_refcnt := 1\<rparr>]"
  have L: "proc_inv_with {} {} [] s'" using process_example_tight[OF run] by (simp add: proc_tight_def)
  then have P: "proc_inv s'" by (auto simp: proc_inv_def)
  have r6: "rout_heap s' 6 = Some \<lparr>rt_rule = Some 3, rt_output = Some 2, rt_set = Some 7\<rparr>" using r by simp
  obtain y where x: "iface_heap s' 2 = Some y" by (rule process_needs[OF L r6]) auto
  have "\<exists>nm. if_name y = Some nm"
    using ifaces_invD(3)[OF base_invD(2)[OF proc_invD(1)[OF L]] x] by (auto simp: iface_ok_def)
  then obtain nm where nm: "if_name y = Some nm" by blast
  have "rule_heap s' 3 = Some ((rule_of ''r'' [] [])\<lparr>rl_refcnt := 1\<rparr>)" "rl_name ((rule_of ''r'' [] [])\<lparr>rl_refcnt := 1\<rparr>) = Some ''r''"
    using rule by (simp_all add: rule_of_def)
  from in_use_kept[OF P r6 _ _ this x nm, of env0 "Some []"] this show ?thesis by auto
qed

end
