(* ===== verification/Commands.thy ===== *)
theory Commands
  imports Datapath
begin

text \<open>
  Every command, on fields, rules, interfaces and processes, keeps the invariant of the whole
  configuration, also of the components that it does not know of: \<open>rule_parse\<close> frees no
  rule that a rout refers to, \<open>iface_parse\<close> no interface that has a handler. The contract
  \<open>command\<close> is what a document relies on.
\<close>

subsection \<open>Fields\<close>

lemma op_inv_fields:
  assumes I: "op_inv s" and F: "field_inv s'"
    and same: "memref_heap s' = memref_heap s" "state_JS s' = state_JS s" "op_heap s' = op_heap s" "next_addr s \<le> next_addr s'"
    and used: "\<And>p fl. field_heap s p = Some fl \<Longrightarrow> fl_refcnt fl \<noteq> 0 \<Longrightarrow> field_heap s' p = Some fl"
    and new: "\<And>p fl. field_heap s' p = Some fl \<Longrightarrow> field_heap s p = Some fl \<or> field_heap s p = None \<and> fl_refcnt fl = 0"
  shows "op_inv s'"
proof -
  have H: "held (op_heap s) s (\<lambda>_. 0) (\<lambda>_. 0)" using I by (simp add: op_inv_def)
  note h = held_parts[OF H]
  have live: "field_heap s p \<noteq> None" if "0 < refs_to field_uses (op_heap s) p" for p
  proof -
    from that obtain q op where "op_heap s q = Some op" "0 < field_uses op p" by (rule refs_to_posD)
    with h(4) show ?thesis unfolding op_ok_def by blast
  qed
  have count: "unat (fl_refcnt fl) = refs_to field_uses (op_heap s) p" if "field_heap s p = Some fl" for p fl
    using h(5) that by (simp add: field_counts_def)
  have "memref_inv s'"
    using h(2) memref_ok_mono[OF _ same(4)] unfolding memref_inv_def same by blast
  moreover have "q < next_addr s' \<and> q < MAXALLOC \<and> op_ok (field_heap s') (memref_heap s') op" if op: "op_heap s q = Some op" for q op
  proof -
    have "field_heap s' p \<noteq> None" if "0 < field_uses op p" for p
    proof -
      have pos: "0 < refs_to field_uses (op_heap s) p" using refs_to_pos[of "op_heap s" q op field_uses p] h(3) op that by blast
      then obtain fl where fl: "field_heap s p = Some fl" using live by blast
      with count[OF fl] pos have "fl_refcnt fl \<noteq> 0" by auto
      with used fl show ?thesis by simp
    qed
    with h(4)[OF op] same show ?thesis unfolding op_ok_def by auto
  qed
  moreover have "field_counts (op_heap s) (field_heap s') (\<lambda>_. 0)"
    unfolding field_counts_def
  proof (intro allI impI)
    fix p fl assume "field_heap s' p = Some fl"
    from new[OF this] show "unat (fl_refcnt fl) = refs_to field_uses (op_heap s) p + 0"
    proof
      assume "field_heap s p = None \<and> fl_refcnt fl = 0"
      with live[of p] show ?thesis by (cases "refs_to field_uses (op_heap s) p") auto
    qed (simp add: count)
  qed
  ultimately show ?thesis using F h(3,6) by (simp add: op_inv_def held_def same)
qed

text \<open>The documents that \<open>field_parse\<close> reads without dereferencing NULL.\<close>

definition scalar_values :: "(ynode \<times> ynode) list \<Rightarrow> bool" where
  "scalar_values ps \<longleftrightarrow> (\<forall>(k, v) \<in> set ps. scalar_value k \<noteq> None \<and> (v = YNone \<or> y_txt v \<noteq> None))"

lemma field_pairs_total:
  assumes "scalar_values ps" and "lc_name l \<noteq> None"
  shows "\<exists>died e' l'. y_for_map field_parse_pair ps e l = Some (died, e', l') \<and> lc_name l' \<noteq> None"
  using assms
proof (induction ps arbitrary: e l)
  case (Cons p ps)
  obtain k v where p: "p = (k, v)" by (cases p)
  obtain kn where kn: "scalar_value k = Some kn" using Cons.prems(1) by (auto simp: p scalar_values_def)
  have rest: "scalar_values ps" using Cons.prems(1) by (simp add: scalar_values_def)
  show ?case
  proof (cases "v = YNone")
    case True
    with Cons.IH[OF rest Cons.prems(2)] kn show ?thesis by (simp add: p)
  next
    case False
    then obtain t where t: "y_txt v = Some t" using Cons.prems(1) by (auto simp: p scalar_values_def)
    have "\<exists>d e1 l1. field_parse_pair kn v e l = Some (d, e1, l1) \<and> lc_name l1 \<noteq> None"
      using Cons.prems(2) t by (simp add: field_parse_pair_def Let_def case_prod_unfold ex_bool_eq)
    then obtain d e1 l1 where b: "field_parse_pair kn v e l = Some (d, e1, l1)" "lc_name l1 \<noteq> None" by blast
    with Cons.IH[OF rest b(2)] kn False show ?thesis by (cases d) (auto simp: p intro: exI[of _ True])
  qed
qed (simp add: exI[of _ False])

definition field_effect :: "parse_mode \<Rightarrow> 'a field_state_scheme \<Rightarrow> 'a field_state_scheme \<Rightarrow> bool" where
  "field_effect mode s s' \<longleftrightarrow> (\<exists>n h js. s' = s\<lparr>next_addr := n, field_heap := h, field_JS := js\<rparr> \<and> next_addr s \<le> n \<and>
     (h = field_heap s \<and> js = field_JS s \<or>
      mode = PARSE_ADD \<and> (\<exists>p fl. field_heap s p = None \<and> fl_refcnt fl = 0 \<and> h = (field_heap s)(p \<mapsto> fl)) \<or>
      mode = PARSE_DEL \<and> (\<exists>p fl. field_heap s p = Some fl \<and> fl_refcnt fl = 0 \<and> h = (field_heap s)(p := None))))"

lemma field_effectI:
  "s' = s\<lparr>next_addr := n, field_heap := h, field_JS := js\<rparr> \<Longrightarrow> next_addr s \<le> n \<Longrightarrow>
     h = field_heap s \<and> js = field_JS s \<or>
      mode = PARSE_ADD \<and> (\<exists>p fl. field_heap s p = None \<and> fl_refcnt fl = 0 \<and> h = (field_heap s)(p \<mapsto> fl)) \<or>
      mode = PARSE_DEL \<and> (\<exists>p fl. field_heap s p = Some fl \<and> fl_refcnt fl = 0 \<and> h = (field_heap s)(p := None)) \<Longrightarrow>
   field_effect mode s s'"
  unfolding field_effect_def by blast

lemma field_effect_refl: "field_effect mode s s"
  by (rule field_effectI[where n = "next_addr s" and h = "field_heap s" and js = "field_JS s"]) simp_all

lemma field_emit_some: "fl_name fl = Some nm \<Longrightarrow> \<exists>items'. field_emit fl (Some items) = Some (Some items')"
  by (simp add: field_emit_def y_reply_def)

lemma field_emit_all_total:
  assumes I: "field_inv s"
  shows "\<exists>items'. field_emit_all s (Some items) = Some (Some items')"
proof -
  have ok: "judy_ok (field_JS s)" using I by (simp add: field_inv_def registered_def)
  have "\<exists>out. loop_vals (\<lambda>p out. do { fl \<leftarrow> field_heap s p; field_emit fl out }) (jl_vals (field_JS s)) (Some items) = Some out \<and> out \<noteq> None"
  proof (rule loop_vals_total)
    fix p out assume p: "p \<in> set (jl_vals (field_JS s))" and out: "out \<noteq> (None :: yout)"
    obtain n where "js_get (field_JS s) n = Some p" using js_vals_get[OF ok p] .
    then obtain fl where fl: "field_heap s p = Some fl" "fl_name fl = Some n" by (rule field_inv_get[OF I])
    from field_emit_some[OF fl(2)] fl(1) out
    show "\<exists>out'. do { fl \<leftarrow> field_heap s p; field_emit fl out } = Some out' \<and> out' \<noteq> None" by (cases out) auto
  qed simp
  then show ?thesis by (auto simp: field_emit_all_def js_loop_const[OF ok])
qed

lemma field_add_spec:
  assumes E: "env_ok E" and I: "field_inv s"
  shows "\<exists>e' items' s'. (do { (fp, s) \<leftarrow> field_new E (Some nm) offt len msk s;
      case fp of None \<Rightarrow> Some (e + 1, Some items, s)
      | Some p \<Rightarrow> do { fl \<leftarrow> field_heap s p; out \<leftarrow> field_emit fl (Some items); Some (e, out, s) } }) = Some (e', Some items', s') \<and>
    field_inv s' \<and> field_effect PARSE_ADD s s'"
proof -
  note new = field_new_eq[OF env_okD(1)[OF E] I, of "Some nm" offt len msk]
  let ?p = "next_addr s"
  let ?fl = "\<lparr>fl_name = Some nm, fl_set = field_set_of offt len msk, fl_refcnt = 0\<rparr>"
  consider (dup) "js_get (field_JS s) nm \<noteq> None"
    | (bad) "js_get (field_JS s) nm = None" "\<not> (calloc_ok E ?p \<and> field_args_ok E nm offt len msk)"
    | (ok) "js_get (field_JS s) nm = None" "calloc_ok E ?p \<and> field_args_ok E nm offt len msk" by blast
  then show ?thesis
  proof cases
    case dup
    with new I field_effect_refl show ?thesis by simp
  next
    case bad
    have "field_effect PARSE_ADD s (s\<lparr>next_addr := ?p + 1\<rparr>)"
      by (rule field_effectI[where n = "?p + 1" and h = "field_heap s" and js = "field_JS s"]) simp_all
    moreover have "field_new E (Some nm) offt len msk s = Some (None, s\<lparr>next_addr := ?p + 1\<rparr>)" using bad new by (simp only: option.case if_False simp_thms)
    ultimately show ?thesis using field_inv_next[OF I] by simp
  next
    case ok
    let ?js = "snd (js_insert (field_JS s) nm (Some ?p) True)"
    let ?s' = "s\<lparr>next_addr := ?p + 1, field_heap := (field_heap s)(?p \<mapsto> ?fl), field_JS := ?js\<rparr>"
    have run: "field_new E (Some nm) offt len msk s = Some (Some ?p, ?s')" using ok new by simp
    have "field_inv ?s'" by (rule field_new_inv[OF env_okD(1)[OF E] I run])
    moreover have "field_effect PARSE_ADD s ?s'"
      by (rule field_effectI[where n = "?p + 1" and h = "(field_heap s)(?p \<mapsto> ?fl)" and js = ?js])
        (use field_inv_fresh[OF I] in \<open>auto intro!: exI[of _ ?p] exI[of _ ?fl]\<close>)
    moreover obtain items' where "field_emit ?fl (Some items) = Some (Some items')"
      using field_emit_some[of ?fl nm, where items = items] by auto
    ultimately show ?thesis using run by simp
  qed
qed

lemma field_del_spec:
  assumes I: "field_inv s"
  shows "\<exists>e' items' s'. (case js_get (field_JS s) nm of
        None \<Rightarrow> Some (e + 1, Some items, s)
      | Some p \<Rightarrow>
          do { fl \<leftarrow> field_heap s p;
               if fl_refcnt fl \<noteq> 0 then Some (e + 1, Some items, s)
               else do { out \<leftarrow> field_emit fl (Some items); s \<leftarrow> field_free (Some p) s; Some (e, out, s) } }) =
      Some (e', Some items', s') \<and> field_inv s' \<and> field_effect PARSE_DEL s s'"
proof (cases "js_get (field_JS s) nm")
  case None
  with I field_effect_refl show ?thesis by simp
next
  case (Some p)
  obtain fl where fl: "field_heap s p = Some fl" "fl_name fl = Some nm" using field_inv_get[OF I Some] .
  show ?thesis
  proof (cases "fl_refcnt fl = 0")
    case False
    with Some fl(1) I field_effect_refl show ?thesis by simp
  next
    case True
    let ?s' = "s\<lparr>field_JS := js_delete (field_JS s) nm, field_heap := (field_heap s)(p := None)\<rparr>"
    have run: "field_free (Some p) s = Some ?s'" using field_free_eq[OF I fl(1)] fl(2) True by simp
    have "field_inv ?s'" by (rule field_free_inv[OF I run])
    moreover have "field_effect PARSE_DEL s ?s'"
      by (rule field_effectI[where n = "next_addr s" and h = "(field_heap s)(p := None)" and js = "js_delete (field_JS s) nm"])
        (use fl(1) True in auto)
    moreover obtain items' where "field_emit fl (Some items) = Some (Some items')" using field_emit_some[OF fl(2)] by blast
    ultimately show ?thesis using Some fl(1) True run by simp
  qed
qed

lemma field_parse_spec:
  assumes E: "env_ok E" and I: "field_inv s" and ps: "scalar_values ps"
  obtains e items' s' where "field_parse E mode ps (Some items) s = Some (e, Some items', s')" "field_inv s'" "field_effect mode s s'"
proof -
  have "\<exists>died e l. y_for_map field_parse_pair ps 0 \<lparr>lc_name = Some '''', lc_offt = 0, lc_len = 0, lc_mask = 0\<rparr> = Some (died, e, l) \<and>
      lc_name l \<noteq> None" by (rule field_pairs_total[OF ps]) simp
  then obtain died e l nm where l: "y_for_map field_parse_pair ps 0 \<lparr>lc_name = Some '''', lc_offt = 0, lc_len = 0, lc_mask = 0\<rparr> = Some (died, e, l)"
    "lc_name l = Some nm" by auto
  note run = l field_parse_def and result = that
  have same: ?thesis if r: "field_parse E mode ps (Some items) s = Some (e', Some items', s)" for e' items'
    using result[OF r I field_effect_refl] .
  consider (died) "died" | (add) "\<not> died" "mode = PARSE_ADD" | (del) "\<not> died" "mode = PARSE_DEL"
    | (prn) "\<not> died" "mode = PARSE_PRN" | (inval) "\<not> died" "mode = PARSE_INVALID" by (cases mode) auto
  then show ?thesis
  proof cases
    case add
    show ?thesis
      using field_add_spec[OF E I, where nm = nm and offt = "lc_offt l" and len = "lc_len l" and msk = "lc_mask l" and e = e and items = items]
        add result by (auto simp: run)
  next
    case del
    show ?thesis using field_del_spec[OF I, where nm = nm and e = e and items = items] del result by (auto simp: run)
  next
    case prn
    have "\<exists>items'. field_parse E mode ps (Some items) s = Some (e, Some items', s)"
    proof (cases "nm = '''' \<or> js_get (field_JS s) nm = None")
      case True
      with field_emit_all_total[OF I, of items] prn show ?thesis by (auto simp: run)
    next
      case False
      then obtain p where p: "js_get (field_JS s) nm = Some p" by blast
      obtain fl where fl: "field_heap s p = Some fl" "fl_name fl = Some nm" using field_inv_get[OF I p] .
      obtain items' where "field_emit fl (Some items) = Some (Some items')" using field_emit_some[OF fl(2)] by blast
      with fl(1) p False prn show ?thesis by (auto simp: run)
    qed
    with same show ?thesis by blast
  qed (use same in \<open>simp_all add: run\<close>)
qed

subsection \<open>What routs and processes need of the components below\<close>

lemma proc_inv_below:
  fixes s :: "'a process_state_scheme" and s' :: "'a process_state_scheme"
  assumes P: "proc_inv_with K L qs s" and base: "base_inv K' s'" and n: "next_addr s \<le> next_addr s'"
    and same: "rout_heap s' = rout_heap s" "rout_set_heap s' = rout_set_heap s" "process_heap s' = process_heap s"
      "process_JS s' = process_JS s"
    and rules: "\<And>p rule. rule_heap s p = Some rule \<Longrightarrow> rl_refcnt rule \<noteq> 0 \<Longrightarrow> rule_heap s' p = Some rule"
      "\<And>p rule. rule_heap s' p = Some rule \<Longrightarrow> rule_heap s p = Some rule \<or> rule_heap s p = None \<and> rl_refcnt rule = 0"
    and ifaces: "\<And>p x. iface_heap s p = Some x \<Longrightarrow> if_refcnt x \<noteq> 0 \<Longrightarrow> iface_heap s' p = Some x"
      "\<And>p x. iface_heap s' p = Some x \<Longrightarrow>
         iface_heap s p = Some x \<or> iface_heap s p = None \<and> if_refcnt x = 0 \<and> if_handler x = None"
  shows "proc_inv_with K' L qs s'"
proof (rule proc_invI)
  note OK = proc_invD(2)[OF P]
  note O = objects_okD[OF OK]
  show "base_inv K' s'" by fact
  have rok: "rout_ok s' p rt" if rt: "rout_heap s p = Some rt" for p rt
  proof (rule rout_ok_mono[OF O(3)[OF rt] n])
    show "\<exists>rule'. rule_heap s' rp = Some rule' \<and> rl_match rule' = rl_match rule \<and> rl_write rule' = rl_write rule"
      if "rt_rule rt = Some rp" "rule_heap s rp = Some rule" for rp rule
      using rules(1)[OF that(2) rule_used[OF P rt that]] by blast
    show "iface_heap s' ip \<noteq> None" if "rt_output rt = Some ip" "iface_heap s ip \<noteq> None" for ip
      using ifaces(1)[OF _ iface_used_out[OF P rt that(1)]] that(2) by auto
    show "\<exists>c. rout_set_heap s' sp = Some (rst\<lparr>rs_count_match := c\<rparr>)" if "rout_set_heap s sp = Some rst" for sp rst
      using that by (intro exI[of _ "rs_count_match rst"]) (simp add: same)
  qed
  show "objects_ok s'"
  proof (rule objects_ok_cong[OF OK n _ _ _ same(3,4)])
    show "rout_ok s' q rt" if "rout_heap s' q = Some rt" for q rt using rok that by (simp add: same)
    show "sp < next_addr s'" if "rout_set_heap s' sp \<noteq> None" for sp using O(4)[of sp] that n by (simp add: same)
    show "\<exists>x'. iface_heap s' i = Some x' \<and> if_name x' = if_name y \<and> if_handler x' = if_handler y \<and> if_context x' = if_context y"
      if "process_heap s q = Some pc" "pc_in_iface pc = Some i" "iface_heap s i = Some y" for q pc i y
      using ifaces(1)[OF that(3) iface_used_in[OF P that]] by blast
  qed (use O(1) in \<open>simp_all add: same\<close>)
  show "handlers_ok s'"
    by (rule handlers_ok_cong[OF proc_invD(3)[OF P] same(3)]) (use ifaces(2) in fastforce)
  show "rule_counts s'"
    unfolding rule_counts_def same
  proof (intro allI impI)
    fix p rule assume "rule_heap s' p = Some rule"
    from rules(2)[OF this] show "unat (rl_refcnt rule) = refs_to rout_rule_uses (rout_heap s) p"
      using rule_countsD[OF proc_invD(4)[OF P]] rule_absent[OF OK] by auto
  qed
  show "iface_counts s'"
    unfolding iface_counts_def same
  proof (intro allI impI)
    fix p x assume "iface_heap s' p = Some x"
    from ifaces(2)[OF this] show "unat (if_refcnt x) = refs_to rout_out_uses (rout_heap s) p + refs_to process_in_uses (process_heap s) p"
      using iface_countsD[OF proc_invD(5)[OF P]] iface_absent[OF OK] by auto
  qed
  show "sets_held s'" using proc_invD(6)[OF P] by (simp add: sets_held_def same)
  show "routs_held L qs s'" using proc_invD(7)[OF P] by (simp add: routs_held_def same)
qed

subsection \<open>The commands\<close>

text \<open>What is outside of the configuration stays, and requests for memory are only added.\<close>

definition later :: "'a process_state_scheme \<Rightarrow> 'a process_state_scheme \<Rightarrow> bool" where
  "later s s' \<longleftrightarrow> process_state.more s' = process_state.more s \<and> next_addr s \<le> next_addr s'"

lemma later_refl [simp]: "later s s"
  by (simp add: later_def)

lemma later_trans [trans]: "later s t \<Longrightarrow> later t u \<Longrightarrow> later s u"
  by (simp add: later_def)

lemma field_parse_proc:
  fixes s :: "'a process_state_scheme"
  assumes E: "env_ok E" and P: "proc_inv_with K L qs s" and ps: "scalar_values ps"
  obtains e items' s' where "field_parse E mode ps (Some items) s = Some (e, Some items', s')" "proc_inv_with K L qs s'"
    "later s s'"
proof -
  note B = proc_invD(1)[OF P]
  note R = base_invD(1)[OF B]
  have H: "held (op_heap s) s (\<lambda>_. 0) (\<lambda>_. 0)" using rule_invD(1)[OF R] by (simp add: op_inv_def)
  obtain e items' s' where run: "field_parse E mode ps (Some items) s = Some (e, Some items', s')" "field_inv s'"
    "field_effect mode s s'" using field_parse_spec[OF E held_parts(1)[OF H] ps] .
  obtain n h js where s': "s' = s\<lparr>next_addr := n, field_heap := h, field_JS := js\<rparr>" "next_addr s \<le> n"
    and h: "h = field_heap s \<and> js = field_JS s \<or>
      mode = PARSE_ADD \<and> (\<exists>p fl. field_heap s p = None \<and> fl_refcnt fl = 0 \<and> h = (field_heap s)(p \<mapsto> fl)) \<or>
      mode = PARSE_DEL \<and> (\<exists>p fl. field_heap s p = Some fl \<and> fl_refcnt fl = 0 \<and> h = (field_heap s)(p := None))"
    using run(3) unfolding field_effect_def by blast
  have "op_inv s'"
  proof (rule op_inv_fields[OF rule_invD(1)[OF R] run(2)])
    show "field_heap s' p = Some fl" if "field_heap s p = Some fl" "fl_refcnt fl \<noteq> 0" for p fl
      using h that s'(1) by auto
    show "field_heap s p = Some fl \<or> field_heap s p = None \<and> fl_refcnt fl = 0" if "field_heap s' p = Some fl" for p fl
      using h that s'(1) by (auto split: if_splits)
  qed (use s' in simp_all)
  then have "rule_inv_with K [] s'"
  proof (rule rule_invI)
    show "rule_ok (rule_JS s') (next_addr s') p rule" if "rule_heap s' p = Some rule" for p rule
      using rule_invD(4)[OF R, of p rule] that s' by (auto simp: rule_ok_def)
  qed (use rule_invD[OF R] s' in simp_all)
  moreover have "ifaces_inv s'" by (rule ifaces_inv_cong[OF base_invD(2)[OF B]]) (use s' in simp_all)
  moreover have "ifaces_tracked s'" using base_invD(3)[OF B] s' by (simp add: ifaces_tracked_def)
  ultimately have "base_inv K s'" by (simp add: base_inv_def)
  then have "proc_inv_with K L qs s'" by (rule proc_inv_below[OF P]) (use s' in simp_all)
  moreover have "later s s'" using s' by (simp add: later_def)
  ultimately show ?thesis using run(1) that by blast
qed

lemma rule_parse_proc:
  fixes s :: "'a process_state_scheme"
  assumes E: "env_ok E" and P: "proc_inv_with K L qs s" and ps: "ymap_ok ps"
  obtains e items' s' K' where "rule_parse E mode ps (Some items) s = Some (e, Some items', s')" "proc_inv_with K' L qs s'"
    "later s s'" "rule_doc_plain ps \<Longrightarrow> K' = K"
proof -
  note B = proc_invD(1)[OF P]
  obtain e items' s' K' where run: "rule_parse E mode ps (Some items) s = Some (e, Some items', s')"
    and R: "rule_inv_with K' [] s'" and eff: "rule_effect mode s s'" and K: "rule_doc_plain ps \<longrightarrow> K' = K"
    using rule_parse_spec[OF E base_invD(1)[OF B] ps, where mode = mode and items = items] by blast
  have n: "next_addr s \<le> next_addr s'" and more: "rule_state.more s' = rule_state.more s" using eff by (simp_all add: rule_effect_def)
  have same: "iface_heap s' = iface_heap s" "iface_JS s' = iface_JS s" "io_log s' = io_log s" "rout_heap s' = rout_heap s"
    "rout_set_heap s' = rout_set_heap s" "process_heap s' = process_heap s" "process_JS s' = process_JS s"
    using more by (cases s; cases s'; simp)+
  have "ifaces_inv s'" by (rule ifaces_inv_cong[OF base_invD(2)[OF B]]) (use same n in simp_all)
  moreover have "ifaces_tracked s'" using base_invD(3)[OF B] same by (simp add: ifaces_tracked_def)
  ultimately have "base_inv K' s'" using R by (simp add: base_inv_def)
  then have "proc_inv_with K' L qs s'"
  proof (rule proc_inv_below[OF P _ n same(4-7)])
    show "rule_heap s' p = Some rule" if "rule_heap s p = Some rule" "rl_refcnt rule \<noteq> 0" for p rule
      using eff that unfolding rule_effect_def by auto
    show "rule_heap s p = Some rule \<or> rule_heap s p = None \<and> rl_refcnt rule = 0" if "rule_heap s' p = Some rule" for p rule
      using eff that unfolding rule_effect_def by (auto split: if_splits)
  qed (use same in simp_all)
  moreover have "later s s'" using more n by (cases s; cases s'; simp add: later_def)
  ultimately show ?thesis using run K that by blast
qed

lemma iface_parse_proc:
  fixes s :: "'a process_state_scheme"
  assumes E: "env_ok E" and os: "sock_ok os" "tracker_ok os" and P: "proc_inv_with K L qs s"
    and ps: "ymap_ok ps" "mode = PARSE_ADD \<Longrightarrow> short_names ps" and mem: "mode = PARSE_ADD \<Longrightarrow> iface_memory E (next_addr s)"
  obtains e items' s' where "iface_parse E os mode ps (Some items) s = Some (e, Some items', s')" "proc_inv_with K L qs s'"
    "later s s'"
proof -
  note B = proc_invD(1)[OF P]
  obtain e items' s' where run: "iface_parse E os mode ps (Some items) s = Some (e, Some items', s')"
    and I: "ifaces_inv s'" "ifaces_tracked s'" and eff: "iface_effect mode s s'"
    using iface_parse_spec[OF E os base_invD(2,3)[OF B] mem ps, where items = items] by blast
  obtain n h js l where s': "s' = s\<lparr>next_addr := n, iface_heap := h, iface_JS := js, io_log := l\<rparr>" "next_addr s \<le> n"
    and h: "h = iface_heap s \<and> js = iface_JS s \<or>
      mode = PARSE_ADD \<and> (\<exists>p x nm. iface_heap s p = None \<and> js_get (iface_JS s) nm = None \<and> if_refcnt x = 0 \<and>
        if_handler x = None \<and> h = (iface_heap s)(p \<mapsto> x) \<and> if_name x = Some nm \<and>
        js_get js = (js_get (iface_JS s))(nm \<mapsto> p)) \<or>
      mode = PARSE_DEL \<and> (\<exists>p x nm. iface_heap s p = Some x \<and> if_refcnt x = 0 \<and> if_name x = Some nm \<and>
        js_get (iface_JS s) nm = Some p \<and> h = (iface_heap s)(p := None) \<and> js = js_delete (iface_JS s) nm)"
    using eff unfolding iface_effect_def by blast
  have "rule_inv_with K [] s'" by (rule rule_inv_cong[OF base_invD(1)[OF B]]) (use s' in simp_all)
  with I have "base_inv K s'" by (simp add: base_inv_def)
  then have "proc_inv_with K L qs s'"
  proof (rule proc_inv_below[OF P])
    show "iface_heap s' p = Some x" if "iface_heap s p = Some x" "if_refcnt x \<noteq> 0" for p x
      using h that s'(1) by auto
    show "iface_heap s p = Some x \<or> iface_heap s p = None \<and> if_refcnt x = 0 \<and> if_handler x = None"
      if "iface_heap s' p = Some x" for p x
      using h that s'(1) by (auto split: if_splits)
  qed (use s' in simp_all)
  moreover have "later s s'" using s' by (simp add: later_def)
  ultimately show ?thesis using run that by blast
qed

subsection \<open>The contract of a command\<close>

text \<open>
  What a command leaves: it returns with a count of its errors and a reply, the configuration is
  sound, nothing outside of it has changed, and, if the command is \<open>plain\<close>, no operation and
  no rout is lost.
\<close>

definition answers ::
  "addr set \<Rightarrow> addr set \<Rightarrow> bool \<Rightarrow> 'a process_state_scheme \<Rightarrow> (nat \<times> yout \<times> 'a process_state_scheme) option \<Rightarrow> bool"
where
  "answers K L plain s r \<longleftrightarrow>
     (\<exists>e items s' K' L'. r = Some (e, Some items, s') \<and> proc_inv_with K' L' [] s' \<and> later s s' \<and>
        (plain \<longrightarrow> K' = K \<and> L' = L))"

lemma answersI:
  "r = Some (e, Some items, s') \<Longrightarrow> proc_inv_with K' L' [] s' \<Longrightarrow> later s s' \<Longrightarrow> (plain \<Longrightarrow> K' = K \<and> L' = L) \<Longrightarrow>
   answers K L plain s r"
  unfolding answers_def by blast

lemma answersE:
  assumes "answers K L plain s r"
  obtains e items s' K' L' where "r = Some (e, Some items, s')" "proc_inv_with K' L' [] s'" "later s s'"
    "plain \<Longrightarrow> K' = K \<and> L' = L"
  using assms unfolding answers_def by blast

lemma answers_refused: "proc_inv_with K L [] s \<Longrightarrow> answers K L plain s (Some (e, Some items, s))"
  by (rule answersI[OF refl]) simp_all

text \<open>Two commands one after the other.\<close>

lemma answers_bind:
  assumes "answers K L p s r"
    and "\<And>e items s' K' L'. r = Some (e, Some items, s') \<Longrightarrow> proc_inv_with K' L' [] s' \<Longrightarrow>
      answers K' L' q s' (f (e, Some items, s'))"
  shows "answers K L (p \<and> q) s (Option.bind r f)"
proof -
  obtain e items s1 K1 L1 where 1: "r = Some (e, Some items, s1)" "proc_inv_with K1 L1 [] s1" "later s s1"
    "p \<Longrightarrow> K1 = K \<and> L1 = L" using assms(1) by (rule answersE) blast
  show ?thesis
  proof (rule answersE[OF assms(2)[OF 1(1,2)]])
    fix e' items' s' K' L'
    assume 2: "f (e, Some items, s1) = Some (e', Some items', s')" "proc_inv_with K' L' [] s'" "later s1 s'"
      "q \<Longrightarrow> K' = K1 \<and> L' = L1"
    show ?thesis
      by (rule answersI[OF _ 2(2) later_trans[OF 1(3) 2(3)]]) (use 1 2 in auto)
  qed
qed

text \<open>
  \<open>parse\<close> is the parser of a component, \<open>ready\<close> what the document and the memory must be like
  for it to be defined, \<open>plain\<close> the documents that lose nothing.
\<close>

locale command =
  fixes parse :: "env \<Rightarrow> os \<Rightarrow> parse_mode \<Rightarrow> (ynode \<times> ynode) list \<Rightarrow> yout \<Rightarrow> 'a process_state_scheme \<Rightarrow>
      (nat \<times> yout \<times> 'a process_state_scheme) option"
    and ready :: "env \<Rightarrow> parse_mode \<Rightarrow> (ynode \<times> ynode) list \<Rightarrow> addr \<Rightarrow> bool"
    and plain :: "parse_mode \<Rightarrow> (ynode \<times> ynode) list \<Rightarrow> bool"
  assumes keeps: "env_ok E \<Longrightarrow> sock_ok os \<Longrightarrow> tracker_ok os \<Longrightarrow> proc_inv_with K L [] s \<Longrightarrow> ymap_ok ps \<Longrightarrow>
      ready E mode ps (next_addr s) \<Longrightarrow> answers K L (plain mode ps) s (parse E os mode ps (Some items) s)"
begin

text \<open>The caller adds the errors of the command to its own.\<close>

lemma counted:
  assumes "env_ok E" "sock_ok os" "tracker_ok os" "proc_inv_with K L [] s" "ymap_ok ps" "ready E mode ps (next_addr s)"
    and "q \<Longrightarrow> plain mode ps"
  shows "answers K L q s (do { (n, out, s) \<leftarrow> parse E os mode ps (Some items) s; Some (e + n, out, s) })"
proof -
  obtain n items' s' K' L' where "parse E os mode ps (Some items) s = Some (n, Some items', s')"
    "proc_inv_with K' L' [] s'" "later s s'" "plain mode ps \<Longrightarrow> K' = K \<and> L' = L"
    using keeps[OF assms(1-6), where items = items] by (rule answersE) blast
  then show ?thesis using assms(7) by (intro answersI[where e = "e + n" and items = items']) auto
qed

end

interpretation field_cmd: command "\<lambda>E os. field_parse E" "\<lambda>E mode ps n. scalar_values ps" "\<lambda>mode ps. True"
proof unfold_locales
  fix E mode ps items and s :: "'a process_state_scheme" and K L
  assume "env_ok E" "proc_inv_with K L [] s" "scalar_values ps"
  from field_parse_proc[OF this, where mode = mode and items = items]
  show "answers K L True s (field_parse E mode ps (Some items) s)" by (metis answersI)
qed

interpretation rule_cmd: command "\<lambda>E os. rule_parse E" "\<lambda>E mode ps n. True" "\<lambda>mode ps. rule_doc_plain ps"
proof unfold_locales
  fix E mode ps items and s :: "'a process_state_scheme" and K L
  assume "env_ok E" "proc_inv_with K L [] s" "ymap_ok ps"
  from rule_parse_proc[OF this, where mode = mode and items = items]
  show "answers K L (rule_doc_plain ps) s (rule_parse E mode ps (Some items) s)" by (metis answersI)
qed

interpretation iface_cmd: command iface_parse
  "\<lambda>E mode ps n. mode = PARSE_ADD \<longrightarrow> short_names ps \<and> iface_memory E n" "\<lambda>mode ps. True"
proof unfold_locales
  fix E os mode ps items and s :: "'a process_state_scheme" and K L
  assume "env_ok E" "sock_ok os" "tracker_ok os" "proc_inv_with K L [] s" "ymap_ok ps"
    and "mode = PARSE_ADD \<longrightarrow> short_names ps \<and> iface_memory E (next_addr s)"
  then show "answers K L True s (iface_parse E os mode ps (Some items) s)"
    using iface_parse_proc[of E os K L "[]" s ps mode items] by (metis answersI)
qed

interpretation process_cmd: command "\<lambda>E os. process_parse E" "\<lambda>E mode ps n. True" process_doc_plain
proof unfold_locales
  fix E mode ps items and s :: "'a process_state_scheme" and K L
  assume "env_ok E" "proc_inv_with K L [] s" "ymap_ok ps"
  from process_parse_spec[OF this, where mode = mode and items = items]
  obtain e items' s' L' where "process_parse E mode ps (Some items) s = Some (e, Some items', s')"
    "proc_inv_with K L' [] s'" "process_effect mode s s'" "process_doc_plain mode ps \<Longrightarrow> L' = L" by blast
  moreover from this(3) have "later s s'" by (simp add: process_effect_def later_def)
  ultimately show "answers K L (process_doc_plain mode ps) s (process_parse E mode ps (Some items) s)"
    by (intro answersI[where K' = K and L' = L']) simp_all
qed

end
