(* ===== verification/Parse.thy ===== *)
theory Parse
  imports Commands
begin

text \<open>
  include/parse2.h and src/parse2.c: the connections over which documents come in, and what
  is done with a document. The state adds the heap of connections and the history of their
  system calls, newest first.
\<close>

subsection \<open>Documents\<close>

definition mode_named :: "string \<Rightarrow> parse_mode option" where
  "mode_named keyname =
     (if keyname = ''xdpk'' \<or> keyname = ''add'' \<or> keyname = ''a'' then Some PARSE_ADD
      else if keyname = ''delete'' \<or> keyname = ''del'' \<or> keyname = ''d'' then Some PARSE_DEL
      else if keyname = ''print'' \<or> keyname = ''prn'' \<or> keyname = ''p'' then Some PARSE_PRN
      else None)"

text \<open>
  One item of the list of a mode. The first pair of its mapping is read without asking whether
  there is one.
\<close>

definition parse_child ::
  "env \<Rightarrow> os \<Rightarrow> parse_mode \<Rightarrow> ynode \<Rightarrow> nat \<Rightarrow> yout \<Rightarrow> 'a process_state_scheme \<Rightarrow>
   (nat \<times> yout \<times> 'a process_state_scheme) option"
where
  "parse_child E os mode child e out s =
     (case child of
        YMap mapping \<Rightarrow>
          (case mapping of
             [] \<Rightarrow> None
           | (key, _) # _ \<Rightarrow>
               do { keyval \<leftarrow> scalar_value key;
                    if keyval = ''iface'' \<or> keyval = ''i'' then
                      do { (n, out, s) \<leftarrow> iface_parse E os mode mapping out s; Some (e + n, out, s) }
                    else if keyval = ''field'' \<or> keyval = ''f'' then
                      do { (n, out, s) \<leftarrow> field_parse E mode mapping out s; Some (e + n, out, s) }
                    else if keyval = ''rule'' \<or> keyval = ''r'' then
                      do { (n, out, s) \<leftarrow> rule_parse E mode mapping out s; Some (e + n, out, s) }
                    else if keyval = ''process'' \<or> keyval = ''p'' then
                      do { (n, out, s) \<leftarrow> process_parse E mode mapping out s; Some (e + n, out, s) }
                    else Some (e + 1, out, s) })
      | _ \<Rightarrow> Some (e + 1, out, s))"

fun parse_children ::
  "env \<Rightarrow> os \<Rightarrow> parse_mode \<Rightarrow> ynode list \<Rightarrow> nat \<Rightarrow> yout \<Rightarrow> 'a process_state_scheme \<Rightarrow>
   (nat \<times> yout \<times> 'a process_state_scheme) option"
where
  "parse_children E os mode [] e out s = Some (e, out, s)"
| "parse_children E os mode (child # cs) e out s =
     do { (e, out, s) \<leftarrow> parse_child E os mode child e out s; parse_children E os mode cs e out s }"

text \<open>\<open>outroot\<close> is the mapping of replies, by the names of the modes.\<close>

definition parse_mode_list ::
  "env \<Rightarrow> os \<Rightarrow> string \<Rightarrow> parse_mode \<Rightarrow> ynode list \<Rightarrow> nat \<Rightarrow> (ynode \<times> ynode) list \<Rightarrow> 'a process_state_scheme \<Rightarrow>
   (nat \<times> (ynode \<times> ynode) list \<times> 'a process_state_scheme) option"
where
  "parse_mode_list E os keyname mode items e outroot s =
     do { out \<leftarrow> (if mode = PARSE_PRN \<and> y_seq_empty items
            then do { out \<leftarrow> iface_emit_all s (Some []); out \<leftarrow> field_emit_all s out;
                      out \<leftarrow> rule_emit_all s out; process_emit_all s out }
            else Some (Some []));
          (e, out, s) \<leftarrow> parse_children E os mode items e out s;
          reply_list \<leftarrow> out;
          Some (e, y_pair_insert_obj outroot keyname (YSeq reply_list), s) }"

fun parse_mapping ::
  "env \<Rightarrow> os \<Rightarrow> (ynode \<times> ynode) list \<Rightarrow> nat \<Rightarrow> (ynode \<times> ynode) list \<Rightarrow> 'a process_state_scheme \<Rightarrow>
   (nat \<times> (ynode \<times> ynode) list \<times> 'a process_state_scheme) option"
where
  "parse_mapping E os [] e outroot s = Some (e, outroot, s)"
| "parse_mapping E os ((key, val) # ps) e outroot s =
     do { keyname \<leftarrow> scalar_value key;
          case val of
            YSeq items \<Rightarrow>
              (case mode_named keyname of
                 None \<Rightarrow> parse_mapping E os ps (e + 1) outroot s
               | Some mode \<Rightarrow>
                   do { (e, outroot, s) \<leftarrow> parse_mode_list E os keyname mode items e outroot s;
                        parse_mapping E os ps e outroot s })
          | _ \<Rightarrow> parse_mapping E os ps (e + 1) outroot s }"

subsection \<open>Connections\<close>

definition PIPE_BUF :: nat where
  "PIPE_BUF = 4096"

definition PARSE_BUF_MAX :: nat where
  "PARSE_BUF_MAX = 1024 * 512"

record parse =
  ps_fdin :: int
  ps_fdout :: int
  ps_buf :: "byte list option"
  ps_buf_len :: nat
  ps_buf_pos :: nat

datatype pio =
    Pio_read int
  | Pio_write int "byte list"
  | Pio_close int
  | Pio_dup int
  | Pio_accept int
  | Pio_register int addr nat
  | Pio_remove int
  | Pio_socket int
  | Pio_listen int nat

text \<open>A context that is registered with the epoll tracker, together with its destructor.\<close>

datatype tk_context = Tk_iface addr | Tk_parse addr

record xdp_state = process_state +
  parse_heap :: "addr \<rightharpoonup> parse"
  ps_log :: "pio list"

text \<open>
  What is outside: what \<open>read\<close> of at most \<open>PIPE_BUF\<close> bytes delivers (\<open>None\<close> is -1, \<open>[]\<close> the end
  of the input), what \<open>write\<close> returns, libyaml's \<open>yaml_parser_load\<close> with
  \<open>yaml_document_get_root_node\<close> (\<open>None\<close> is a failure to parse, \<open>Some None\<close> no root), the
  blocks in which \<open>yaml_emitter_dump\<close> hands a document to the write handler, and what fresh
  memory of \<open>realloc\<close> holds; the descriptors that \<open>dup\<close> and \<open>accept\<close> return, the error count
  of \<open>eptk_register\<close> of a connection, and the contexts whose destructors \<open>eptk_free\<close> runs, in
  that order; for listening, the addresses of \<open>getaddrinfo\<close> (\<open>None\<close> when it fails), the descriptor
  of \<open>socket\<close>, which of \<open>fcntl\<close>, \<open>setsockopt\<close>, \<open>bind\<close> and \<open>listen\<close> succeed, and the error count of
  \<open>eptk_register\<close>.
\<close>

datatype sock_op = Sock_fcntl | Sock_reuse | Sock_bind nat | Sock_listen

record client =
  cl_read :: "pio list \<Rightarrow> int \<Rightarrow> byte list option"
  cl_write :: "pio list \<Rightarrow> int \<Rightarrow> byte list \<Rightarrow> int"
  yl_load :: "byte list \<Rightarrow> ynode option option"
  yl_dump :: "ynode \<Rightarrow> byte list list"
  cl_junk :: byte
  cl_dup :: "pio list \<Rightarrow> int \<Rightarrow> int"
  cl_accept :: "pio list \<Rightarrow> int"
  cl_register :: "pio list \<Rightarrow> int \<Rightarrow> addr \<Rightarrow> nat"
  tk_free :: "io list \<Rightarrow> pio list \<Rightarrow> tk_context list"
  cl_addrinfo :: "string \<Rightarrow> nat list option"
  cl_socket :: "pio list \<Rightarrow> nat \<Rightarrow> int"
  cl_sockop :: "pio list \<Rightarrow> int \<Rightarrow> sock_op \<Rightarrow> bool"
  cl_listen :: "pio list \<Rightarrow> int \<Rightarrow> nat"

definition pio_do :: "pio \<Rightarrow> 'a xdp_state_scheme \<Rightarrow> 'a xdp_state_scheme" where
  "pio_do x s = s\<lparr>ps_log := x # ps_log s\<rparr>"

definition parse_free :: "ptr \<Rightarrow> 'a xdp_state_scheme \<Rightarrow> 'a xdp_state_scheme option" where
  "parse_free arg s =
     (case arg of
        None \<Rightarrow> Some s
      | Some p \<Rightarrow>
          do { ps \<leftarrow> parse_heap s p;
               let s = (if ps_fdin ps \<noteq> -1 then pio_do (Pio_close (ps_fdin ps)) s else s);
               let s = (if ps_fdout ps \<noteq> -1 \<and> ps_fdout ps \<noteq> ps_fdin ps then pio_do (Pio_close (ps_fdout ps)) s else s);
               Some (s\<lparr>parse_heap := (parse_heap s)(p := None)\<rparr>) })"

definition parse_new :: "env \<Rightarrow> int \<Rightarrow> int \<Rightarrow> 'a xdp_state_scheme \<Rightarrow> ptr \<times> 'a xdp_state_scheme" where
  "parse_new E fdin fdout s =
     (if fdin < 0 \<or> fdout < 0 then (None, s)
      else case calloc E s of
        (None, s) \<Rightarrow> (None, s)
      | (Some p, s) \<Rightarrow>
          (Some p, s\<lparr>parse_heap := (parse_heap s)(p \<mapsto>
             \<lparr>ps_fdin = fdin, ps_fdout = fdout, ps_buf = None, ps_buf_len = 0, ps_buf_pos = 0\<rparr>)\<rparr>))"

text \<open>\<open>strncmp\<close> of a string literal with bytes, which end where the buffer does.\<close>

fun strncmp :: "string \<Rightarrow> byte list \<Rightarrow> nat \<Rightarrow> int option" where
  "strncmp a b 0 = Some 0"
| "strncmp a [] (Suc n) = None"
| "strncmp [] (y # b) (Suc n) = Some (- uint y)"
| "strncmp (x # a) (y # b) (Suc n) =
     (if byte_of_char x \<noteq> y then Some (uint (byte_of_char x) - uint y)
      else if y = 0 then Some 0 else strncmp a b n)"

definition parse_cmptail :: "string \<Rightarrow> byte list option \<Rightarrow> nat \<Rightarrow> int option" where
  "parse_cmptail check buf buf_pos =
     (let check_len = min (length check) (buf_pos + 1)
      in if check_len > buf_pos then Some (-1)
         else do { buf \<leftarrow> buf; strncmp check (drop (buf_pos - check_len) buf) check_len })"

subsection \<open>Reading\<close>

text \<open>
  \<open>realloc\<close> is a request for memory like the others. The old buffer is lost when it fails, which
  only shows as the buffer NULL. Bytes are read at \<open>buf_pos\<close>; into a NULL buffer \<open>read\<close> fails.
  \<open>Rd_die\<close> is the jump to \<open>die\<close>, \<open>Rd_again\<close> a read of \<open>PIPE_BUF\<close> bytes, \<open>Rd_last\<close> any other
  result.
\<close>

datatype rd = Rd_die | Rd_again | Rd_last int

definition parse_grow :: "env \<Rightarrow> client \<Rightarrow> parse \<Rightarrow> 'a xdp_state_scheme \<Rightarrow> bool \<times> parse \<times> 'a xdp_state_scheme" where
  "parse_grow E C ps s =
     (if ps_buf_pos ps + PIPE_BUF > ps_buf_len ps then
        if ps_buf_len ps \<ge> PARSE_BUF_MAX then (True, ps, s)
        else (let ps = ps\<lparr>ps_buf_len := ps_buf_len ps + PIPE_BUF\<rparr>;
                  old = (case ps_buf ps of None \<Rightarrow> [] | Some b \<Rightarrow> b)
              in case calloc E s of
                   (None, s) \<Rightarrow> (True, ps\<lparr>ps_buf := None\<rparr>, s)
                 | (Some _, s) \<Rightarrow>
                     (False, ps\<lparr>ps_buf := Some (take (ps_buf_len ps) old @ replicate (ps_buf_len ps - length old) (cl_junk C))\<rparr>, s))
      else (False, ps, s))"

text \<open>A \<open>read\<close> into NULL fails, unless the input is at its end.\<close>

definition parse_read1 :: "env \<Rightarrow> client \<Rightarrow> parse \<Rightarrow> 'a xdp_state_scheme \<Rightarrow> (rd \<times> parse \<times> 'a xdp_state_scheme) option" where
  "parse_read1 E C ps s =
     (case parse_grow E C ps s of
        (True, ps, s) \<Rightarrow> Some (Rd_die, ps, s)
      | (False, ps, s) \<Rightarrow>
          let got = cl_read C (ps_log s) (ps_fdin ps); s = pio_do (Pio_read (ps_fdin ps)) s; pos = ps_buf_pos ps in
          case ps_buf ps of
            None \<Rightarrow> Some (Rd_last (if got = Some [] then 0 else -1), ps, s)
          | Some buf \<Rightarrow>
              if pos + PIPE_BUF > length buf then None
              else (case got of
                  None \<Rightarrow> Some (Rd_last (-1), ps, s)
                | Some bytes \<Rightarrow>
                    let b = take PIPE_BUF bytes; res = length b;
                        ps = ps\<lparr>ps_buf := Some (take pos buf @ b @ drop (pos + res) buf), ps_buf_pos := pos + res\<rparr>
                    in Some (if res = PIPE_BUF then Rd_again else Rd_last (int res), ps, s)))"

definition read_room :: "parse \<Rightarrow> nat" where
  "read_room ps = (PARSE_BUF_MAX + PIPE_BUF - ps_buf_len ps) + (case ps_buf ps of None \<Rightarrow> ps_buf_len ps | Some b \<Rightarrow> max (length b) (ps_buf_len ps)) - ps_buf_pos ps"

function parse_read :: "env \<Rightarrow> client \<Rightarrow> parse \<Rightarrow> 'a xdp_state_scheme \<Rightarrow> (rd \<times> parse \<times> 'a xdp_state_scheme) option" where
  "parse_read E C ps s =
     (case parse_read1 E C ps s of
        None \<Rightarrow> None
      | Some (res, ps, s) \<Rightarrow> if res = Rd_again then parse_read E C ps s else Some (res, ps, s))"
  by pat_completeness auto

lemma grow_room:
  assumes "parse_grow E C ps s = (False, ps', s')"
  shows "read_room ps' \<le> read_room ps" and "ps_buf_pos ps' = ps_buf_pos ps"
  using assms
  by (auto simp: parse_grow_def read_room_def PIPE_BUF_def PARSE_BUF_MAX_def Let_def split: if_splits option.splits prod.splits)

lemma read1_room:
  assumes "parse_read1 E C ps s = Some (Rd_again, ps', s')"
  shows "read_room ps' < read_room ps"
proof -
  obtain d ps1 s1 where g: "parse_grow E C ps s = (d, ps1, s1)" by (cases "parse_grow E C ps s")
  with assms have d: "\<not> d" by (auto simp: parse_read1_def)
  with g grow_room[of E C ps s ps1 s1] have "read_room ps1 \<le> read_room ps" by simp
  moreover from assms g d obtain buf b where b: "ps_buf ps1 = Some buf" "\<not> length buf < ps_buf_pos ps1 + PIPE_BUF"
    "ps' = ps1\<lparr>ps_buf := Some (take (ps_buf_pos ps1) buf @ b @ drop (ps_buf_pos ps1 + length b) buf),
       ps_buf_pos := ps_buf_pos ps1 + length b\<rparr>" "length b = PIPE_BUF"
    by (auto simp: parse_read1_def Let_def split: if_splits option.splits)
  then have "length (take (ps_buf_pos ps1) buf @ b @ drop (ps_buf_pos ps1 + length b) buf) = length buf" by simp
  with b have "read_room ps' < read_room ps1" by (simp add: read_room_def PIPE_BUF_def)
  ultimately show ?thesis by simp
qed

termination parse_read
  by (relation "measure (\<lambda>(E, C, ps, s). read_room ps)") (auto dest: read1_room)

declare parse_read.simps [simp del]

subsection \<open>Replies\<close>

text \<open>The dump of a document stops at the first block that the handler could not write.\<close>

definition parse_write_handler :: "client \<Rightarrow> int \<Rightarrow> byte list \<Rightarrow> 'a xdp_state_scheme \<Rightarrow> bool \<times> 'a xdp_state_scheme" where
  "parse_write_handler C data buffer s =
     (let ret = cl_write C (ps_log s) data buffer
      in (ret = int (length buffer), pio_do (Pio_write data buffer) s))"

fun yaml_emitter_dump :: "client \<Rightarrow> int \<Rightarrow> byte list list \<Rightarrow> 'a xdp_state_scheme \<Rightarrow> 'a xdp_state_scheme" where
  "yaml_emitter_dump C fd [] s = s"
| "yaml_emitter_dump C fd (b # bs) s =
     (let (ok, s) = parse_write_handler C fd b s in if ok then yaml_emitter_dump C fd bs s else s)"

text \<open>
  \<open>parse\<close> returns the count of errors. A document that libyaml rejects counts as one; a
  document whose root is not a mapping is ignored, without a reply.
\<close>

definition parse_reply :: "client \<Rightarrow> int \<Rightarrow> nat \<Rightarrow> (ynode \<times> ynode) list \<Rightarrow> 'a xdp_state_scheme \<Rightarrow> 'a xdp_state_scheme" where
  "parse_reply C outfd e outroot s =
     yaml_emitter_dump C outfd (yl_dump C (YMap (y_pair_insert_nf outroot ''errors'' (fmt_d (int e))))) s"

definition parse_doc ::
  "env \<Rightarrow> os \<Rightarrow> client \<Rightarrow> byte list \<Rightarrow> int \<Rightarrow> 'a xdp_state_scheme \<Rightarrow> (nat \<times> 'a xdp_state_scheme) option"
where
  "parse_doc E os C buf outfd s =
     (case yl_load C buf of
        None \<Rightarrow> Some (1, parse_reply C outfd 1 [] s)
      | Some None \<Rightarrow> Some (0, s)
      | Some (Some root) \<Rightarrow>
          (case root of
             YMap ps \<Rightarrow>
               do { (e, outroot, s) \<leftarrow> parse_mapping E os ps 0 [] s;
                    Some (e, parse_reply C outfd e outroot s) }
           | _ \<Rightarrow> Some (0, s)))"

definition parse_complete :: "byte list option \<Rightarrow> nat \<Rightarrow> bool option" where
  "parse_complete buf pos =
     do { c \<leftarrow> parse_cmptail [CHR 0x0A, CHR 0x0A] buf pos;
          if c = 0 then Some True else
     do { c \<leftarrow> parse_cmptail [CHR 0x0D, CHR 0x0A, CHR 0x0D, CHR 0x0A] buf pos;
          if c = 0 then Some True else
     do { c \<leftarrow> parse_cmptail (''...'' @ [CHR 0x0A]) buf pos;
          if c = 0 then Some True else
     do { c \<leftarrow> parse_cmptail (''...'' @ [CHR 0x0D, CHR 0x0A]) buf pos;
          Some (c = 0) } } } }"

definition parse_put :: "addr \<Rightarrow> parse \<Rightarrow> 'a xdp_state_scheme \<Rightarrow> 'a xdp_state_scheme" where
  "parse_put p ps s = s\<lparr>parse_heap := (parse_heap s)(p \<mapsto> ps)\<rparr>"

text \<open>The bytes are ended by a NUL that is not part of the document, but needs room.\<close>

definition parse_callback ::
  "env \<Rightarrow> os \<Rightarrow> client \<Rightarrow> addr \<Rightarrow> 'a xdp_state_scheme \<Rightarrow> (int \<times> 'a xdp_state_scheme) option"
where
  "parse_callback E os C context s =
     do { ps \<leftarrow> parse_heap s context;
          (res, ps, s) \<leftarrow> parse_read E C ps s;
          if res = Rd_die then Some (0, parse_put context (ps\<lparr>ps_buf_pos := 0\<rparr>) s)
          else if res = Rd_last 0 then Some (1, parse_put context ps s)
          else do { complete \<leftarrow> parse_complete (ps_buf ps) (ps_buf_pos ps);
                    if \<not> complete then Some (0, parse_put context ps s)
                    else do { buf \<leftarrow> ps_buf ps;
                              if ps_buf_pos ps \<ge> length buf then None
                              else do { let ps = ps\<lparr>ps_buf := Some (buf[ps_buf_pos ps := 0])\<rparr>;
                                        let s = parse_put context ps s;
                                        (e, s) \<leftarrow> parse_doc E os C (take (ps_buf_pos ps) buf) (ps_fdout ps) s;
                                        Some (0, parse_put context (ps\<lparr>ps_buf_pos := 0\<rparr>) s) } } } }"

end
