(* ===== verification/Documents.thy ===== *)
theory Documents
  imports Parse
begin

text \<open>
  A document is a list of commands for the components. What each of them keeps, the invariant
  of the configuration, the whole document keeps.
\<close>

subsection \<open>The documents\<close>

text \<open>
  An item of a list that its parser reads without undefined behaviour. The condition is
  sufficient, not necessary (a value under an unknown key of a field is never read): not an empty mapping, keys
  that are scalars, no value of a field that is a sequence or a mapping; a name of an interface
  to be added that fits its buffer, and memory for all of the interface or for nothing of it.
\<close>

definition child_ok :: "env \<Rightarrow> parse_mode \<Rightarrow> ynode \<Rightarrow> addr \<Rightarrow> bool" where
  "child_ok E mode child n =
     (case child of
        YMap mapping \<Rightarrow> ymap_ok mapping \<and>
          (case mapping of
             [] \<Rightarrow> False
           | (key, _) # _ \<Rightarrow>
               (key = YScalar ''field'' \<or> key = YScalar ''f'' \<longrightarrow> scalar_values mapping) \<and>
               ((key = YScalar ''iface'' \<or> key = YScalar ''i'') \<and> mode = PARSE_ADD \<longrightarrow>
                  short_names mapping \<and> iface_memory E n))
      | _ \<Rightarrow> True)"

text \<open>Memory is a matter of the state that the commands before have left.\<close>

fun children_ok :: "env \<Rightarrow> os \<Rightarrow> parse_mode \<Rightarrow> ynode list \<Rightarrow> nat \<Rightarrow> yout \<Rightarrow> 'a process_state_scheme \<Rightarrow> bool" where
  "children_ok E os mode [] e out s = True"
| "children_ok E os mode (child # cs) e out s =
     (child_ok E mode child (next_addr s) \<and>
      (case parse_child E os mode child e out s of
         None \<Rightarrow> True
       | Some (e, out, s) \<Rightarrow> children_ok E os mode cs e out s))"

fun mapping_ok ::
  "env \<Rightarrow> os \<Rightarrow> (ynode \<times> ynode) list \<Rightarrow> nat \<Rightarrow> (ynode \<times> ynode) list \<Rightarrow> 'a process_state_scheme \<Rightarrow> bool"
where
  "mapping_ok E os [] e outroot s = True"
| "mapping_ok E os ((key, val) # ps) e outroot s =
     (case scalar_value key of
        None \<Rightarrow> False
      | Some keyname \<Rightarrow>
          (case val of
             YSeq items \<Rightarrow>
               (case mode_named keyname of
                  None \<Rightarrow> mapping_ok E os ps (e + 1) outroot s
                | Some mode \<Rightarrow> children_ok E os mode items e (Some []) s \<and>
                    (case parse_mode_list E os keyname mode items e outroot s of
                       None \<Rightarrow> True
                     | Some (e, outroot, s) \<Rightarrow> mapping_ok E os ps e outroot s))
           | _ \<Rightarrow> mapping_ok E os ps (e + 1) outroot s))"

text \<open>The documents that lose no operation and no rout.\<close>

definition child_plain :: "parse_mode \<Rightarrow> ynode \<Rightarrow> bool" where
  "child_plain mode child =
     (case child of
        YMap mapping \<Rightarrow>
          (case mapping of
             [] \<Rightarrow> True
           | (key, _) # _ \<Rightarrow>
               (key = YScalar ''rule'' \<or> key = YScalar ''r'' \<longrightarrow> rule_doc_plain mapping) \<and>
               (key = YScalar ''process'' \<or> key = YScalar ''p'' \<longrightarrow> process_doc_plain mode mapping))
      | _ \<Rightarrow> True)"

definition mode_list_of :: "ynode \<times> ynode \<Rightarrow> (parse_mode \<times> ynode list) option" where
  "mode_list_of p =
     (case p of
        (YScalar keyname, YSeq items) \<Rightarrow> map_option (\<lambda>mode. (mode, items)) (mode_named keyname)
      | _ \<Rightarrow> None)"

definition mapping_plain :: "(ynode \<times> ynode) list \<Rightarrow> bool" where
  "mapping_plain ps \<longleftrightarrow>
     (\<forall>p \<in> set ps. case mode_list_of p of None \<Rightarrow> True | Some (mode, items) \<Rightarrow> list_all (child_plain mode) items)"

text \<open>The keys of the pairs that are commands: the reply has a list for each.\<close>

definition reply_keys :: "(ynode \<times> ynode) list \<Rightarrow> ynode list" where
  "reply_keys ps = map fst (filter (\<lambda>p. mode_list_of p \<noteq> None) ps)"

lemma mode_list_of_pair:
  "mode_list_of (YScalar kn, YSeq items) = map_option (\<lambda>mode. (mode, items)) (mode_named kn)"
  by (simp add: mode_list_of_def)

lemma mode_list_of_not_seq: "(\<And>items. v \<noteq> YSeq items) \<Longrightarrow> mode_list_of (k, v) = None"
  by (auto simp: mode_list_of_def split: ynode.splits)

subsection \<open>One command\<close>

text \<open>The first key of an item selects the command.\<close>

lemma parse_child_select:
  "k = ''iface'' \<or> k = ''i'' \<Longrightarrow> parse_child E os mode (YMap ((YScalar k, v) # rest)) e out s =
     do { (n, out, s) \<leftarrow> iface_parse E os mode ((YScalar k, v) # rest) out s; Some (e + n, out, s) }"
  "k = ''field'' \<or> k = ''f'' \<Longrightarrow> parse_child E os mode (YMap ((YScalar k, v) # rest)) e out s =
     do { (n, out, s) \<leftarrow> field_parse E mode ((YScalar k, v) # rest) out s; Some (e + n, out, s) }"
  "k = ''rule'' \<or> k = ''r'' \<Longrightarrow> parse_child E os mode (YMap ((YScalar k, v) # rest)) e out s =
     do { (n, out, s) \<leftarrow> rule_parse E mode ((YScalar k, v) # rest) out s; Some (e + n, out, s) }"
  "k = ''process'' \<or> k = ''p'' \<Longrightarrow> parse_child E os mode (YMap ((YScalar k, v) # rest)) e out s =
     do { (n, out, s) \<leftarrow> process_parse E mode ((YScalar k, v) # rest) out s; Some (e + n, out, s) }"
  by (auto simp: parse_child_def)

text \<open>\<open>parse_child\<close> relies on nothing but the contract of the command that it selects.\<close>

lemma parse_child_answers:
  assumes C: "env_ok E" "sock_ok os" "tracker_ok os" "proc_inv_with K L [] s"
    and ok: "child_ok E mode child (next_addr s)"
  shows "answers K L (child_plain mode child) s (parse_child E os mode child e (Some items) s)"
proof (cases child)
  case (YMap mapping)
  then obtain k v rest where m: "mapping = (YScalar k, v) # rest" "ymap_ok mapping"
    using ok by (cases mapping; cases "fst (hd mapping)") (auto simp: child_ok_def split: list.splits)
  note child = YMap m(1) and ps = m(2)[unfolded m(1)]
  consider (iface) "k = ''iface'' \<or> k = ''i''" | (field) "k = ''field'' \<or> k = ''f''"
    | (rule) "k = ''rule'' \<or> k = ''r''" | (process) "k = ''process'' \<or> k = ''p''"
    | (other) "k \<notin> {''iface'', ''i'', ''field'', ''f'', ''rule'', ''r'', ''process'', ''p''}" by auto
  then show ?thesis
  proof cases
    case iface
    show ?thesis unfolding child parse_child_select(1)[OF iface]
      by (rule iface_cmd.counted[OF C ps]) (use ok iface in \<open>auto simp: child_ok_def child_plain_def child\<close>)
  next
    case field
    show ?thesis unfolding child parse_child_select(2)[OF field]
      by (rule field_cmd.counted[OF C ps]) (use ok field in \<open>auto simp: child_ok_def child_plain_def child\<close>)
  next
    case rule
    show ?thesis unfolding child parse_child_select(3)[OF rule]
      by (rule rule_cmd.counted[OF C ps]) (use ok rule in \<open>auto simp: child_ok_def child_plain_def child\<close>)
  next
    case process
    show ?thesis unfolding child parse_child_select(4)[OF process]
      by (rule process_cmd.counted[OF C ps]) (use ok process in \<open>auto simp: child_ok_def child_plain_def child\<close>)
  next
    case other
    then show ?thesis unfolding child by (simp add: parse_child_def answers_refused[OF C(4)])
  qed
qed (simp_all add: parse_child_def answers_refused[OF C(4)])

subsection \<open>All of them\<close>

lemma parse_children_answers:
  assumes E: "env_ok E" and os: "sock_ok os" "tracker_ok os" and P: "proc_inv_with K L [] s"
    and ok: "children_ok E os mode cs e (Some items) s"
  shows "answers K L (list_all (child_plain mode) cs) s (parse_children E os mode cs e (Some items) s)"
  using P ok
proof (induction cs arbitrary: e items s K L)
  case Nil
  then show ?case by (simp add: answers_refused)
next
  case (Cons c cs)
  have "child_ok E mode c (next_addr s)" using Cons.prems(2) by simp
  note one = parse_child_answers[OF E os Cons.prems(1) this, where e = e and items = items]
  show ?case unfolding list.pred_inject(2) parse_children.simps
    by (rule answers_bind[OF one]) (use Cons in simp)
qed

lemma emit_everything:
  fixes s :: "'a process_state_scheme"
  assumes P: "proc_inv_with K L qs s"
  obtains items where "do { out \<leftarrow> iface_emit_all s (Some []); out \<leftarrow> field_emit_all s out;
    out \<leftarrow> rule_emit_all s out; process_emit_all s out } = Some (Some items)"
proof -
  note B = proc_invD(1)[OF P]
  have "field_inv s" using rule_invD(1)[OF base_invD(1)[OF B]] by (simp add: op_inv_def held_def)
  note F = field_emit_all_total[OF this]
  obtain i where i: "iface_emit_all s (Some []) = Some (Some i)" using iface_emit_all_total[OF base_invD(2)[OF B]] by blast
  obtain f where f: "field_emit_all s (Some i) = Some (Some f)" using F by blast
  obtain r where r: "rule_emit_all s (Some f) = Some (Some r)" using rule_emit_all_total[OF base_invD(1)[OF B]] by blast
  obtain items where "process_emit_all s (Some r) = Some (Some items)" using process_emit_all_total[OF P] by blast
  with i f r that show ?thesis by simp
qed

lemma parse_mode_list_spec:
  fixes s :: "'a process_state_scheme"
  assumes E: "env_ok E" and os: "sock_ok os" "tracker_ok os" and P: "proc_inv_with K L [] s"
    and ok: "children_ok E os mode items e (Some []) s"
  obtains e' reply s' K' L' where
    "parse_mode_list E os kn mode items e outroot s = Some (e', outroot @ [(YScalar kn, reply)], s')"
    "proc_inv_with K' L' [] s'" "later s s'" "list_all (child_plain mode) items \<Longrightarrow> K' = K \<and> L' = L"
proof (cases "mode = PARSE_PRN \<and> y_seq_empty items")
  case True
  from emit_everything[OF P] obtain out where out: "do { out \<leftarrow> iface_emit_all s (Some []); out \<leftarrow> field_emit_all s out;
    out \<leftarrow> rule_emit_all s out; process_emit_all s out } = Some (Some out)" .
  have "parse_mode_list E os kn mode items e outroot s = Some (e, outroot @ [(YScalar kn, YSeq out)], s)"
    unfolding parse_mode_list_def if_P[OF True] out using True by (simp add: y_seq_empty_def y_pair_insert_obj_def)
  from that[OF this P later_refl] show ?thesis by simp
next
  case False
  from answersE[OF parse_children_answers[OF E os P ok]] obtain e' out s' K' L' where
    r: "parse_children E os mode items e (Some []) s = Some (e', Some out, s')"
    "proc_inv_with K' L' [] s'" "later s s'" "list_all (child_plain mode) items \<Longrightarrow> K' = K \<and> L' = L" by blast
  have "parse_mode_list E os kn mode items e outroot s = Some (e', outroot @ [(YScalar kn, YSeq out)], s')"
    unfolding parse_mode_list_def if_not_P[OF False] by (simp add: r(1) y_pair_insert_obj_def)
  from that[OF this r(2,3)] r(4) show ?thesis by simp
qed

lemma parse_mapping_spec:
  fixes s :: "'a process_state_scheme"
  assumes E: "env_ok E" and os: "sock_ok os" "tracker_ok os" and P: "proc_inv_with K L [] s"
    and ok: "mapping_ok E os ps e outroot s"
  obtains e' outroot' s' K' L' where "parse_mapping E os ps e outroot s = Some (e', outroot', s')"
    "map fst outroot' = map fst outroot @ reply_keys ps" "proc_inv_with K' L' [] s'" "later s s'"
    "mapping_plain ps \<Longrightarrow> K' = K \<and> L' = L"
  using P ok
proof (induction ps arbitrary: e outroot s K L thesis)
  case Nil
  then show ?case by (simp add: reply_keys_def)
next
  case (Cons p ps)
  obtain key v where p: "p = (key, v)" by (cases p)
  obtain kn where key: "key = YScalar kn" using Cons.prems(3) by (cases key) (auto simp: p)
  have skip: ?case if none: "mode_list_of p = None" and run: "parse_mapping E os (p # ps) e outroot s = parse_mapping E os ps (e + 1) outroot s"
    and ok: "mapping_ok E os ps (e + 1) outroot s"
  proof -
    from Cons.IH[OF _ Cons.prems(2) ok] obtain e' outroot' s' K' L' where r: "parse_mapping E os ps (e + 1) outroot s = Some (e', outroot', s')"
      "map fst outroot' = map fst outroot @ reply_keys ps" "proc_inv_with K' L' [] s'" "later s s'"
      "mapping_plain ps \<Longrightarrow> K' = K \<and> L' = L" by blast
    show ?case by (rule Cons.prems(1)[OF _ _ r(3,4)]) (use r none run in \<open>simp_all add: reply_keys_def mapping_plain_def\<close>)
  qed
  show ?case
  proof (cases "mode_list_of p")
    case None
    show ?thesis
      by (rule skip[OF None]; use None Cons.prems(3) in \<open>cases v; simp add: p key mode_list_of_def split: option.splits\<close>)
  next
    case (Some ml)
    then obtain mode items where m: "v = YSeq items" "mode_named kn = Some mode" "ml = (mode, items)"
      by (cases v) (auto simp: p key mode_list_of_def)
    have "children_ok E os mode items e (Some []) s" using Cons.prems(3) m by (simp add: p key)
    from parse_mode_list_spec[OF E os Cons.prems(2) this, where kn = kn and outroot = outroot]
    obtain e1 reply s1 K1 L1 where c: "parse_mode_list E os kn mode items e outroot s = Some (e1, outroot @ [(YScalar kn, reply)], s1)"
      "proc_inv_with K1 L1 [] s1" "later s s1" "list_all (child_plain mode) items \<Longrightarrow> K1 = K \<and> L1 = L" by blast
    have "mapping_ok E os ps e1 (outroot @ [(YScalar kn, reply)]) s1" using Cons.prems(3) m c(1) by (simp add: p key)
    from Cons.IH[OF _ c(2) this] obtain e' outroot' s' K' L' where
      r: "parse_mapping E os ps e1 (outroot @ [(YScalar kn, reply)]) s1 = Some (e', outroot', s')"
      "map fst outroot' = map fst (outroot @ [(YScalar kn, reply)]) @ reply_keys ps" "proc_inv_with K' L' [] s'" "later s1 s'"
      "mapping_plain ps \<Longrightarrow> K' = K1 \<and> L' = L1" by blast
    show ?thesis
      by (rule Cons.prems(1)[OF _ _ r(3) later_trans[OF c(3) r(4)]])
        (use r c m Some in \<open>simp_all add: p key reply_keys_def mapping_plain_def\<close>)
  qed
qed

subsection \<open>The property\<close>

text \<open>
  C9: the invariant of the configuration holds between documents. Whatever list of commands
  a document has, with or without errors, as long as it satisfies \<open>mapping_ok\<close>, the parser runs
  all of it without undefined behaviour, keeps
  every invariant of every component, and replies with one list for each pair that is a
  command, in their order; when no command loses an operation or a rout, then nothing is lost.
\<close>

theorem parse_mapping_correct:
  fixes s :: "'a process_state_scheme"
  assumes "env_ok E" and "sock_ok os" and "tracker_ok os" and "proc_inv s" and "mapping_ok E os ps e outroot s"
  shows "\<exists>e' outroot' s'. parse_mapping E os ps e outroot s = Some (e', outroot', s') \<and> proc_inv s' \<and>
    map fst outroot' = map fst outroot @ reply_keys ps \<and> (proc_tight s \<and> mapping_plain ps \<longrightarrow> proc_tight s')"
proof -
  have "\<exists>K L. proc_inv_with K L [] s \<and> (proc_tight s \<longrightarrow> K = {} \<and> L = {})"
    using assms(4) unfolding proc_inv_def proc_tight_def by blast
  then obtain K L where P: "proc_inv_with K L [] s" and t: "proc_tight s \<longrightarrow> K = {} \<and> L = {}" by blast
  from parse_mapping_spec[OF assms(1-3) P assms(5)] obtain e' outroot' s' K' L' where
    "parse_mapping E os ps e outroot s = Some (e', outroot', s')" "map fst outroot' = map fst outroot @ reply_keys ps"
    "proc_inv_with K' L' [] s'" "later s s'" "mapping_plain ps \<Longrightarrow> K' = K \<and> L' = L" by blast
  with t show ?thesis unfolding proc_inv_def proc_tight_def by blast
qed

definition document1 :: "(ynode \<times> ynode) list" where
  "document1 = [(YScalar ''add'', YSeq [YMap process_text1]), (YScalar ''mode'', YSeq []), (YScalar ''print'', YSeq [])]"

lemma document1_ok: "mapping_ok E os document1 e outroot s" "mapping_plain document1"
  by (simp_all add: document1_def mode_named_def child_ok_def process_text1_def mapping_plain_def mode_list_of_def
      child_plain_def process_doc_plain_def split: option.split prod.split)

theorem parse_mapping_correct_witness:
  "\<exists>e outroot s'. parse_mapping env0 os0 document1 0 [] process_state1 = Some (e, outroot, s') \<and> proc_tight s' \<and>
     map fst outroot = [YScalar ''add'', YScalar ''print'']"
  using parse_mapping_correct[OF env_ok_env0 os0_ok proc_inv1 document1_ok(1), of 0 "[]"]
    proc_tight1 document1_ok(2)
  by (auto simp: reply_keys_def document1_def mode_list_of_def mode_named_def)

end
