(* ===== verification/Connections.thy ===== *)
theory Connections
  imports Documents "HOL-Library.Sublist"
begin

text \<open>
  A connection: its buffer never overflows, whatever the other end sends; what it has buffered
  is what was read since the last document, in order and without gaps; and a document is
  executed when its last line has arrived.
\<close>

subsection \<open>The buffer\<close>

definition conn_ok :: "parse \<Rightarrow> bool" where
  "conn_ok ps \<longleftrightarrow> ps_buf_len ps \<le> PARSE_BUF_MAX \<and> PIPE_BUF dvd ps_buf_len ps \<and> ps_buf_pos ps \<le> ps_buf_len ps \<and>
     (case ps_buf ps of None \<Rightarrow> ps_buf_pos ps = 0 | Some b \<Rightarrow> length b = ps_buf_len ps)"

definition pending :: "parse \<Rightarrow> byte list" where
  "pending ps = (case ps_buf ps of None \<Rightarrow> [] | Some b \<Rightarrow> take (ps_buf_pos ps) b)"

text \<open>What stays of a connection, and of the program, while bytes are read.\<close>

definition same_conn :: "parse \<Rightarrow> parse \<Rightarrow> bool" where
  "same_conn ps ps' \<longleftrightarrow> ps_fdin ps' = ps_fdin ps \<and> ps_fdout ps' = ps_fdout ps"

definition reads :: "client \<Rightarrow> int \<Rightarrow> nat \<Rightarrow> 'a xdp_state_scheme \<Rightarrow> 'a xdp_state_scheme \<Rightarrow> bool" where
  "reads C fd n s s' \<longleftrightarrow> (\<exists>m. next_addr s \<le> m \<and>
     s' = s\<lparr>next_addr := m, ps_log := replicate n (Pio_read fd) @ ps_log s\<rparr>)"

lemma conn_ok_new: "conn_ok \<lparr>ps_fdin = i, ps_fdout = out, ps_buf = None, ps_buf_len = 0, ps_buf_pos = 0\<rparr>"
  by (simp add: conn_ok_def)

lemma conn_ok_reset: "conn_ok ps \<Longrightarrow> conn_ok (ps\<lparr>ps_buf_pos := 0\<rparr>)"
  by (auto simp: conn_ok_def split: option.splits)

lemma reads_none [simp]: "reads C fd 0 s s" "reads C fd 0 s (s\<lparr>next_addr := Suc (next_addr s)\<rparr>)"
  unfolding reads_def by (rule exI[of _ "next_addr s"]; simp) (rule exI[of _ "Suc (next_addr s)"]; simp)

lemma page_below: "PIPE_BUF dvd n \<Longrightarrow> n < PARSE_BUF_MAX \<Longrightarrow> n + PIPE_BUF \<le> PARSE_BUF_MAX"
  unfolding PIPE_BUF_def PARSE_BUF_MAX_def by (auto elim!: dvdE)

lemma parse_grow_spec:
  assumes ok: "conn_ok ps" and g: "parse_grow E C ps s = (d, ps1, s1)"
  shows "same_conn ps ps1 \<and> reads C fd 0 s s1 \<and> next_addr s1 \<le> next_addr s + 1"
    and "d \<Longrightarrow> conn_ok (ps1\<lparr>ps_buf_pos := 0\<rparr>)"
    and "\<not> d \<Longrightarrow> conn_ok ps1 \<and> pending ps1 = pending ps \<and> ps_buf_pos ps1 = ps_buf_pos ps"
    and "\<And>b. \<not> d \<Longrightarrow> ps_buf ps1 = Some b \<Longrightarrow> ps_buf_pos ps1 + PIPE_BUF \<le> length b"
    and "\<not> d \<Longrightarrow> ps_buf ps \<noteq> None \<or> ps_buf_len ps = 0 \<Longrightarrow> ps_buf ps1 \<noteq> None"
    and "d \<Longrightarrow> PARSE_BUF_MAX < ps_buf_pos ps + PIPE_BUF \<or> \<not> calloc_ok E (next_addr s)"
proof -
  let ?len = "ps_buf_len ps + PIPE_BUF"
  let ?old = "case ps_buf ps of None \<Rightarrow> [] | Some b \<Rightarrow> b"
  let ?grown = "ps\<lparr>ps_buf_len := ?len,
    ps_buf := Some (take ?len ?old @ replicate (?len - length ?old) (cl_junk C))\<rparr>"
  consider (room) "ps_buf_pos ps + PIPE_BUF \<le> ps_buf_len ps" "d = False" "ps1 = ps" "s1 = s"
    | (full) "ps_buf_len ps < ps_buf_pos ps + PIPE_BUF" "PARSE_BUF_MAX \<le> ps_buf_len ps" "d = True" "ps1 = ps" "s1 = s"
    | (grow) "ps_buf_len ps < ps_buf_pos ps + PIPE_BUF" "ps_buf_len ps < PARSE_BUF_MAX" "d = False" "ps1 = ?grown"
        "s1 = s\<lparr>next_addr := next_addr s + 1\<rparr>"
    | (fail) "ps_buf_len ps < ps_buf_pos ps + PIPE_BUF" "ps_buf_len ps < PARSE_BUF_MAX" "d = True"
        "ps1 = ps\<lparr>ps_buf_len := ?len, ps_buf := None\<rparr>" "s1 = s\<lparr>next_addr := next_addr s + 1\<rparr>" "\<not> calloc_ok E (next_addr s)"
    using g by (auto simp: parse_grow_def calloc_def Let_def not_less not_le split: if_splits)
  then have "same_conn ps ps1 \<and> reads C fd 0 s s1 \<and> next_addr s1 \<le> next_addr s + 1 \<and> (d \<longrightarrow> conn_ok (ps1\<lparr>ps_buf_pos := 0\<rparr>)) \<and>
    (\<not> d \<longrightarrow> conn_ok ps1 \<and> pending ps1 = pending ps \<and> ps_buf_pos ps1 = ps_buf_pos ps \<and>
       (\<forall>b. ps_buf ps1 = Some b \<longrightarrow> ps_buf_pos ps1 + PIPE_BUF \<le> length b) \<and>
       (ps_buf ps \<noteq> None \<or> ps_buf_len ps = 0 \<longrightarrow> ps_buf ps1 \<noteq> None)) \<and>
    (d \<longrightarrow> PARSE_BUF_MAX < ps_buf_pos ps + PIPE_BUF \<or> \<not> calloc_ok E (next_addr s))"
  proof cases
    case room
    have "ps_buf ps \<noteq> None \<or> ps_buf_len ps \<noteq> 0" using room(1) by (auto simp: PIPE_BUF_def)
    with room ok show ?thesis by (auto simp: same_conn_def conn_ok_def)
  next
    case full
    with ok show ?thesis by (auto simp: same_conn_def conn_ok_def split: option.splits)
  next
    case grow
    have "?len \<le> PARSE_BUF_MAX" using ok grow(2) by (simp add: conn_ok_def page_below)
    with grow ok show ?thesis by (auto simp: same_conn_def conn_ok_def pending_def split: option.splits)
  next
    case fail
    have "?len \<le> PARSE_BUF_MAX" using ok fail(2) by (simp add: conn_ok_def page_below)
    with fail ok show ?thesis by (auto simp: same_conn_def conn_ok_def)
  qed
  then show "same_conn ps ps1 \<and> reads C fd 0 s s1 \<and> next_addr s1 \<le> next_addr s + 1"
    "d \<Longrightarrow> conn_ok (ps1\<lparr>ps_buf_pos := 0\<rparr>)"
    "\<not> d \<Longrightarrow> conn_ok ps1 \<and> pending ps1 = pending ps \<and> ps_buf_pos ps1 = ps_buf_pos ps"
    "\<And>b. \<not> d \<Longrightarrow> ps_buf ps1 = Some b \<Longrightarrow> ps_buf_pos ps1 + PIPE_BUF \<le> length b"
    "\<not> d \<Longrightarrow> ps_buf ps \<noteq> None \<or> ps_buf_len ps = 0 \<Longrightarrow> ps_buf ps1 \<noteq> None"
    "d \<Longrightarrow> PARSE_BUF_MAX < ps_buf_pos ps + PIPE_BUF \<or> \<not> calloc_ok E (next_addr s)"
    by blast+
qed

subsection \<open>The bytes that arrive\<close>

definition got :: "client \<Rightarrow> int \<Rightarrow> 'a xdp_state_scheme \<Rightarrow> nat \<Rightarrow> byte list option" where
  "got C fd s i = map_option (take PIPE_BUF) (cl_read C (replicate i (Pio_read fd) @ ps_log s) fd)"

definition rd_of :: "byte list option \<Rightarrow> rd" where
  "rd_of x = (case x of None \<Rightarrow> Rd_last (-1) | Some b \<Rightarrow> if length b = PIPE_BUF then Rd_again else Rd_last (int (length b)))"

definition rd_null :: "byte list option \<Rightarrow> rd" where
  "rd_null x = Rd_last (if x = Some [] then 0 else -1)"

definition arrived :: "client \<Rightarrow> int \<Rightarrow> 'a xdp_state_scheme \<Rightarrow> nat \<Rightarrow> byte list" where
  "arrived C fd s n = concat (map (\<lambda>i. case got C fd s i of None \<Rightarrow> [] | Some b \<Rightarrow> b) [0..<n])"

definition usable :: "parse \<Rightarrow> bool" where
  "usable ps \<longleftrightarrow> ps_buf ps \<noteq> None \<or> ps_buf_len ps = 0"

lemma reads_trans: "reads C fd n s t \<Longrightarrow> reads C fd m t u \<Longrightarrow> reads C fd (m + n) s u"
  unfolding reads_def
proof (elim exE conjE)
  fix a b assume "next_addr s \<le> a" "t = s\<lparr>next_addr := a, ps_log := replicate n (Pio_read fd) @ ps_log s\<rparr>"
    "next_addr t \<le> b" "u = t\<lparr>next_addr := b, ps_log := replicate m (Pio_read fd) @ ps_log t\<rparr>"
  then show "\<exists>l. next_addr s \<le> l \<and> u = s\<lparr>next_addr := l, ps_log := replicate (m + n) (Pio_read fd) @ ps_log s\<rparr>"
    by (intro exI[of _ b]) (simp add: replicate_add)
qed

lemma reads_read: "reads C fd 0 s t \<Longrightarrow> reads C fd 1 s (pio_do (Pio_read fd) t)"
  unfolding reads_def pio_do_def by auto

lemma reads_log: "reads C fd n s t \<Longrightarrow> ps_log t = replicate n (Pio_read fd) @ ps_log s"
  unfolding reads_def by auto

lemma got_reads: "reads C fd n s t \<Longrightarrow> got C fd t i = got C fd s (i + n)"
  by (simp add: got_def reads_log replicate_add)

lemma arrived_0 [simp]: "arrived C fd s 0 = []"
  by (simp add: arrived_def)

lemma arrived_reads:
  assumes "reads C fd 1 s t"
  shows "arrived C fd s (Suc n) = (case got C fd s 0 of None \<Rightarrow> [] | Some b \<Rightarrow> b) @ arrived C fd t n"
proof -
  have "[0..<Suc n] = 0 # map Suc [0..<n]" by (simp add: upt_conv_Cons map_Suc_upt del: upt_Suc)
  then show ?thesis unfolding arrived_def by (simp add: got_reads[OF assms] o_def)
qed

lemma stuck_grow: "conn_ok ps \<Longrightarrow> \<not> usable ps \<Longrightarrow> parse_grow E C ps s = (False, ps, s)"
  by (auto simp: conn_ok_def usable_def parse_grow_def dest: dvd_imp_le split: option.splits)

text \<open>A block that is read goes behind the bytes that are pending.\<close>

lemma read1_block:
  assumes g: "parse_grow E C ps s = (False, ps1, s1)" and ok: "conn_ok ps1" and buf: "ps_buf ps1 = Some buf"
    and len: "ps_buf_pos ps1 + PIPE_BUF \<le> length buf"
    and fd: "ps_fdin ps1 = fd" and l: "cl_read C (ps_log s1) fd = cl_read C (ps_log s) fd" and bytes: "got C fd s 0 = Some b"
  obtains ps' b' where "parse_read1 E C ps s = Some (rd_of (Some b), ps', pio_do (Pio_read fd) s1)" "same_conn ps1 ps'"
    "conn_ok ps'" "ps_buf ps' = Some b'" "pending ps' = pending ps1 @ b"
    "rd_of (Some b) \<noteq> Rd_again \<Longrightarrow> ps_buf_pos ps' < length b'"
proof -
  obtain bs where bs: "cl_read C (ps_log s) fd = Some bs" "b = take PIPE_BUF bs" using bytes by (auto simp: got_def)
  let ?buf = "take (ps_buf_pos ps1) buf @ b @ drop (ps_buf_pos ps1 + length b) buf"
  let ?ps = "ps1\<lparr>ps_buf := Some ?buf, ps_buf_pos := ps_buf_pos ps1 + length b\<rparr>"
  have small: "length b \<le> PIPE_BUF" by (simp add: bs(2))
  have run: "parse_read1 E C ps s = Some (rd_of (Some b), ?ps, pio_do (Pio_read fd) s1)"
    using g buf len l fd bs by (simp add: parse_read1_def Let_def rd_of_def)
  have lb: "length ?buf = length buf" using len small by simp
  have "length buf = ps_buf_len ps1" using ok buf by (simp add: conn_ok_def)
  then have ok': "conn_ok ?ps" using ok len small lb unfolding conn_ok_def by simp
  have "ps_buf_pos ps1 \<le> length buf" using len by simp
  then have pend: "pending ?ps = pending ps1 @ b" unfolding pending_def by (simp add: buf min_def)
  show ?thesis
  proof (rule that[OF run _ ok' _ pend])
    show "ps_buf_pos ?ps < length ?buf" if "rd_of (Some b) \<noteq> Rd_again"
    proof -
      have "length b < PIPE_BUF" using that small by (simp add: rd_of_def split: if_splits)
      with len lb show ?thesis by simp
    qed
  qed (simp_all add: same_conn_def)
qed

lemma read1_spec:
  assumes ok: "conn_ok ps" and fd: "fd = ps_fdin ps"
  obtains (die) ps' s' where "parse_read1 E C ps s = Some (Rd_die, ps', s')" "same_conn ps ps'" "reads C fd 0 s s'"
      "conn_ok (ps'\<lparr>ps_buf_pos := 0\<rparr>)" "PARSE_BUF_MAX < ps_buf_pos ps + PIPE_BUF \<or> \<not> calloc_ok E (next_addr s)"
    | (stuck) s' where "parse_read1 E C ps s = Some (rd_null (got C fd s 0), ps, s')" "\<not> usable ps" "reads C fd 1 s s'"
    | (read) ps' s' b where "parse_read1 E C ps s = Some (rd_of (got C fd s 0), ps', s')" "same_conn ps ps'" "reads C fd 1 s s'"
      "conn_ok ps'" "usable ps" "ps_buf ps' = Some b" "next_addr s' \<le> next_addr s + 1"
      "pending ps' = pending ps @ (case got C fd s 0 of None \<Rightarrow> [] | Some b \<Rightarrow> b)"
      "rd_of (got C fd s 0) \<noteq> Rd_again \<Longrightarrow> ps_buf_pos ps' < length b"
proof -
  obtain d ps1 s1 where g: "parse_grow E C ps s = (d, ps1, s1)" by (cases "parse_grow E C ps s")
  note grow = parse_grow_spec[OF ok g]
  show ?thesis
  proof (cases d)
    case True
    show ?thesis
      by (rule die[of ps1 s1]) (use True g grow in \<open>auto simp: parse_read1_def\<close>)
  next
    case False
    let ?s' = "pio_do (Pio_read fd) s1"
    have fd1: "ps_fdin ps1 = fd" using grow(1) fd by (simp add: same_conn_def)
    have r: "reads C fd 1 s ?s'" using reads_read grow(1) by blast
    have n: "next_addr ?s' \<le> next_addr s + 1" using grow(1) by (simp add: pio_do_def)
    have l: "cl_read C (ps_log s1) fd = cl_read C (ps_log s) fd" using reads_log grow(1) by fastforce
    show ?thesis
    proof (cases "ps_buf ps1")
      case None
      then have no: "\<not> usable ps" using grow(5) False unfolding usable_def by blast
      moreover have "ps1 = ps" using stuck_grow[OF ok no, of E C s] g by simp
      moreover have "got C fd s 0 = Some [] \<longleftrightarrow> cl_read C (ps_log s1) fd = Some []"
        using l by (auto simp: got_def PIPE_BUF_def)
      ultimately show ?thesis
        using g False None r fd1 by (intro stuck[of ?s']) (simp_all add: parse_read1_def rd_null_def Let_def)
    next
      case (Some buf)
      then have len: "ps_buf_pos ps1 + PIPE_BUF \<le> length buf" using grow(4) False by blast
      have u: "usable ps"
      proof (rule ccontr)
        assume no: "\<not> usable ps"
        with stuck_grow[OF ok no, of E C s] g Some show False by (simp add: usable_def)
      qed
      have p1: "conn_ok ps1" "pending ps1 = pending ps" using grow(3) False by auto
      show ?thesis
      proof (cases "cl_read C (ps_log s) fd")
        case None
        then have "parse_read1 E C ps s = Some (rd_of (got C fd s 0), ps1, ?s')" "got C fd s 0 = None"
          using g False Some len l fd1 by (simp_all add: parse_read1_def Let_def got_def rd_of_def)
        moreover have "ps_buf_pos ps1 < length buf" using len by (simp add: PIPE_BUF_def)
        ultimately show ?thesis using u p1 r n grow(1) Some by (intro read[of ps1 ?s' buf]) simp_all
      next
        case bytes: (Some bytes)
        have gt: "got C fd s 0 = Some (take PIPE_BUF bytes)" using bytes by (simp add: got_def)
        obtain ps' b' where b: "parse_read1 E C ps s = Some (rd_of (Some (take PIPE_BUF bytes)), ps', ?s')" "same_conn ps1 ps'"
          "conn_ok ps'" "ps_buf ps' = Some b'" "pending ps' = pending ps1 @ take PIPE_BUF bytes"
          "rd_of (Some (take PIPE_BUF bytes)) \<noteq> Rd_again \<Longrightarrow> ps_buf_pos ps' < length b'"
          using read1_block[OF g[simplified False] p1(1) Some len fd1 l gt] by blast
        have "same_conn ps ps'" using grow(1) b(2) by (simp add: same_conn_def)
        with b p1(2) u r n gt show ?thesis by (intro read[of ps' ?s' b']) simp_all
      qed
    qed
  qed
qed

text \<open>How reading ends: giving up after \<open>n\<close> full blocks, or with a last block after \<open>n\<close> full ones.\<close>

definition read_died ::
  "env \<Rightarrow> client \<Rightarrow> int \<Rightarrow> parse \<Rightarrow> 'a xdp_state_scheme \<Rightarrow> nat \<Rightarrow> parse \<Rightarrow> 'a xdp_state_scheme \<Rightarrow> bool" where
  "read_died E C fd ps s n ps' s' \<longleftrightarrow> parse_read E C ps s = Some (Rd_die, ps', s') \<and> same_conn ps ps' \<and>
     reads C fd n s s' \<and> conn_ok (ps'\<lparr>ps_buf_pos := 0\<rparr>) \<and> (\<forall>i < n. rd_of (got C fd s i) = Rd_again) \<and>
     (PARSE_BUF_MAX < length (pending ps @ arrived C fd s n) + PIPE_BUF \<or>
      (\<exists>m. next_addr s \<le> m \<and> m \<le> next_addr s + n \<and> \<not> calloc_ok E m))"

definition read_ended ::
  "env \<Rightarrow> client \<Rightarrow> int \<Rightarrow> parse \<Rightarrow> 'a xdp_state_scheme \<Rightarrow> nat \<Rightarrow> parse \<Rightarrow> 'a xdp_state_scheme \<Rightarrow> byte list \<Rightarrow> bool" where
  "read_ended E C fd ps s n ps' s' b \<longleftrightarrow> parse_read E C ps s = Some (rd_of (got C fd s n), ps', s') \<and> same_conn ps ps' \<and>
     reads C fd (Suc n) s s' \<and> conn_ok ps' \<and> (\<forall>i < n. rd_of (got C fd s i) = Rd_again) \<and>
     rd_of (got C fd s n) \<noteq> Rd_again \<and> pending ps' = pending ps @ arrived C fd s (Suc n) \<and>
     ps_buf ps' = Some b \<and> ps_buf_pos ps' < length b"

text \<open>One full block more.\<close>

definition read_block :: "env \<Rightarrow> client \<Rightarrow> int \<Rightarrow> parse \<Rightarrow> 'a xdp_state_scheme \<Rightarrow> parse \<Rightarrow> 'a xdp_state_scheme \<Rightarrow> bool" where
  "read_block E C fd ps s ps1 s1 \<longleftrightarrow> parse_read E C ps s = parse_read E C ps1 s1 \<and> same_conn ps ps1 \<and>
     reads C fd 1 s s1 \<and> next_addr s1 \<le> next_addr s + 1 \<and> rd_of (got C fd s 0) = Rd_again \<and>
     pending ps1 = pending ps @ (case got C fd s 0 of None \<Rightarrow> [] | Some b \<Rightarrow> b)"

lemma read_block_again:
  assumes "read_block E C fd ps s ps1 s1" and "\<forall>i < n. rd_of (got C fd s1 i) = Rd_again"
  shows "\<forall>i < Suc n. rd_of (got C fd s i) = Rd_again"
  using assms got_reads[of C fd 1 s s1] by (auto simp: read_block_def less_Suc_eq_0_disj)

lemma read_block_died:
  assumes B: "read_block E C fd ps s ps1 s1" and D: "read_died E C fd ps1 s1 n ps' s'"
  shows "read_died E C fd ps s (Suc n) ps' s'"
proof -
  note b = B[unfolded read_block_def] and d = D[unfolded read_died_def]
  have le: "next_addr s \<le> next_addr s1" using b unfolding reads_def by auto
  have a: "arrived C fd s (Suc n) = (case got C fd s 0 of None \<Rightarrow> [] | Some b \<Rightarrow> b) @ arrived C fd s1 n"
    using b by (intro arrived_reads) simp
  have "PARSE_BUF_MAX < length (pending ps @ arrived C fd s (Suc n)) + PIPE_BUF \<or>
      (\<exists>m. next_addr s \<le> m \<and> m \<le> next_addr s + Suc n \<and> \<not> calloc_ok E m)"
  proof (cases "PARSE_BUF_MAX < length (pending ps1 @ arrived C fd s1 n) + PIPE_BUF")
    case True
    with a b show ?thesis by simp
  next
    case False
    with d obtain m where "next_addr s1 \<le> m" "m \<le> next_addr s1 + n" "\<not> calloc_ok E m" by blast
    with le b show ?thesis by (intro disjI2 exI[of _ m]) simp
  qed
  moreover have "reads C fd (Suc n) s s'" using reads_trans[of C fd 1 s s1 n s'] b d by simp
  moreover have "\<forall>i < Suc n. rd_of (got C fd s i) = Rd_again" using read_block_again[OF B] d by blast
  ultimately show ?thesis using b d unfolding read_died_def by (simp add: same_conn_def)
qed

lemma read_block_ended:
  assumes B: "read_block E C fd ps s ps1 s1" and D: "read_ended E C fd ps1 s1 n ps' s' b"
  shows "read_ended E C fd ps s (Suc n) ps' s' b"
proof -
  note b = B[unfolded read_block_def] and d = D[unfolded read_ended_def]
  have a: "arrived C fd s (Suc (Suc n)) = (case got C fd s 0 of None \<Rightarrow> [] | Some b \<Rightarrow> b) @ arrived C fd s1 (Suc n)"
    using b by (intro arrived_reads) simp
  have g: "got C fd s (Suc n) = got C fd s1 n" using got_reads[of C fd 1 s s1 n] b by simp
  moreover have "reads C fd (Suc (Suc n)) s s'" using reads_trans[of C fd 1 s s1 "Suc n" s'] b d by simp
  moreover have "\<forall>i < Suc n. rd_of (got C fd s i) = Rd_again" using read_block_again[OF B] d by blast
  ultimately show ?thesis using a b d unfolding read_ended_def by (simp add: same_conn_def)
qed

lemma parse_read_spec:
  assumes "conn_ok ps" and "fd = ps_fdin ps"
  shows "(\<exists>n ps' s'. read_died E C fd ps s n ps' s') \<or>
    (\<exists>s'. parse_read E C ps s = Some (rd_null (got C fd s 0), ps, s') \<and> \<not> usable ps \<and> reads C fd 1 s s') \<or>
    (\<exists>n ps' s' b. read_ended E C fd ps s n ps' s' b \<and> usable ps)"
  using assms
proof (induction E C ps s rule: parse_read.induct)
  case (1 E C ps s)
  have len: "length (pending ps) = ps_buf_pos ps"
    using "1.prems"(1) by (auto simp: pending_def conn_ok_def split: option.splits)
  note unfold = parse_read.simps[of E C ps s]
  show ?case
    using "1.prems"
  proof (rule read1_spec[where E = E and C = C and s = s])
    fix ps' s' assume "parse_read1 E C ps s = Some (Rd_die, ps', s')" "same_conn ps ps'" "reads C fd 0 s s'"
      "conn_ok (ps'\<lparr>ps_buf_pos := 0\<rparr>)" "PARSE_BUF_MAX < ps_buf_pos ps + PIPE_BUF \<or> \<not> calloc_ok E (next_addr s)"
    then have "read_died E C fd ps s 0 ps' s'" using len by (auto simp: read_died_def unfold)
    then show ?case by blast
  next
    fix s' assume "parse_read1 E C ps s = Some (rd_null (got C fd s 0), ps, s')" "\<not> usable ps" "reads C fd 1 s s'"
    then show ?case by (simp add: unfold rd_null_def)
  next
    fix ps' s' b assume r: "parse_read1 E C ps s = Some (rd_of (got C fd s 0), ps', s')" "same_conn ps ps'" "reads C fd 1 s s'"
      "conn_ok ps'" "usable ps" "ps_buf ps' = Some b" "next_addr s' \<le> next_addr s + 1"
      "pending ps' = pending ps @ (case got C fd s 0 of None \<Rightarrow> [] | Some b \<Rightarrow> b)"
      "rd_of (got C fd s 0) \<noteq> Rd_again \<Longrightarrow> ps_buf_pos ps' < length b"
    show ?case
    proof (cases "rd_of (got C fd s 0) = Rd_again")
      case False
      with r arrived_reads[OF r(3), of 0] have "read_ended E C fd ps s 0 ps' s' b" by (simp add: read_ended_def unfold)
      with r(5) show ?thesis by blast
    next
      case True
      have B: "read_block E C fd ps s ps' s'" using r True by (simp add: read_block_def unfold)
      have "fd = ps_fdin ps'" "usable ps'" using r(2,6) "1.prems"(2) by (simp_all add: same_conn_def usable_def)
      with "1.IH"[OF r(1) refl refl True r(4)] show ?thesis
        using read_block_died[OF B] read_block_ended[OF B] r(5) by blast
    qed
  qed
qed

subsection \<open>The end of a document\<close>

definition doc_tails :: "string list" where
  "doc_tails = [[CHR 0x0A, CHR 0x0A], [CHR 0x0D, CHR 0x0A, CHR 0x0D, CHR 0x0A], ''...'' @ [CHR 0x0A], ''...'' @ [CHR 0x0D, CHR 0x0A]]"

definition doc_complete :: "byte list \<Rightarrow> bool" where
  "doc_complete doc \<longleftrightarrow> (\<exists>t \<in> set doc_tails. suffix (map byte_of_char t) doc)"

lemma strncmp_spec:
  assumes "0 \<notin> set (map byte_of_char a)" and "length a \<le> length b"
  shows "\<exists>c. strncmp a b (length a) = Some c \<and> (c = 0 \<longleftrightarrow> take (length a) b = map byte_of_char a)"
  using assms
proof (induction a arbitrary: b)
  case (Cons x a)
  obtain y b' where b: "b = y # b'" using Cons.prems(2) by (cases b) auto
  show ?case
  proof (cases "byte_of_char x = y")
    case True
    with Cons.prems b Cons.IH[of b'] show ?thesis by auto
  next
    case False
    then have "uint (byte_of_char x) \<noteq> uint y" by (simp add: word_uint_eq_iff)
    with False b show ?thesis by auto
  qed
qed simp

lemma suffix_iff_drop: "length xs \<le> length ys \<Longrightarrow> suffix xs ys \<longleftrightarrow> drop (length ys - length xs) ys = xs"
  by (metis append_eq_conv_conj append_take_drop_id length_drop suffix_drop suffix_take append_same_eq)

lemma parse_cmptail_spec:
  assumes "0 \<notin> set (map byte_of_char check)" and "pos \<le> length b"
  shows "\<exists>c. parse_cmptail check (Some b) pos = Some c \<and> (c = 0 \<longleftrightarrow> suffix (map byte_of_char check) (take pos b))"
proof (cases "length check \<le> pos")
  case False
  then have "parse_cmptail check (Some b) pos = Some (-1)" by (simp add: parse_cmptail_def min_def)
  moreover have "\<not> suffix (map byte_of_char check) (take pos b)" using False by (auto dest: suffix_length_le)
  ultimately show ?thesis by simp
next
  case True
  let ?m = "map byte_of_char check"
  have "parse_cmptail check (Some b) pos = strncmp check (drop (pos - length check) b) (length check)"
    using True by (simp add: parse_cmptail_def min_def Let_def)
  moreover have "take (length check) (drop (pos - length check) b) = drop (pos - length check) (take pos b)"
    using True by (simp add: drop_take)
  moreover have "drop (pos - length check) (take pos b) = ?m \<longleftrightarrow> suffix ?m (take pos b)"
    using True assms(2) by (simp add: suffix_iff_drop)
  ultimately show ?thesis using strncmp_spec[OF assms(1), of "drop (pos - length check) b"] True assms(2) by simp
qed

lemma parse_complete_spec:
  assumes "pos \<le> length b"
  shows "parse_complete (Some b) pos = Some (doc_complete (take pos b))"
proof -
  have tail: "\<exists>c. parse_cmptail t (Some b) pos = Some c \<and> (c = 0 \<longleftrightarrow> suffix (map byte_of_char t) (take pos b))"
    if "t \<in> set doc_tails" for t
    by (rule parse_cmptail_spec[OF _ assms]) (use that in \<open>auto simp: doc_tails_def byte_of_char_def\<close>)
  obtain a where a: "parse_cmptail [CHR 0x0A, CHR 0x0A] (Some b) pos = Some a"
    "a = 0 \<longleftrightarrow> suffix (map byte_of_char [CHR 0x0A, CHR 0x0A]) (take pos b)"
    using tail[of "[CHR 0x0A, CHR 0x0A]"] by (auto simp: doc_tails_def)
  obtain c where c: "parse_cmptail [CHR 0x0D, CHR 0x0A, CHR 0x0D, CHR 0x0A] (Some b) pos = Some c"
    "c = 0 \<longleftrightarrow> suffix (map byte_of_char [CHR 0x0D, CHR 0x0A, CHR 0x0D, CHR 0x0A]) (take pos b)"
    using tail[of "[CHR 0x0D, CHR 0x0A, CHR 0x0D, CHR 0x0A]"] by (auto simp: doc_tails_def)
  obtain d where d: "parse_cmptail (''...'' @ [CHR 0x0A]) (Some b) pos = Some d"
    "d = 0 \<longleftrightarrow> suffix (map byte_of_char (''...'' @ [CHR 0x0A])) (take pos b)"
    using tail[of "''...'' @ [CHR 0x0A]"] by (auto simp: doc_tails_def)
  obtain x where x: "parse_cmptail (''...'' @ [CHR 0x0D, CHR 0x0A]) (Some b) pos = Some x"
    "x = 0 \<longleftrightarrow> suffix (map byte_of_char (''...'' @ [CHR 0x0D, CHR 0x0A])) (take pos b)"
    using tail[of "''...'' @ [CHR 0x0D, CHR 0x0A]"] by (auto simp: doc_tails_def)
  have "doc_complete (take pos b) \<longleftrightarrow> a = 0 \<or> c = 0 \<or> d = 0 \<or> x = 0"
    unfolding doc_complete_def doc_tails_def a(2) c(2) d(2) x(2) by simp
  then show ?thesis unfolding parse_complete_def by (simp only: a(1) c(1) d(1) x(1) bind.bind_lunit) auto
qed

subsection \<open>A callback\<close>

lemma parse_read_stuck:
  assumes ok: "conn_ok ps" and no: "\<not> usable ps" and fd: "fd = ps_fdin ps"
  shows "\<exists>s'. parse_read E C ps s = Some (rd_null (got C fd s 0), ps, s') \<and> reads C fd 1 s s'"
proof -
  note g = stuck_grow[OF ok no, of E C s]
  have "reads C fd 1 s (pio_do (Pio_read fd) s)" by (rule reads_read) simp
  moreover have "parse_read E C ps s = Some (rd_null (got C fd s 0), ps, pio_do (Pio_read fd) s)"
    using no fd by (auto simp: parse_read.simps[of E C ps s] parse_read1_def g usable_def rd_null_def got_def PIPE_BUF_def Let_def)
  ultimately show ?thesis by blast
qed

lemma usable_steps:
  assumes ok: "conn_ok ps" and fd: "fd = ps_fdin ps" and u: "usable ps"
    and full: "\<forall>i < n. rd_of (got C fd s i) = Rd_again" and last: "rd_of (got C fd s n) \<noteq> Rd_again"
    and room: "length (pending ps) + (n + 1) * PIPE_BUF \<le> PARSE_BUF_MAX"
    and mem: "\<forall>m. next_addr s \<le> m \<and> m \<le> next_addr s + n \<longrightarrow> calloc_ok E m"
  obtains ps' s' b where "parse_read E C ps s = Some (rd_of (got C fd s n), ps', s')" "same_conn ps ps'"
    "reads C fd (Suc n) s s'" "conn_ok ps'" "pending ps' = pending ps @ arrived C fd s (Suc n)" "ps_buf ps' = Some b"
    "ps_buf_pos ps' < length b"
proof -
  have len: "length (arrived C fd s k) = k * PIPE_BUF" if "\<forall>i < k. rd_of (got C fd s i) = Rd_again" for k
    using that
  proof (induction k)
    case (Suc k)
    then have "rd_of (got C fd s k) = Rd_again" "length (arrived C fd s k) = k * PIPE_BUF" by simp_all
    then show ?case by (auto simp: arrived_def rd_of_def split: option.splits if_splits)
  qed simp
  have upto: "k \<le> n" if "\<forall>i < k. rd_of (got C fd s i) = Rd_again" for k
    using last that by (meson leI)
  from parse_read_spec[OF ok fd, of E C s] u consider
    (die) k ps' s' where "parse_read E C ps s = Some (Rd_die, ps', s')" "\<forall>i < k. rd_of (got C fd s i) = Rd_again"
      "PARSE_BUF_MAX < length (pending ps @ arrived C fd s k) + PIPE_BUF \<or>
        (\<exists>m. next_addr s \<le> m \<and> m \<le> next_addr s + k \<and> \<not> calloc_ok E m)"
    | (read) k ps' s' b where "parse_read E C ps s = Some (rd_of (got C fd s k), ps', s')" "same_conn ps ps'"
      "reads C fd (Suc k) s s'" "conn_ok ps'" "\<forall>i < k. rd_of (got C fd s i) = Rd_again" "rd_of (got C fd s k) \<noteq> Rd_again"
      "pending ps' = pending ps @ arrived C fd s (Suc k)" "ps_buf ps' = Some b" "ps_buf_pos ps' < length b"
    unfolding read_died_def read_ended_def by blast
  then show ?thesis
  proof cases
    case die
    have k: "k \<le> n" by (rule upto[OF die(2)])
    with len[OF die(2)] room have "\<not> PARSE_BUF_MAX < length (pending ps @ arrived C fd s k) + PIPE_BUF"
      by (simp add: PIPE_BUF_def)
    with die(3) mem k show ?thesis by (meson add_le_cancel_left le_trans)
  next
    case read
    have "k = n" using upto[OF read(5)] full read(6) by (meson le_less)
    with read that show ?thesis by blast
  qed
qed

text \<open>
  A failed \<open>realloc\<close> leaves a connection stuck: its buffer is NULL, but its length is not 0, so it
  is never allocated again, and every callback reads nothing and keeps the connection, as if there
  were nothing to read, until the input is at its end.
\<close>

lemma parse_callback_stuck:
  assumes "conn_ok ps" and "parse_heap s p = Some ps" and "\<not> usable ps"
  obtains s' where
    "parse_callback E os C p s = Some (if got C (ps_fdin ps) s 0 = Some [] then 1 else 0, parse_put p ps s')"
    "reads C (ps_fdin ps) 1 s s'"
proof -
  have none: "ps_buf ps = None" "ps_buf_pos ps = 0" using assms by (auto simp: usable_def conn_ok_def)
  obtain s' where r: "parse_read E C ps s = Some (rd_null (got C (ps_fdin ps) s 0), ps, s')" "reads C (ps_fdin ps) 1 s s'"
    using parse_read_stuck[OF assms(1,3) refl, of E C s] by blast
  have "parse_complete None 0 = Some False" by (simp add: parse_complete_def parse_cmptail_def Let_def)
  with r(1) assms(2) none
  have "parse_callback E os C p s = Some (if got C (ps_fdin ps) s 0 = Some [] then 1 else 0, parse_put p ps s')"
    by (simp add: parse_callback_def rd_null_def)
  with r(2) that show ?thesis by blast
qed

text \<open>
  The end of a document is compared with the last bytes that arrived, whatever is before them:
  three dots need not be on a line of their own.
\<close>

lemma doc_complete_dots: "doc_complete (bs @ map byte_of_char (''...'' @ [CHR 0x0A]))"
  by (auto simp: doc_complete_def doc_tails_def suffix_def)

text \<open>
  C8: how the stream of a connection is cut into documents, while there is memory for the buffer
  and the buffer stays below its largest size. One callback reads until a block is short;
  the bytes are appended to those that were pending, in order and without gaps. At the
  end of the input the connection is given up; when the bytes end in one of the four ends
  of a document (an empty line or three dots, with LF or CRLF, also when the dots end a longer
  line, unlike the comment in the code says), exactly they are executed, and nothing stays
  pending; else they wait for more.
\<close>

theorem parse_callback_stream:
  assumes "parse_heap s p = Some ps" and "conn_ok ps" and "usable ps" and "fd = ps_fdin ps"
    and "\<forall>i < n. rd_of (got C fd s i) = Rd_again" and "rd_of (got C fd s n) \<noteq> Rd_again"
    and "length (pending ps) + (n + 1) * PIPE_BUF \<le> PARSE_BUF_MAX"
    and "\<forall>m. next_addr s \<le> m \<and> m \<le> next_addr s + n \<longrightarrow> calloc_ok E m"
  shows "\<exists>ps' s'. conn_ok ps' \<and> same_conn ps ps' \<and> reads C fd (Suc n) s s' \<and>
    pending ps' = pending ps @ arrived C fd s (Suc n) \<and>
    parse_callback E os C p s =
      (if got C fd s n = Some [] then Some (1, parse_put p ps' s')
       else if doc_complete (pending ps')
       then map_option (\<lambda>(e, t). (0, parse_put p (ps'\<lparr>ps_buf_pos := 0\<rparr>) t))
              (parse_doc E os C (pending ps') (ps_fdout ps) (parse_put p ps' s'))
       else Some (0, parse_put p ps' s'))"
proof -
  obtain ps1 s1 b where r: "parse_read E C ps s = Some (rd_of (got C fd s n), ps1, s1)" "same_conn ps ps1"
    "reads C fd (Suc n) s s1" "conn_ok ps1" "pending ps1 = pending ps @ arrived C fd s (Suc n)" "ps_buf ps1 = Some b"
    "ps_buf_pos ps1 < length b" by (rule usable_steps[OF assms(2,4,3,5-8)])
  have rd: "rd_of (got C fd s n) \<noteq> Rd_die" by (auto simp: rd_of_def split: option.splits)
  have eof: "rd_of (got C fd s n) = Rd_last 0 \<longleftrightarrow> got C fd s n = Some []"
    by (auto simp: rd_of_def PIPE_BUF_def split: option.splits)
  have pend: "pending ps1 = take (ps_buf_pos ps1) b" using r(6) by (simp add: pending_def)
  have c: "parse_complete (ps_buf ps1) (ps_buf_pos ps1) = Some (doc_complete (pending ps1))"
    using parse_complete_spec[of "ps_buf_pos ps1" b] r(6,7) pend by simp
  let ?nul = "ps1\<lparr>ps_buf := Some (b[ps_buf_pos ps1 := 0])\<rparr>"
  show ?thesis
  proof (cases "got C fd s n \<noteq> Some [] \<and> doc_complete (pending ps1)")
    case True
    have out: "ps_fdout ps1 = ps_fdout ps" using r(2) by (simp add: same_conn_def)
    have "pending ?nul = pending ps1" "conn_ok ?nul" "same_conn ps ?nul"
      using pend r(2,4,6) by (auto simp: pending_def conn_ok_def same_conn_def)
    moreover have "parse_callback E os C p s = map_option (\<lambda>(e, t). (0, parse_put p (?nul\<lparr>ps_buf_pos := 0\<rparr>) t))
        (parse_doc E os C (pending ?nul) (ps_fdout ps) (parse_put p ?nul s1))"
      using r(1,6,7) rd eof c True assms(1) pend out \<open>pending ?nul = pending ps1\<close>
      by (simp add: parse_callback_def map_option_case case_prod_unfold split: option.split)
    ultimately show ?thesis using True r(3,5) by (intro exI[of _ ?nul] exI[of _ s1]) simp
  next
    case False
    have "parse_callback E os C p s =
        (if got C fd s n = Some [] then Some (1, parse_put p ps1 s1) else Some (0, parse_put p ps1 s1))"
      using r(1) rd eof c False assms(1) by (auto simp: parse_callback_def)
    then show ?thesis using r False by (intro exI[of _ ps1] exI[of _ s1]) auto
  qed
qed

definition conn0 :: parse where
  "conn0 = \<lparr>ps_fdin = 4, ps_fdout = 5, ps_buf = None, ps_buf_len = 0, ps_buf_pos = 0\<rparr>"

definition client1 :: client where
  "client1 = \<lparr>cl_read = (\<lambda>log fd. Some (if log = [] then replicate PIPE_BUF 32 else map byte_of_char (''...'' @ [CHR 0x0A]))),
     cl_write = (\<lambda>log fd b. int (length b)), yl_load = (\<lambda>b. None), yl_dump = (\<lambda>n. []), cl_junk = 0,
     cl_dup = (\<lambda>log fd. 3 + int (length log)), cl_accept = (\<lambda>log. 3 + int (length log)), cl_register = (\<lambda>log fd p. 0),
     tk_free = (\<lambda>l log. []), cl_addrinfo = (\<lambda>a. Some [0]), cl_socket = (\<lambda>log a. 3 + int (length log)),
     cl_sockop = (\<lambda>log fd x. True), cl_listen = (\<lambda>log fd. 0)\<rparr>"

definition xdp_state1 :: xdp_state where
  "xdp_state1 = process_state.extend process_state1 \<lparr>parse_heap = [5 \<mapsto> conn0], ps_log = []\<rparr>"

lemma xdp_state1_sel:
  "next_addr xdp_state1 = 6" "parse_heap xdp_state1 = [5 \<mapsto> conn0]" "ps_log xdp_state1 = []"
  by (simp_all add: xdp_state1_def process_state.defs process_state1_def)

theorem parse_callback_stream_witness:
  "\<exists>ps' s'. parse_callback env0 os0 client1 5 xdp_state1 = Some (0, parse_put 5 ps' s') \<and> ps_buf_pos ps' = 0"
proof -
  have got: "got client1 4 xdp_state1 0 = Some (replicate PIPE_BUF 32)"
    "got client1 4 xdp_state1 (Suc 0) = Some (map byte_of_char (''...'' @ [CHR 0x0A]))"
    by (simp_all add: got_def client1_def xdp_state1_sel PIPE_BUF_def)
  have len: "length (map byte_of_char (''...'' @ [CHR 0x0A])) = 4" by simp
  have ok: "parse_heap xdp_state1 5 = Some conn0" "conn_ok conn0" "usable conn0" "4 = ps_fdin conn0"
    by (simp_all add: xdp_state1_sel conn0_def conn_ok_def usable_def)
  have full: "\<forall>i < Suc 0. rd_of (got client1 4 xdp_state1 i) = Rd_again" using got by (simp add: rd_of_def)
  have last: "rd_of (got client1 4 xdp_state1 (Suc 0)) \<noteq> Rd_again" by (simp add: got(2) rd_of_def PIPE_BUF_def)
  have room: "length (pending conn0) + (Suc 0 + 1) * PIPE_BUF \<le> PARSE_BUF_MAX"
    by (simp add: pending_def conn0_def PIPE_BUF_def PARSE_BUF_MAX_def)
  have mem: "\<forall>m. next_addr xdp_state1 \<le> m \<and> m \<le> next_addr xdp_state1 + Suc 0 \<longrightarrow> calloc_ok env0 m"
    by (auto simp: xdp_state1_sel env0_def)
  have doc: "doc_complete (pending conn0 @ arrived client1 4 xdp_state1 (Suc (Suc 0)))"
    using got by (auto simp: doc_complete_def doc_tails_def arrived_def suffix_def)
  from parse_callback_stream[OF ok full last room mem, of os0] obtain ps' s' where
    "pending ps' = pending conn0 @ arrived client1 4 xdp_state1 (Suc (Suc 0))"
    "parse_callback env0 os0 client1 5 xdp_state1 = map_option (\<lambda>(e, t). (0, parse_put 5 (ps'\<lparr>ps_buf_pos := 0\<rparr>) t))
       (parse_doc env0 os0 client1 (pending ps') (ps_fdout conn0) (parse_put 5 ps' s'))"
    using doc got(2) by auto
  then have "parse_callback env0 os0 client1 5 xdp_state1 =
      Some (0, parse_put 5 (ps'\<lparr>ps_buf_pos := 0\<rparr>) (parse_put 5 ps' s'))"
    by (simp add: parse_doc_def client1_def parse_reply_def)
  then show ?thesis by (intro exI[of _ "ps'\<lparr>ps_buf_pos := 0\<rparr>"] exI[of _ "parse_put 5 ps' s'"]) simp
qed

end
