(* ===== verification/Xdpacket.thy ===== *)
theory Xdpacket
  imports Connections
begin

text \<open>
  src/xdpacket.c, with the exit functions of src/memref.c: the events of the main loop and
  what is done at the end. The epoll tracker is outside: it calls a callback for a
  descriptor that is ready; when that returns non-0 it forgets the descriptor and runs
  the destructor; \<open>eptk_free\<close> runs the destructors of all that is registered.
\<close>

subsection \<open>Connecting\<close>

definition netsock_callback :: "env \<Rightarrow> client \<Rightarrow> 'a xdp_state_scheme \<Rightarrow> (int \<times> 'a xdp_state_scheme) option" where
  "netsock_callback E C s =
     (let newfd = cl_accept C (ps_log s); s = pio_do (Pio_accept newfd) s in
      if newfd < 1 then do { s \<leftarrow> parse_free None s; Some (1, s) }
      else case parse_new E newfd newfd s of
        (None, s) \<Rightarrow> do { s \<leftarrow> parse_free None (pio_do (Pio_close newfd) s); Some (1, s) }
      | (Some p, s) \<Rightarrow>
          do { ps \<leftarrow> parse_heap s p;
               let rc = cl_register C (ps_log s) (ps_fdin ps) p;
               let s = pio_do (Pio_register (ps_fdin ps) p rc) s;
               if rc \<noteq> 0 then
                 do { let s = parse_put p (ps\<lparr>ps_fdin := -1, ps_fdout := -1\<rparr>) (pio_do (Pio_close newfd) s);
                      s \<leftarrow> parse_free (Some p) s;
                      Some (1, s) }
               else Some (0, s) })"

text \<open>
  The first half of \<open>main\<close>, from standard input and output to the registration of their
  connection. It returns whether the loop is entered.
\<close>

definition main_setup :: "env \<Rightarrow> client \<Rightarrow> 'a xdp_state_scheme \<Rightarrow> (bool \<times> 'a xdp_state_scheme) option" where
  "main_setup E C s =
     (let fdin = cl_dup C (ps_log s) 0; s = pio_do (Pio_dup fdin) s;
          fdout = cl_dup C (ps_log s) 1; s = pio_do (Pio_dup fdout) s in
      case parse_new E fdin fdout s of
        (None, s) \<Rightarrow> Some (False, s)
      | (Some p, s) \<Rightarrow>
          do { ps \<leftarrow> parse_heap s p;
               let rc = cl_register C (ps_log s) (ps_fdin ps) p;
               Some (rc = 0, pio_do (Pio_register (ps_fdin ps) p rc) s) })"

text \<open>
  The listening sockets: every address of the argument gets one. A socket whose preparation fails is
  left open.
\<close>

definition sockops_ok :: "client \<Rightarrow> pio list \<Rightarrow> int \<Rightarrow> nat \<Rightarrow> bool" where
  "sockops_ok C l sockfd info \<longleftrightarrow> cl_sockop C l sockfd Sock_fcntl \<and> cl_sockop C l sockfd Sock_reuse \<and>
     cl_sockop C l sockfd (Sock_bind info) \<and> cl_sockop C l sockfd Sock_listen"

fun netsock_each :: "client \<Rightarrow> nat list \<Rightarrow> 'a xdp_state_scheme \<Rightarrow> nat \<times> 'a xdp_state_scheme" where
  "netsock_each C [] s = (0, s)"
| "netsock_each C (info # infos) s =
     (let sockfd = cl_socket C (ps_log s) info; s = pio_do (Pio_socket sockfd) s in
      if sockfd < 1 then (1, s)
      else if \<not> sockops_ok C (ps_log s) sockfd info then (1, s)
      else (let rc = cl_listen C (ps_log s) sockfd; s = pio_do (Pio_listen sockfd rc) s
            in if rc \<noteq> 0 then (1, s) else netsock_each C infos s))"

definition netsock :: "client \<Rightarrow> string \<Rightarrow> 'a xdp_state_scheme \<Rightarrow> nat \<times> 'a xdp_state_scheme" where
  "netsock C ip_addr s = (case cl_addrinfo C ip_addr of None \<Rightarrow> (1, s) | Some servinfo \<Rightarrow> netsock_each C servinfo s)"

text \<open>What \<open>getopt_long\<close> returns, one after the other; whether the loop is entered.\<close>

datatype opt = Opt_ip string | Opt_help | Opt_invalid

fun main_options :: "client \<Rightarrow> opt list \<Rightarrow> 'a xdp_state_scheme \<Rightarrow> bool \<times> 'a xdp_state_scheme" where
  "main_options C [] s = (True, s)"
| "main_options C (Opt_ip optarg # opts) s =
     (let (e, s) = netsock C optarg s in if e \<noteq> 0 then (False, s) else main_options C opts s)"
| "main_options C (Opt_help # opts) s = (False, s)"
| "main_options C (Opt_invalid # opts) s = (False, s)"

definition main_start :: "env \<Rightarrow> client \<Rightarrow> opt list \<Rightarrow> 'a xdp_state_scheme \<Rightarrow> (bool \<times> 'a xdp_state_scheme) option" where
  "main_start E C opts s =
     do { (go, s) \<leftarrow> main_setup E C s;
          Some (if go then main_options C opts s else (False, s)) }"

subsection \<open>Events\<close>

definition iface_event :: "endian \<Rightarrow> os \<Rightarrow> rx \<Rightarrow> addr \<Rightarrow> 'a xdp_state_scheme \<Rightarrow> 'a xdp_state_scheme option" where
  "iface_event en os rx p s =
     do { (r, s) \<leftarrow> iface_callback (call_handler en os) rx p s;
          if r = 0 then Some s
          else do { x \<leftarrow> iface_heap s p; iface_free (Some p) (io_do (Io_remove (if_fd x)) s) } }"

definition parse_event :: "env \<Rightarrow> os \<Rightarrow> client \<Rightarrow> addr \<Rightarrow> 'a xdp_state_scheme \<Rightarrow> 'a xdp_state_scheme option" where
  "parse_event E os C p s =
     do { (r, s) \<leftarrow> parse_callback E os C p s;
          if r = 0 then Some s
          else do { ps \<leftarrow> parse_heap s p; parse_free (Some p) (pio_do (Pio_remove (ps_fdin ps)) s) } }"

subsection \<open>The end\<close>

fun destruct :: "tk_context list \<Rightarrow> 'a xdp_state_scheme \<Rightarrow> 'a xdp_state_scheme option" where
  "destruct [] s = Some s"
| "destruct (Tk_iface p # ks) s = do { s \<leftarrow> iface_free (Some p) s; destruct ks s }"
| "destruct (Tk_parse p # ks) s = do { s \<leftarrow> parse_free (Some p) s; destruct ks s }"

definition eptk_free :: "client \<Rightarrow> 'a xdp_state_scheme \<Rightarrow> 'a xdp_state_scheme option" where
  "eptk_free C s = destruct (tk_free C (io_log s) (ps_log s)) s"

definition main_exit :: "client \<Rightarrow> 'a xdp_state_scheme \<Rightarrow> 'a xdp_state_scheme option" where
  "main_exit C s =
     do { s \<leftarrow> process_free_all s; s \<leftarrow> rule_free_all s; s \<leftarrow> field_free_all s; eptk_free C s }"

text \<open>How many leaked states \<open>memref_check_exit\<close> reports.\<close>

definition memref_check_exit :: "'a memref_state_scheme \<Rightarrow> nat option" where
  "memref_check_exit s =
     js_loop (\<lambda>_. state_JS s) (\<lambda>val n. do { p \<leftarrow> val; ref \<leftarrow> memref_heap s p; Some (n + 1) }) 0"

text \<open>The destructors run in the order of their priorities, from 105 down to 101.\<close>

definition exit_destructors :: "'a xdp_state_scheme \<Rightarrow> (nat \<times> 'a xdp_state_scheme) option" where
  "exit_destructors s =
     do { s \<leftarrow> process_free_all s; s \<leftarrow> rule_free_all s; n \<leftarrow> memref_check_exit s;
          s \<leftarrow> field_free_all s; s \<leftarrow> iface_free_all s; Some (n, s) }"

end
