(* ===== verification/Network.thy ===== *)
theory Network
  imports Xdpacket
begin

text \<open>
  The connections of the program: each is registered and owns its descriptors, no other is open;
  documents, input and new connections keep that, and the invariant of the configuration.
\<close>

subsection \<open>The invariant of the connections\<close>

text \<open>The descriptors that were opened for connections and not closed, after a history.\<close>

fun open_conns :: "pio list \<Rightarrow> int set" where
  "open_conns [] = {}"
| "open_conns (Pio_dup fd # l) = (if 0 \<le> fd then insert fd (open_conns l) else open_conns l)"
| "open_conns (Pio_accept fd # l) = (if 0 \<le> fd then insert fd (open_conns l) else open_conns l)"
| "open_conns (Pio_close fd # l) = open_conns l - {fd}"
| "open_conns (Pio_read fd # l) = open_conns l"
| "open_conns (Pio_write fd b # l) = open_conns l"
| "open_conns (Pio_register fd p rc # l) = open_conns l"
| "open_conns (Pio_remove fd # l) = open_conns l"
| "open_conns (Pio_socket fd # l) = open_conns l"
| "open_conns (Pio_listen fd rc # l) = open_conns l"

fun conn_tracked :: "pio list \<Rightarrow> int \<Rightarrow> addr option" where
  "conn_tracked [] fd = None"
| "conn_tracked (Pio_register fd' p rc # l) fd = (if fd = fd' \<and> rc = 0 then Some p else conn_tracked l fd)"
| "conn_tracked (Pio_remove fd' # l) fd = (if fd = fd' then None else conn_tracked l fd)"
| "conn_tracked (Pio_dup _ # l) fd = conn_tracked l fd"
| "conn_tracked (Pio_accept _ # l) fd = conn_tracked l fd"
| "conn_tracked (Pio_close _ # l) fd = conn_tracked l fd"
| "conn_tracked (Pio_read _ # l) fd = conn_tracked l fd"
| "conn_tracked (Pio_write _ _ # l) fd = conn_tracked l fd"
| "conn_tracked (Pio_socket _ # l) fd = conn_tracked l fd"
| "conn_tracked (Pio_listen _ _ # l) fd = conn_tracked l fd"

definition conn_fds :: "parse \<Rightarrow> int set" where
  "conn_fds ps = {ps_fdin ps, ps_fdout ps}"

text \<open>Every open descriptor belongs to exactly one connection.\<close>

definition conns_held :: "(addr \<rightharpoonup> parse) \<Rightarrow> pio list \<Rightarrow> bool" where
  "conns_held h l \<longleftrightarrow>
     (\<forall>p ps. h p = Some ps \<longrightarrow> 0 \<le> ps_fdin ps \<and> 0 \<le> ps_fdout ps) \<and>
     (\<forall>fd. fd \<in> open_conns l \<longleftrightarrow> (\<exists>p ps. h p = Some ps \<and> fd \<in> conn_fds ps)) \<and>
     (\<forall>p q ps qs fd. h p = Some ps \<longrightarrow> h q = Some qs \<longrightarrow> fd \<in> conn_fds ps \<longrightarrow> fd \<in> conn_fds qs \<longrightarrow> p = q)"

text \<open>Every connection is registered, its buffer is sound, and nothing else is registered.\<close>

definition conns_inv :: "'a xdp_state_scheme \<Rightarrow> bool" where
  "conns_inv s \<longleftrightarrow> conns_held (parse_heap s) (ps_log s) \<and>
     (\<forall>p ps. parse_heap s p = Some ps \<longrightarrow> conn_ok ps \<and> p < next_addr s \<and> conn_tracked (ps_log s) (ps_fdin ps) = Some p) \<and>
     (\<forall>fd p. conn_tracked (ps_log s) fd = Some p \<longrightarrow> (\<exists>ps. parse_heap s p = Some ps \<and> ps_fdin ps = fd))"

definition xdp_inv_with :: "addr set \<Rightarrow> addr set \<Rightarrow> 'a xdp_state_scheme \<Rightarrow> bool" where
  "xdp_inv_with K L s \<longleftrightarrow> proc_inv_with K L [] s \<and> conns_inv s"

definition xdp_inv :: "'a xdp_state_scheme \<Rightarrow> bool" where
  "xdp_inv s \<longleftrightarrow> proc_inv s \<and> conns_inv s"

text \<open>What is asked of the system: a new descriptor is not in use, and 0 is never closed.\<close>

definition client_ok :: "client \<Rightarrow> bool" where
  "client_ok C \<longleftrightarrow> (\<forall>l. cl_accept C l \<notin> open_conns l \<and> cl_accept C l \<noteq> 0) \<and> (\<forall>l fd. cl_dup C l fd \<notin> open_conns l)"

lemma conns_invD:
  assumes "conns_inv s"
  shows "conns_held (parse_heap s) (ps_log s)"
    and "parse_heap s p = Some ps \<Longrightarrow> conn_ok ps" "parse_heap s p = Some ps \<Longrightarrow> p < next_addr s"
      "parse_heap s p = Some ps \<Longrightarrow> conn_tracked (ps_log s) (ps_fdin ps) = Some p"
    and "conn_tracked (ps_log s) fd = Some p \<Longrightarrow> \<exists>ps. parse_heap s p = Some ps \<and> ps_fdin ps = fd"
  using assms unfolding conns_inv_def by blast+

lemma conns_heldD:
  assumes "conns_held h l"
  shows "h p = Some ps \<Longrightarrow> 0 \<le> ps_fdin ps" and "h p = Some ps \<Longrightarrow> 0 \<le> ps_fdout ps"
    and "fd \<in> open_conns l \<longleftrightarrow> (\<exists>p ps. h p = Some ps \<and> fd \<in> conn_fds ps)"
    and "h p = Some ps \<Longrightarrow> h q = Some qs \<Longrightarrow> fd \<in> conn_fds ps \<Longrightarrow> fd \<in> conn_fds qs \<Longrightarrow> p = q"
  using assms unfolding conns_held_def by blast+

lemma proc_inv_config:
  fixes s :: "'a xdp_state_scheme"
  assumes P: "proc_inv_with K L qs s" and n: "next_addr s \<le> n"
  shows "proc_inv_with K L qs (s\<lparr>next_addr := n, parse_heap := h, ps_log := l\<rparr>)"
proof -
  let ?s' = "s\<lparr>next_addr := n, parse_heap := h, ps_log := l\<rparr>"
  note B = base_invD[OF proc_invD(1)[OF P]]
  have "rule_inv_with K [] ?s'" by (rule rule_inv_cong[OF B(1)]) (use n in simp_all)
  moreover have "ifaces_inv ?s'" by (rule ifaces_inv_cong[OF B(2)]) (use n in simp_all)
  moreover have "ifaces_tracked ?s'" using B(3) by (simp add: ifaces_tracked_def)
  ultimately have "base_inv K ?s'" by (simp add: base_inv_def)
  then show ?thesis by (rule proc_inv_below[OF P]) (use n in simp_all)
qed

subsection \<open>Documents that arrive\<close>

definition same_net :: "pio list \<Rightarrow> pio list \<Rightarrow> bool" where
  "same_net l l' \<longleftrightarrow> open_conns l' = open_conns l \<and> conn_tracked l' = conn_tracked l"

lemma same_net_refl [simp]: "same_net l l"
  by (simp add: same_net_def)

lemma same_net_trans [trans]: "same_net a b \<Longrightarrow> same_net b c \<Longrightarrow> same_net a c"
  by (simp add: same_net_def)

lemma same_net_reads: "same_net l (replicate n (Pio_read fd) @ l)"
proof (induction n)
  case (Suc n)
  then show ?case by (simp add: same_net_def fun_eq_iff)
qed simp

lemma same_net_write: "same_net l (Pio_write fd b # l)"
  by (simp add: same_net_def fun_eq_iff)

lemma dump_net: "\<exists>l. yaml_emitter_dump C fd bs s = s\<lparr>ps_log := l\<rparr> \<and> same_net (ps_log s) l"
proof (induction bs arbitrary: s)
  case Nil
  then show ?case by (intro exI[of _ "ps_log s"]) simp
next
  case (Cons b bs)
  let ?s = "s\<lparr>ps_log := Pio_write fd b # ps_log s\<rparr>"
  from Cons[of ?s] obtain l where l: "yaml_emitter_dump C fd bs ?s = ?s\<lparr>ps_log := l\<rparr>" "same_net (ps_log ?s) l" by blast
  have "same_net (ps_log s) l" using same_net_trans[OF same_net_write] l(2) by simp
  with l(1) same_net_write[of "ps_log s" fd b] show ?case
    by (cases "cl_write C (ps_log s) fd b = int (length b)") (auto simp: parse_write_handler_def pio_do_def)
qed

definition doc_ok :: "env \<Rightarrow> os \<Rightarrow> client \<Rightarrow> byte list \<Rightarrow> 'a xdp_state_scheme \<Rightarrow> bool" where
  "doc_ok E os C buf s = (case yl_load C buf of Some (Some (YMap ps)) \<Rightarrow> mapping_ok E os ps 0 [] s | _ \<Rightarrow> True)"

definition doc_plain :: "client \<Rightarrow> byte list \<Rightarrow> bool" where
  "doc_plain C buf = (case yl_load C buf of Some (Some (YMap ps)) \<Rightarrow> mapping_plain ps | _ \<Rightarrow> True)"

lemma parse_reply_run:
  obtains l where "parse_reply C out e outroot s = s\<lparr>ps_log := l\<rparr>" "same_net (ps_log s) l"
  using dump_net[of C out _ s] unfolding parse_reply_def by metis

lemma proc_inv_log:
  fixes s :: "'a xdp_state_scheme"
  assumes "proc_inv_with K L qs s"
  shows "proc_inv_with K L qs (s\<lparr>ps_log := l\<rparr>)"
  using proc_inv_config[OF assms order_refl, where h = "parse_heap s" and l = l] by simp

lemma more_conns:
  fixes s :: "'a xdp_state_scheme"
  assumes "process_state.more s' = process_state.more s"
  shows "parse_heap s' = parse_heap s" and "ps_log s' = ps_log s"
  using assms by (cases s; cases s'; simp)+

lemma later_conns:
  fixes s :: "'a xdp_state_scheme"
  assumes "later s s'"
  shows "parse_heap s' = parse_heap s \<and> ps_log s' = ps_log s \<and> next_addr s \<le> next_addr s'"
proof -
  note l = conjunct1[OF assms[unfolded later_def]] conjunct2[OF assms[unfolded later_def]]
  show ?thesis by (intro conjI more_conns[OF l(1)] l(2))
qed

lemma parse_doc_spec:
  fixes s :: "'a xdp_state_scheme"
  assumes E: "env_ok E" and os: "sock_ok os" "tracker_ok os" and P: "proc_inv_with K L [] s" and ok: "doc_ok E os C buf s"
  obtains e s' K' L' where "parse_doc E os C buf out s = Some (e, s')" "proc_inv_with K' L' [] s'"
    "parse_heap s' = parse_heap s" "next_addr s \<le> next_addr s'" "same_net (ps_log s) (ps_log s')"
    "doc_plain C buf \<Longrightarrow> K' = K \<and> L' = L"
proof -
  note result = that
  have quiet: ?thesis if "parse_doc E os C buf out s = Some (e, s)" for e
    using result[OF that P] by simp
  consider (fail) "yl_load C buf = None" | (none) "yl_load C buf = Some None"
    | (mapping) ps where "yl_load C buf = Some (Some (YMap ps))"
    | (other) n where "yl_load C buf = Some (Some n)" "\<And>ps. n \<noteq> YMap ps"
    by (metis option.exhaust)
  then show ?thesis
  proof cases
    case fail
    obtain l where l: "parse_reply C out 1 [] s = s\<lparr>ps_log := l\<rparr>" "same_net (ps_log s) l" by (rule parse_reply_run)
    show ?thesis
      by (rule result[of 1 "s\<lparr>ps_log := l\<rparr>" K L]) (use fail l proc_inv_log[OF P] in \<open>simp_all add: parse_doc_def\<close>)
  next
    case none
    then show ?thesis by (intro quiet[of 0]) (simp add: parse_doc_def)
  next
    case other
    then show ?thesis by (intro quiet[of 0]) (auto simp: parse_doc_def split: ynode.split)
  next
    case mapping
    then have "mapping_ok E os ps 0 [] s" using ok by (simp add: doc_ok_def)
    then show ?thesis
    proof (rule parse_mapping_spec[OF E os P])
      fix e outroot s1 K' L'
      assume m: "parse_mapping E os ps 0 [] s = Some (e, outroot, s1)" "proc_inv_with K' L' [] s1" "later s s1"
        "mapping_plain ps \<Longrightarrow> K' = K \<and> L' = L"
      have same: "parse_heap s1 = parse_heap s" "ps_log s1 = ps_log s" "next_addr s \<le> next_addr s1"
        using later_conns[OF m(3)] by auto
      obtain l where l: "parse_reply C out e outroot s1 = s1\<lparr>ps_log := l\<rparr>" "same_net (ps_log s1) l" by (rule parse_reply_run)
      show ?thesis
        by (rule result[of e "s1\<lparr>ps_log := l\<rparr>" K' L'])
          (use mapping m l same proc_inv_log[OF m(2)] in \<open>simp_all add: parse_doc_def doc_plain_def\<close>)
    qed
  qed
qed

subsection \<open>A callback of a connection\<close>

text \<open>The document that a callback executes, if any, and the state in which it starts to.\<close>

definition callback_doc :: "env \<Rightarrow> client \<Rightarrow> addr \<Rightarrow> 'a xdp_state_scheme \<Rightarrow> (byte list \<times> 'a xdp_state_scheme) option" where
  "callback_doc E C p s =
     do { ps \<leftarrow> parse_heap s p;
          (res, ps, s) \<leftarrow> parse_read E C ps s;
          buf \<leftarrow> ps_buf ps;
          if res = Rd_die \<or> res = Rd_last 0 \<or> \<not> doc_complete (pending ps) then None
          else Some (pending ps, parse_put p (ps\<lparr>ps_buf := Some (buf[ps_buf_pos ps := 0])\<rparr>) s) }"

definition callback_ok :: "env \<Rightarrow> os \<Rightarrow> client \<Rightarrow> addr \<Rightarrow> 'a xdp_state_scheme \<Rightarrow> bool" where
  "callback_ok E os C p s = (case callback_doc E C p s of None \<Rightarrow> True | Some (doc, t) \<Rightarrow> doc_ok E os C doc t)"

definition callback_plain :: "env \<Rightarrow> client \<Rightarrow> addr \<Rightarrow> 'a xdp_state_scheme \<Rightarrow> bool" where
  "callback_plain E C p s = (case callback_doc E C p s of None \<Rightarrow> True | Some (doc, t) \<Rightarrow> doc_plain C doc)"

lemma conns_inv_upd:
  assumes I: "conns_inv s" and p: "parse_heap s p = Some ps" "same_conn ps ps'" "conn_ok ps'"
    and s': "parse_heap s' = (parse_heap s)(p \<mapsto> ps')" "same_net (ps_log s) (ps_log s')" "next_addr s \<le> next_addr s'"
  shows "conns_inv s'"
proof -
  note D = conns_invD[OF I] and H = conns_heldD[OF conns_invD(1)[OF I]]
  have fds: "ps_fdin ps' = ps_fdin ps" "ps_fdout ps' = ps_fdout ps" "conn_fds ps' = conn_fds ps"
    using p(2) by (simp_all add: same_conn_def conn_fds_def)
  have net: "open_conns (ps_log s') = open_conns (ps_log s)" "conn_tracked (ps_log s') = conn_tracked (ps_log s)"
    using s'(2) by (simp_all add: same_net_def)
  have was: "\<exists>qs. parse_heap s q = Some qs \<and> conn_fds qs = conn_fds x \<and> ps_fdin qs = ps_fdin x \<and> ps_fdout qs = ps_fdout x"
    if "parse_heap s' q = Some x" for q x
    using that p(1) fds s'(1) by (cases "q = p") auto
  have forth: "\<exists>x. parse_heap s' q = Some x \<and> conn_fds qs = conn_fds x \<and> ps_fdin qs = ps_fdin x"
    if "parse_heap s q = Some qs" for q qs
    using that p(1) fds s'(1) by (cases "q = p") auto
  have "conns_held (parse_heap s') (ps_log s')"
    unfolding conns_held_def net
  proof (intro conjI allI impI)
    show "0 \<le> ps_fdin x" "0 \<le> ps_fdout x" if "parse_heap s' q = Some x" for q x
      using was[OF that] H(1,2) by metis+
    show "fd \<in> open_conns (ps_log s) \<longleftrightarrow> (\<exists>q x. parse_heap s' q = Some x \<and> fd \<in> conn_fds x)" for fd
      unfolding H(3) using was forth by metis
    show "a = b" if "parse_heap s' a = Some x" "parse_heap s' b = Some y" "fd \<in> conn_fds x" "fd \<in> conn_fds y" for a b x y fd
      using was[OF that(1)] was[OF that(2)] that(3,4) H(4) by metis
  qed
  moreover have "conn_ok x \<and> q < next_addr s' \<and> conn_tracked (ps_log s) (ps_fdin x) = Some q" if "parse_heap s' q = Some x" for q x
    using that p s' D(2-4)[of q] fds by (cases "q = p") auto
  moreover have "\<exists>x. parse_heap s' q = Some x \<and> ps_fdin x = fd" if "conn_tracked (ps_log s) fd = Some q" for fd q
    using D(5)[OF that] forth by metis
  ultimately show ?thesis unfolding conns_inv_def net by blast
qed

lemma reads_config:
  fixes s :: "'a xdp_state_scheme"
  assumes "reads C fd n s s'" and "proc_inv_with K L [] s"
  shows "proc_inv_with K L [] (parse_put p ps s')" and "parse_heap s' = parse_heap s" and "same_net (ps_log s) (ps_log s')"
    and "next_addr s \<le> next_addr s'"
proof -
  obtain m where m: "next_addr s \<le> m" "s' = s\<lparr>next_addr := m, ps_log := replicate n (Pio_read fd) @ ps_log s\<rparr>"
    using assms(1) unfolding reads_def by blast
  have "parse_put p ps s' = s\<lparr>next_addr := m, parse_heap := (parse_heap s)(p \<mapsto> ps), ps_log := replicate n (Pio_read fd) @ ps_log s\<rparr>"
    using m(2) by (simp add: parse_put_def)
  with proc_inv_config[OF assms(2) m(1)] show "proc_inv_with K L [] (parse_put p ps s')" by simp
  show "parse_heap s' = parse_heap s" "same_net (ps_log s) (ps_log s')" "next_addr s \<le> next_addr s'"
    using m by (simp_all add: same_net_reads)
qed

lemma parse_put_inv:
  fixes s :: "'a xdp_state_scheme"
  assumes I: "xdp_inv_with K L s" and p: "parse_heap s p = Some ps" and r: "reads C fd n s s1"
    and ps: "same_conn ps ps1" "conn_ok ps1"
  shows "xdp_inv_with K L (parse_put p ps1 s1)" and "dom (parse_heap (parse_put p ps1 s1)) = dom (parse_heap s)"
proof -
  have P: "proc_inv_with K L [] s" and N: "conns_inv s" using I by (simp_all add: xdp_inv_with_def)
  note c = reads_config[OF r P]
  have "conns_inv (parse_put p ps1 s1)" by (rule conns_inv_upd[OF N p ps]) (use c in \<open>simp_all add: parse_put_def\<close>)
  with c(1) show "xdp_inv_with K L (parse_put p ps1 s1)" by (simp add: xdp_inv_with_def)
  show "dom (parse_heap (parse_put p ps1 s1)) = dom (parse_heap s)" using c(2) p by (auto simp: parse_put_def)
qed

lemma parse_put_after:
  fixes t :: "'a xdp_state_scheme"
  assumes P: "proc_inv_with K L [] t" and N: "conns_inv s" and p: "parse_heap s p = Some ps"
    and t: "parse_heap t = parse_heap s" "same_net (ps_log s) (ps_log t)" "next_addr s \<le> next_addr t"
    and ps: "same_conn ps ps'" "conn_ok ps'"
  shows "xdp_inv_with K L (parse_put p ps' t)"
proof -
  have "proc_inv_with K L [] (parse_put p ps' t)"
    using proc_inv_config[OF P order_refl, where h = "(parse_heap t)(p \<mapsto> ps')" and l = "ps_log t"] by (simp add: parse_put_def)
  moreover have "conns_inv (parse_put p ps' t)"
    by (rule conns_inv_upd[OF N p ps]) (use t in \<open>simp_all add: parse_put_def\<close>)
  ultimately show ?thesis by (simp add: xdp_inv_with_def)
qed

text \<open>A callback that finds a whole document executes it and empties the buffer.\<close>

lemma parse_complete_ended:
  assumes "read_ended E C fd ps s n ps1 s1 b"
  shows "parse_complete (ps_buf ps1) (ps_buf_pos ps1) = Some (doc_complete (pending ps1))"
    and "rd_of (got C fd s n) \<noteq> Rd_die"
  using assms parse_complete_spec[of "ps_buf_pos ps1" b]
  by (auto simp: read_ended_def pending_def rd_of_def split: option.splits)

lemma parse_callback_doc:
  fixes s :: "'a xdp_state_scheme"
  assumes E: "env_ok E" and os: "sock_ok os" "tracker_ok os" and I: "xdp_inv_with K L s"
    and p: "parse_heap s p = Some ps" and ok: "callback_ok E os C p s"
    and ended: "read_ended E C (ps_fdin ps) ps s n ps1 s1 b"
    and whole: "rd_of (got C (ps_fdin ps) s n) \<noteq> Rd_last 0" "doc_complete (pending ps1)"
  obtains r s' K' L' where "parse_callback E os C p s = Some (r, s')" "xdp_inv_with K' L' s'"
    "dom (parse_heap s') = dom (parse_heap s)" "callback_plain E C p s \<Longrightarrow> K' = K \<and> L' = L"
proof -
  note result = that and c = parse_complete_ended[OF ended] and read = ended[unfolded read_ended_def]
  let ?nul = "ps1\<lparr>ps_buf := Some (b[ps_buf_pos ps1 := 0])\<rparr>"
  let ?t = "parse_put p ?nul s1"
  have nul: "same_conn ps ?nul" "conn_ok ?nul" "same_conn ?nul (?nul\<lparr>ps_buf_pos := 0\<rparr>)" "conn_ok (?nul\<lparr>ps_buf_pos := 0\<rparr>)"
    using read by (auto simp: same_conn_def conn_ok_def)
  have pend: "pending ps1 = take (ps_buf_pos ps1) b" using read by (simp add: pending_def)
  have doc: "callback_doc E C p s = Some (pending ps1, ?t)"
    using p read whole c by (simp add: callback_doc_def)
  have rd: "reads C (ps_fdin ps) (Suc n) s s1" using read by blast
  have T: "xdp_inv_with K L ?t" "dom (parse_heap ?t) = dom (parse_heap s)" using parse_put_inv[OF I p rd nul(1,2)] by auto
  have P: "proc_inv_with K L [] ?t" and Nt: "conns_inv ?t" using T by (simp_all add: xdp_inv_with_def)
  have "doc_ok E os C (pending ps1) ?t" using ok doc by (simp add: callback_ok_def)
  then show ?thesis
  proof (rule parse_doc_spec[OF E os P, where out = "ps_fdout ps1"])
    fix e s' K' L'
    assume d: "parse_doc E os C (pending ps1) (ps_fdout ps1) ?t = Some (e, s')" "proc_inv_with K' L' [] s'"
      "parse_heap s' = parse_heap ?t" "next_addr ?t \<le> next_addr s'" "same_net (ps_log ?t) (ps_log s')"
      "doc_plain C (pending ps1) \<Longrightarrow> K' = K \<and> L' = L"
    have "xdp_inv_with K' L' (parse_put p (?nul\<lparr>ps_buf_pos := 0\<rparr>) s')"
      by (rule parse_put_after[OF d(2) Nt _ d(3,5,4) nul(3,4)]) (simp add: parse_put_def)
    moreover have "parse_callback E os C p s = Some (0, parse_put p (?nul\<lparr>ps_buf_pos := 0\<rparr>) s')"
      using p read whole c d(1) pend by (simp add: parse_callback_def)
    moreover have "dom (parse_heap (parse_put p (?nul\<lparr>ps_buf_pos := 0\<rparr>) s')) = dom (parse_heap s)"
      using T(2) d(3) by (simp add: parse_put_def)
    ultimately show ?thesis
      by (intro result[of 0 "parse_put p (?nul\<lparr>ps_buf_pos := 0\<rparr>) s'" K' L'])
        (use d(6) doc in \<open>simp_all add: callback_plain_def\<close>)
  qed
qed

lemma parse_callback_spec:
  fixes s :: "'a xdp_state_scheme"
  assumes E: "env_ok E" and os: "sock_ok os" "tracker_ok os" and I: "xdp_inv_with K L s"
    and p: "parse_heap s p = Some ps" and ok: "callback_ok E os C p s"
  obtains r s' K' L' where "parse_callback E os C p s = Some (r, s')" "xdp_inv_with K' L' s'"
    "dom (parse_heap s') = dom (parse_heap s)" "callback_plain E C p s \<Longrightarrow> K' = K \<and> L' = L"
proof -
  note result = that
  have conn: "conn_ok ps" using conns_invD(2) I p by (auto simp: xdp_inv_with_def)
  let ?fd = "ps_fdin ps"
  from parse_read_spec[OF conn refl, of E C s] consider
    (die) n ps1 s1 where "read_died E C ?fd ps s n ps1 s1"
    | (stuck) s1 where "parse_read E C ps s = Some (rd_null (got C ?fd s 0), ps, s1)" "\<not> usable ps"
    | (read) n ps1 s1 b where "read_ended E C ?fd ps s n ps1 s1 b" by blast
  then show ?thesis
  proof cases
    case die
    then have d: "parse_read E C ps s = Some (Rd_die, ps1, s1)" "same_conn ps (ps1\<lparr>ps_buf_pos := 0\<rparr>)"
      "reads C ?fd n s s1" "conn_ok (ps1\<lparr>ps_buf_pos := 0\<rparr>)" by (simp_all add: read_died_def same_conn_def)
    note put = parse_put_inv[OF I p d(3,2,4)]
    show ?thesis by (rule result[OF _ put]) (use d(1) p in \<open>simp_all add: parse_callback_def\<close>)
  next
    case stuck
    obtain t where c: "parse_callback E os C p s = Some (if got C ?fd s 0 = Some [] then 1 else 0, parse_put p ps t)" "reads C ?fd 1 s t"
      by (rule parse_callback_stuck[OF conn p stuck(2)])
    have "same_conn ps ps" by (simp add: same_conn_def)
    note put = parse_put_inv[OF I p c(2) this conn]
    show ?thesis by (rule result[OF c(1) put]) simp
  next
    case read
    show ?thesis
    proof (cases "rd_of (got C ?fd s n) \<noteq> Rd_last 0 \<and> doc_complete (pending ps1)")
      case True
      then have whole: "rd_of (got C ?fd s n) \<noteq> Rd_last 0" "doc_complete (pending ps1)" by simp_all
      show ?thesis by (rule parse_callback_doc[OF E os I p ok read whole]) (rule result)
    next
      case False
      note c = parse_complete_ended[OF read] and r = read[unfolded read_ended_def]
      have rd: "reads C ?fd (Suc n) s s1" "same_conn ps ps1" "conn_ok ps1" using r by simp_all
      note put = parse_put_inv[OF I p rd]
      have "\<exists>r. parse_callback E os C p s = Some (r, parse_put p ps1 s1)"
        using r p c False by (cases "rd_of (got C ?fd s n) = Rd_last 0") (auto simp: parse_callback_def)
      then obtain r where "parse_callback E os C p s = Some (r, parse_put p ps1 s1)" ..
      then show ?thesis by (rule result[OF _ put]) simp
    qed
  qed
qed

subsection \<open>Connections come and go\<close>

lemma conns_inv_cong:
  assumes I: "conns_inv s" and same: "parse_heap s' = parse_heap s" "same_net (ps_log s) (ps_log s')" "next_addr s \<le> next_addr s'"
  shows "conns_inv s'"
proof -
  have net: "open_conns (ps_log s') = open_conns (ps_log s)" "conn_tracked (ps_log s') = conn_tracked (ps_log s)"
    using same(2) by (simp_all add: same_net_def)
  have "p < next_addr s'" if "parse_heap s p = Some ps" for p ps using conns_invD(3)[OF I that] same(3) by simp
  with I show ?thesis by (simp add: conns_inv_def conns_held_def net same(1))
qed

lemma parse_free_spec:
  assumes H: "conns_held (parse_heap s) (ps_log s)" and p: "parse_heap s p = Some ps"
  obtains l where "parse_free (Some p) s = Some (s\<lparr>parse_heap := (parse_heap s)(p := None), ps_log := l\<rparr>)"
    "conns_held ((parse_heap s)(p := None)) l" "conn_tracked l = conn_tracked (ps_log s)"
proof -
  note D = conns_heldD[OF H]
  let ?l = "(if ps_fdout ps \<noteq> ps_fdin ps then [Pio_close (ps_fdout ps)] else []) @ Pio_close (ps_fdin ps) # ps_log s"
  have "0 \<le> ps_fdin ps" "0 \<le> ps_fdout ps" using D(1,2)[OF p] by simp_all
  then have run: "parse_free (Some p) s = Some (s\<lparr>parse_heap := (parse_heap s)(p := None), ps_log := ?l\<rparr>)"
    using p by (auto simp: parse_free_def pio_do_def Let_def)
  have open_l: "open_conns ?l = open_conns (ps_log s) - conn_fds ps" by (auto simp: conn_fds_def)
  have "conns_held ((parse_heap s)(p := None)) ?l"
    unfolding conns_held_def open_l
  proof (intro conjI allI impI)
    show "0 \<le> ps_fdin x" "0 \<le> ps_fdout x" if "((parse_heap s)(p := None)) q = Some x" for q x
      using that D(1,2)[of q x] by (simp_all split: if_splits)
    show "fd \<in> open_conns (ps_log s) - conn_fds ps \<longleftrightarrow> (\<exists>q x. ((parse_heap s)(p := None)) q = Some x \<and> fd \<in> conn_fds x)" for fd
    proof
      assume fd: "fd \<in> open_conns (ps_log s) - conn_fds ps"
      then obtain q x where x: "parse_heap s q = Some x" "fd \<in> conn_fds x" using D(3)[of fd] by blast
      with fd p have "q \<noteq> p" by auto
      with x show "\<exists>q x. ((parse_heap s)(p := None)) q = Some x \<and> fd \<in> conn_fds x" by (intro exI[of _ q] exI[of _ x]) simp
    next
      assume "\<exists>q x. ((parse_heap s)(p := None)) q = Some x \<and> fd \<in> conn_fds x"
      then obtain q x where x: "q \<noteq> p" "parse_heap s q = Some x" "fd \<in> conn_fds x" by (auto split: if_splits)
      with D(3)[of fd] D(4)[OF p x(2) _ x(3)] show "fd \<in> open_conns (ps_log s) - conn_fds ps" by blast
    qed
    show "a = b" if "((parse_heap s)(p := None)) a = Some x" "((parse_heap s)(p := None)) b = Some y"
      "fd \<in> conn_fds x" "fd \<in> conn_fds y" for a b x y fd
      using that D(4)[of a x b y fd] by (simp split: if_splits)
  qed
  moreover have "conn_tracked ?l = conn_tracked (ps_log s)" by (auto simp: fun_eq_iff)
  ultimately show ?thesis using run that by blast
qed

text \<open>A connection whose callback asks for it is closed.\<close>

lemma parse_drop_spec:
  fixes s :: "'a xdp_state_scheme"
  assumes I: "xdp_inv_with K L s" and p: "parse_heap s p = Some ps"
  obtains s' where "parse_free (Some p) (pio_do (Pio_remove (ps_fdin ps)) s) = Some s'" "xdp_inv_with K L s'"
proof -
  have P: "proc_inv_with K L [] s" and N: "conns_inv s" using I by (simp_all add: xdp_inv_with_def)
  note D = conns_invD[OF N]
  let ?s = "pio_do (Pio_remove (ps_fdin ps)) s"
  have "conns_held (parse_heap ?s) (ps_log ?s)" "parse_heap ?s p = Some ps" using D(1) p by (simp_all add: pio_do_def conns_held_def)
  then obtain l where l: "parse_free (Some p) ?s = Some (?s\<lparr>parse_heap := (parse_heap ?s)(p := None), ps_log := l\<rparr>)"
    "conns_held ((parse_heap ?s)(p := None)) l" "conn_tracked l = conn_tracked (ps_log ?s)" by (rule parse_free_spec)
  let ?s' = "s\<lparr>parse_heap := (parse_heap s)(p := None), ps_log := l\<rparr>"
  have tr: "conn_tracked l fd = (if fd = ps_fdin ps then None else conn_tracked (ps_log s) fd)" for fd
    using l(3) by (simp add: pio_do_def)
  have "conns_inv ?s'"
    unfolding conns_inv_def
  proof (intro conjI allI impI)
    show "conns_held (parse_heap ?s') (ps_log ?s')" using l(2) by (simp add: pio_do_def)
    fix q x assume "parse_heap ?s' q = Some x"
    then have q: "q \<noteq> p" "parse_heap s q = Some x" by (simp_all split: if_splits)
    show "conn_ok x" "q < next_addr ?s'" using D(2,3)[OF q(2)] by simp_all
    have "ps_fdin x \<noteq> ps_fdin ps" using D(4)[OF q(2)] D(4)[OF p] q(1) by auto
    then show "conn_tracked (ps_log ?s') (ps_fdin x) = Some q" using D(4)[OF q(2)] by (simp add: tr)
  next
    fix fd q assume "conn_tracked (ps_log ?s') fd = Some q"
    then have t: "fd \<noteq> ps_fdin ps" "conn_tracked (ps_log s) fd = Some q" by (simp_all add: tr split: if_splits)
    from D(5)[OF t(2)] obtain x where x: "parse_heap s q = Some x" "ps_fdin x = fd" by blast
    then have "q \<noteq> p" using t(1) p by auto
    with x show "\<exists>x. parse_heap ?s' q = Some x \<and> ps_fdin x = fd" by simp
  qed
  moreover have "proc_inv_with K L [] ?s'"
    using proc_inv_config[OF P order_refl, where h = "(parse_heap s)(p := None)" and l = l] by simp
  ultimately have "xdp_inv_with K L ?s'" by (simp add: xdp_inv_with_def)
  with l(1) that show ?thesis by (simp add: pio_do_def)
qed

lemma parse_event_spec:
  fixes s :: "'a xdp_state_scheme"
  assumes E: "env_ok E" and os: "sock_ok os" "tracker_ok os" and I: "xdp_inv_with K L s"
    and p: "parse_heap s p \<noteq> None" and ok: "callback_ok E os C p s"
  obtains s' K' L' where "parse_event E os C p s = Some s'" "xdp_inv_with K' L' s'" "callback_plain E C p s \<Longrightarrow> K' = K \<and> L' = L"
proof -
  note result = that
  from p obtain ps where "parse_heap s p = Some ps" by blast
  from this ok show ?thesis
  proof (rule parse_callback_spec[OF E os I])
    fix r s1 K' L'
    assume c: "parse_callback E os C p s = Some (r, s1)" "xdp_inv_with K' L' s1" "dom (parse_heap s1) = dom (parse_heap s)"
      "callback_plain E C p s \<Longrightarrow> K' = K \<and> L' = L"
    obtain ps1 where ps1: "parse_heap s1 p = Some ps1" using c(3) p by (metis domIff not_None_eq)
    show ?thesis
    proof (cases "r = 0")
      case True
      with c show ?thesis by (intro result[of s1 K' L']) (simp_all add: parse_event_def)
    next
      case False
      obtain s' where "parse_free (Some p) (pio_do (Pio_remove (ps_fdin ps1)) s1) = Some s'" "xdp_inv_with K' L' s'"
        by (rule parse_drop_spec[OF c(2) ps1])
      with c(1,4) False ps1 show ?thesis by (intro result[of s' K' L']) (simp_all add: parse_event_def)
    qed
  qed
qed

definition conn_new :: "int \<Rightarrow> int \<Rightarrow> parse" where
  "conn_new i out = \<lparr>ps_fdin = i, ps_fdout = out, ps_buf = None, ps_buf_len = 0, ps_buf_pos = 0\<rparr>"

lemma conns_inv_fresh: "conns_inv s \<Longrightarrow> parse_heap s (next_addr s) = None"
  using conns_invD(3)[of s "next_addr s"] by (cases "parse_heap s (next_addr s)") auto

lemma conns_inv_add:
  assumes I: "conns_inv s" and fds: "0 \<le> i" "0 \<le> out" "i \<notin> open_conns (ps_log s)" "out \<notin> open_conns (ps_log s)"
    and s': "parse_heap s' = (parse_heap s)(next_addr s \<mapsto> conn_new i out)" "next_addr s' = next_addr s + 1"
      "open_conns (ps_log s') = insert i (insert out (open_conns (ps_log s)))"
      "conn_tracked (ps_log s') = (conn_tracked (ps_log s))(i \<mapsto> next_addr s)"
  shows "conns_inv s'"
proof -
  note D = conns_invD[OF I] and H = conns_heldD[OF conns_invD(1)[OF I]]
  let ?p = "next_addr s"
  have f: "conn_fds (conn_new i out) = {i, out}" by (simp add: conn_fds_def conn_new_def)
  have cases: "q = ?p \<and> x = conn_new i out \<or> q \<noteq> ?p \<and> parse_heap s q = Some x" if "parse_heap s' q = Some x" for q x
    using that s'(1) by (simp split: if_splits)
  have old: "parse_heap s' q = Some x" if "parse_heap s q = Some x" for q x
    using that s'(1) conns_inv_fresh[OF I] by auto
  have new: "fd \<noteq> i \<and> fd \<noteq> out" if "parse_heap s q = Some x" "fd \<in> conn_fds x" for q x fd
    using H(3)[of fd] that fds(3,4) by blast
  have "conns_held (parse_heap s') (ps_log s')"
    unfolding conns_held_def s'(3)
  proof (intro conjI allI impI)
    show "0 \<le> ps_fdin x" "0 \<le> ps_fdout x" if "parse_heap s' q = Some x" for q x
      using cases[OF that] H(1,2)[of q x] fds(1,2) by (auto simp: conn_new_def)
    show "fd \<in> insert i (insert out (open_conns (ps_log s))) \<longleftrightarrow> (\<exists>q x. parse_heap s' q = Some x \<and> fd \<in> conn_fds x)" for fd
    proof
      assume "fd \<in> insert i (insert out (open_conns (ps_log s)))"
      then consider "fd \<in> {i, out}" | "fd \<in> open_conns (ps_log s)" by blast
      then show "\<exists>q x. parse_heap s' q = Some x \<and> fd \<in> conn_fds x"
      proof cases
        case 1
        then show ?thesis using s'(1) f by (intro exI[of _ ?p] exI[of _ "conn_new i out"]) simp
      next
        case 2
        with H(3)[of fd] old show ?thesis by blast
      qed
    next
      assume "\<exists>q x. parse_heap s' q = Some x \<and> fd \<in> conn_fds x"
      then show "fd \<in> insert i (insert out (open_conns (ps_log s)))" using cases f H(3)[of fd] by blast
    qed
    show "a = b" if h: "parse_heap s' a = Some x" "parse_heap s' b = Some y" "fd \<in> conn_fds x" "fd \<in> conn_fds y" for a b x y fd
      using cases[OF h(1)] cases[OF h(2)] h(3,4) f new[of a x fd] new[of b y fd] H(4)[of a x b y fd] by auto
  qed
  moreover have "conn_ok x \<and> q < next_addr s' \<and> conn_tracked (ps_log s') (ps_fdin x) = Some q" if h: "parse_heap s' q = Some x" for q x
    using cases[OF h]
  proof
    assume "q = ?p \<and> x = conn_new i out"
    then show ?thesis by (simp add: s' conn_new_def conn_ok_def)
  next
    assume q: "q \<noteq> ?p \<and> parse_heap s q = Some x"
    then have "ps_fdin x \<noteq> i" using new[of q x "ps_fdin x"] by (simp add: conn_fds_def)
    with q D(2-4)[of q x] show ?thesis by (simp add: s')
  qed
  moreover have "\<exists>x. parse_heap s' q = Some x \<and> ps_fdin x = fd" if h: "conn_tracked (ps_log s') fd = Some q" for fd q
  proof (cases "fd = i")
    case True
    with h show ?thesis by (simp add: s' conn_new_def)
  next
    case False
    with h have "conn_tracked (ps_log s) fd = Some q" by (simp add: s')
    with D(5) old show ?thesis by blast
  qed
  ultimately show ?thesis unfolding conns_inv_def by blast
qed

lemma netsock_callback_spec:
  fixes s :: "'a xdp_state_scheme"
  assumes C: "client_ok C" and I: "xdp_inv_with K L s"
  obtains r s' where "netsock_callback E C s = Some (r, s')" "xdp_inv_with K L s'"
proof -
  note result = that
  have P: "proc_inv_with K L [] s" and N: "conns_inv s" using I by (simp_all add: xdp_inv_with_def)
  define n where "n = cl_accept C (ps_log s)"
  have n: "n \<notin> open_conns (ps_log s)" "n \<noteq> 0" using C by (simp_all add: client_ok_def n_def)
  have keep: "xdp_inv_with K L (s\<lparr>next_addr := m, ps_log := l\<rparr>)" if "same_net (ps_log s) l" "next_addr s \<le> m" for l m
  proof -
    have "conns_inv (s\<lparr>next_addr := m, ps_log := l\<rparr>)" by (rule conns_inv_cong[OF N]) (use that in simp_all)
    moreover have "proc_inv_with K L [] (s\<lparr>next_addr := m, ps_log := l\<rparr>)"
      using proc_inv_config[OF P that(2), where h = "parse_heap s" and l = l] by simp
    ultimately show ?thesis by (simp add: xdp_inv_with_def)
  qed
  have closed: "same_net (ps_log s) (Pio_close n # ps)" if "open_conns ps = insert n (open_conns (ps_log s))"
    "conn_tracked ps = conn_tracked (ps_log s)" for ps
    using that n(1) by (auto simp: same_net_def fun_eq_iff)
  let ?p = "next_addr s"
  let ?l = "Pio_accept n # ps_log s"
  let ?rc = "cl_register C ?l n ?p"
  consider (fail) "n < 1" | (memory) "0 < n" "\<not> calloc_ok E ?p" | (refused) "0 < n" "calloc_ok E ?p" "?rc \<noteq> 0"
    | (connected) "0 < n" "calloc_ok E ?p" "?rc = 0" using n(2) by linarith
  then show ?thesis
  proof cases
    case fail
    then have "same_net (ps_log s) ?l" using n(2) by (simp add: same_net_def fun_eq_iff)
    from keep[OF this order_refl] fail show ?thesis
      by (intro result[of 1 "s\<lparr>ps_log := ?l\<rparr>"]) (simp_all add: netsock_callback_def pio_do_def parse_free_def flip: n_def)
  next
    case memory
    then have "same_net (ps_log s) (Pio_close n # ?l)" by (intro closed) (simp_all add: fun_eq_iff)
    from keep[OF this, of "?p + 1"] memory show ?thesis
      by (intro result[of 1 "s\<lparr>next_addr := ?p + 1, ps_log := Pio_close n # ?l\<rparr>"])
        (simp_all add: netsock_callback_def pio_do_def parse_new_def calloc_def parse_free_def flip: n_def)
  next
    case refused
    then have "same_net (ps_log s) (Pio_close n # Pio_register n ?p ?rc # ?l)" by (intro closed) (simp_all add: fun_eq_iff)
    note inv = keep[OF this, of "?p + 1"]
    have h: "(parse_heap s)(?p := None) = parse_heap s" using conns_inv_fresh[OF N] by (simp add: fun_eq_iff)
    show ?thesis
      by (rule result[of 1 "s\<lparr>next_addr := ?p + 1, ps_log := Pio_close n # Pio_register n ?p ?rc # ?l\<rparr>"])
        (use refused inv h in \<open>simp_all add: netsock_callback_def pio_do_def parse_new_def calloc_def parse_free_def parse_put_def
          Let_def flip: n_def\<close>)
  next
    case connected
    let ?s' = "s\<lparr>next_addr := ?p + 1, parse_heap := (parse_heap s)(?p \<mapsto> conn_new n n), ps_log := Pio_register n ?p ?rc # ?l\<rparr>"
    have "conns_inv ?s'"
      by (rule conns_inv_add[OF N, of n n]) (use connected n in \<open>simp_all add: fun_eq_iff\<close>)
    moreover have "proc_inv_with K L [] ?s'" by (rule proc_inv_config[OF P]) simp
    ultimately have "xdp_inv_with K L ?s'" by (simp add: xdp_inv_with_def)
    with connected show ?thesis
      by (intro result[of 0 ?s']) (simp_all add: netsock_callback_def pio_do_def parse_new_def calloc_def conn_new_def Let_def flip: n_def)
  qed
qed

lemma main_setup_spec:
  fixes s :: "'a xdp_state_scheme"
  assumes C: "client_ok C" and I: "xdp_inv_with K L s" and run: "main_setup E C s = Some (True, s')"
  shows "xdp_inv_with K L s'"
proof -
  have P: "proc_inv_with K L [] s" and N: "conns_inv s" using I by (simp_all add: xdp_inv_with_def)
  define i where "i = cl_dup C (ps_log s) 0"
  define out where "out = cl_dup C (Pio_dup i # ps_log s) 1"
  have dup: "cl_dup C l fd \<notin> open_conns l" for l fd using C by (simp add: client_ok_def)
  have fresh: "i \<notin> open_conns (ps_log s)" "out \<notin> open_conns (Pio_dup i # ps_log s)"
    unfolding i_def out_def by (rule dup)+
  let ?p = "next_addr s"
  let ?l = "Pio_dup out # Pio_dup i # ps_log s"
  let ?s' = "s\<lparr>next_addr := ?p + 1, parse_heap := (parse_heap s)(?p \<mapsto> conn_new i out), ps_log := Pio_register i ?p (cl_register C ?l i ?p) # ?l\<rparr>"
  have ok: "0 \<le> i" "0 \<le> out" "cl_register C ?l i ?p = 0" "s' = ?s'"
    using run by (auto simp: main_setup_def parse_new_def calloc_def pio_do_def conn_new_def Let_def i_def[symmetric] out_def[symmetric]
        split: if_splits)
  have "conns_inv ?s'"
    by (rule conns_inv_add[OF N ok(1,2) fresh(1)]) (use fresh ok in \<open>auto simp: fun_eq_iff\<close>)
  moreover have "proc_inv_with K L [] ?s'" by (rule proc_inv_config[OF P]) simp
  ultimately show ?thesis unfolding ok(4) by (simp add: xdp_inv_with_def)
qed

text \<open>The listening sockets are not connections.\<close>

lemma netsock_each_net: "\<exists>l. snd (netsock_each C infos s) = s\<lparr>ps_log := l\<rparr> \<and> same_net (ps_log s) l"
proof (induction infos arbitrary: s)
  case Nil
  then show ?case by (intro exI[of _ "ps_log s"]) simp
next
  case (Cons info infos)
  let ?fd = "cl_socket C (ps_log s) info"
  let ?l1 = "Pio_socket ?fd # ps_log s"
  let ?l2 = "Pio_listen ?fd (cl_listen C ?l1 ?fd) # ?l1"
  have net: "same_net (ps_log s) ?l1" "same_net (ps_log s) ?l2" by (simp_all add: same_net_def fun_eq_iff)
  show ?case
  proof (cases "?fd \<ge> 1 \<and> sockops_ok C ?l1 ?fd info \<and> cl_listen C ?l1 ?fd = 0")
    case True
    from Cons[of "s\<lparr>ps_log := ?l2\<rparr>"] obtain l where
      l: "snd (netsock_each C infos (s\<lparr>ps_log := ?l2\<rparr>)) = s\<lparr>ps_log := l\<rparr>" "same_net ?l2 l" by auto
    have "same_net (ps_log s) l" using net(2) l(2) by (rule same_net_trans)
    with l(1) True show ?thesis by (intro exI[of _ l]) (simp add: pio_do_def Let_def)
  next
    case False
    with net show ?thesis
      by (cases "?fd \<ge> 1 \<and> sockops_ok C ?l1 ?fd info")
        (auto simp: pio_do_def Let_def not_le intro: exI[of _ ?l1] exI[of _ ?l2])
  qed
qed

lemma main_options_net: "\<exists>l. snd (main_options C opts s) = s\<lparr>ps_log := l\<rparr> \<and> same_net (ps_log s) l"
proof (induction opts arbitrary: s)
  case Nil
  then show ?case by (intro exI[of _ "ps_log s"]) simp
next
  case (Cons x opts)
  show ?case
  proof (cases x)
    case (Opt_ip a)
    have "\<exists>l. snd (netsock C a s) = s\<lparr>ps_log := l\<rparr> \<and> same_net (ps_log s) l"
      using netsock_each_net[of C "[]" s] netsock_each_net[of C _ s] by (simp add: netsock_def split: option.split)
    then obtain e l where l: "netsock C a s = (e, s\<lparr>ps_log := l\<rparr>)" "same_net (ps_log s) l" by (cases "netsock C a s") auto
    show ?thesis
    proof (cases "e = 0")
      case True
      from Cons[of "s\<lparr>ps_log := l\<rparr>"] obtain l' where
        l': "snd (main_options C opts (s\<lparr>ps_log := l\<rparr>)) = s\<lparr>ps_log := l'\<rparr>" "same_net l l'" by auto
      have "same_net (ps_log s) l'" using l(2) l'(2) by (rule same_net_trans)
      with l(1) l'(1) True show ?thesis unfolding Opt_ip by (intro exI[of _ l']) simp
    next
      case False
      with l show ?thesis unfolding Opt_ip by (intro exI[of _ l]) simp
    qed
  next
    case Opt_help
    show ?thesis unfolding Opt_help by (intro exI[of _ "ps_log s"]) simp
  next
    case Opt_invalid
    show ?thesis unfolding Opt_invalid by (intro exI[of _ "ps_log s"]) simp
  qed
qed

lemma main_start_spec:
  fixes s :: "'a xdp_state_scheme"
  assumes C: "client_ok C" and I: "xdp_inv_with K L s" and run: "main_start E C opts s = Some (True, s')"
  shows "xdp_inv_with K L s'"
proof -
  obtain s1 where s1: "main_setup E C s = Some (True, s1)" "main_options C opts s1 = (True, s')"
    using run by (auto simp: main_start_def bind_eq_Some_conv split: if_splits)
  have I1: "xdp_inv_with K L s1" by (rule main_setup_spec[OF C I s1(1)])
  obtain l where l: "s' = s1\<lparr>ps_log := l\<rparr>" "same_net (ps_log s1) l" using main_options_net[of C opts s1] s1(2) by auto
  have "conns_inv s'" by (rule conns_inv_cong[of s1]) (use I1 l in \<open>simp_all add: xdp_inv_with_def\<close>)
  with proc_inv_log[of K L "[]" s1 l] I1 l(1) show ?thesis by (simp add: xdp_inv_with_def)
qed

end
