(* ===== verification/Runs.thy ===== *)
theory Runs
  imports Network
begin

text \<open>
  The program as a whole. Its events are the steps of a relation; every state that they lead to
  from the start satisfies the invariant of the configuration and of the connections, and no
  command or connection gets stuck.
\<close>

subsection \<open>Packets and interfaces that fail\<close>

lemma iface_drop_spec:
  fixes s :: "'a process_state_scheme"
  assumes P: "proc_inv_with K L [] s" and p: "iface_heap s p = Some x"
  obtains s' where "iface_free (Some p) (io_do (Io_remove (if_fd x)) s) = Some s'" "proc_inv_with K L [] s'"
    "process_state.more s' = process_state.more s" "next_addr s' = next_addr s"
proof -
  note B = base_invD[OF proc_invD(1)[OF P]]
  let ?s = "io_do (Io_remove (if_fd x)) s"
  have I: "ifaces_inv ?s" by (rule ifaces_inv_cong[OF B(2)]) (simp_all add: io_do_def)
  have p': "iface_heap ?s p = Some x" using p by (simp add: io_do_def)
  have tr: "tracked (io_log ?s) fd = (if fd = if_fd x then None else tracked (io_log s) fd)" for fd by (simp add: io_do_def)
  show ?thesis
  proof (cases "if_refcnt x = 0")
    case False
    have "rule_inv_with K [] ?s" by (rule rule_inv_cong[OF B(1)]) (simp_all add: io_do_def)
    moreover have "ifaces_tracked ?s"
      using B(3) unfolding ifaces_tracked_def tr by (simp add: io_do_def)
    ultimately have "base_inv K ?s" using I by (simp add: base_inv_def)
    then have "proc_inv_with K L [] ?s" by (rule proc_inv_below[OF P]) (simp_all add: io_do_def)
    moreover have "iface_free (Some p) ?s = Some ?s" using p' False by (simp add: iface_free_def)
    ultimately show ?thesis by (intro that[of ?s]) (simp_all add: io_do_def)
  next
    case True
    obtain nm where nm: "if_name x = Some nm" using ifaces_invD(3)[OF I p'] by (auto simp: iface_ok_def)
    obtain s' where s': "iface_free (Some p) ?s = Some s'" "ifaces_inv s'" "s' = ?s\<lparr>iface_heap := (iface_heap ?s)(p := None),
       iface_JS := js_delete (iface_JS ?s) nm, io_log := Io_close (if_fd x) # io_log ?s\<rparr>" by (rule iface_free_spec[OF I p' True nm])
    have "rule_inv_with K [] s'" by (rule rule_inv_cong[OF B(1)]) (simp_all add: s'(3) io_do_def)
    moreover have "ifaces_tracked s'"
      unfolding ifaces_tracked_def
    proof (intro allI impI)
      fix fd q assume "tracked (io_log s') fd = Some q"
      then have t: "fd \<noteq> if_fd x" "tracked (io_log s) fd = Some q" by (simp_all add: s'(3) io_do_def split: if_splits)
      with B(3) obtain y where "iface_heap s q = Some y" "if_fd y = fd" unfolding ifaces_tracked_def by blast
      with t(1) p show "\<exists>y. iface_heap s' q = Some y \<and> if_fd y = fd" by (cases "q = p") (auto simp: s'(3) io_do_def)
    qed
    ultimately have "base_inv K s'" using s'(2) by (simp add: base_inv_def)
    then have "proc_inv_with K L [] s'"
    proof (rule proc_inv_below[OF P])
      show "iface_heap s' q = Some y" if "iface_heap s q = Some y" "if_refcnt y \<noteq> 0" for q y
        using that p True by (cases "q = p") (auto simp: s'(3) io_do_def)
      show "iface_heap s q = Some y \<or> iface_heap s q = None \<and> if_refcnt y = 0 \<and> if_handler y = None" if "iface_heap s' q = Some y" for q y
        using that by (simp add: s'(3) io_do_def split: if_splits)
    qed (simp_all add: s'(3) io_do_def)
    with s'(1) show ?thesis by (rule that) (simp_all add: s'(3) io_do_def)
  qed
qed

lemma iface_event_spec:
  fixes s :: "'a xdp_state_scheme"
  assumes I: "xdp_inv_with K L s" and run: "iface_event en os rx p s = Some s'"
  shows "xdp_inv_with K L s'"
proof -
  have P: "proc_inv_with K L [] s" and N: "conns_inv s" using I by (simp_all add: xdp_inv_with_def)
  from run obtain r s1 where c: "iface_callback (call_handler en os) rx p s = Some (r, s1)"
    by (cases "iface_callback (call_handler en os) rx p s") (auto simp: iface_event_def)
  have F: "hot_frame s s1" by (rule iface_callback_frame[OF c])
  have P1: "proc_inv_with K L [] s1" by (rule proc_inv_hot[OF F P])
  have same: "parse_heap s1 = parse_heap s" "ps_log s1 = ps_log s" "next_addr s1 = next_addr s"
    by (rule more_conns[OF hot_frame_sel(12)[OF F]] hot_frame_sel(1)[OF F])+
  have conns: "conns_inv t" if "process_state.more t = process_state.more s1" "next_addr t = next_addr s1" for t :: "'a xdp_state_scheme"
    by (rule conns_inv_cong[OF N]) (use same more_conns[OF that(1)] that(2) in simp_all)
  show ?thesis
  proof (cases "r = 0")
    case True
    with run c have "s' = s1" by (simp add: iface_event_def)
    with P1 conns[OF refl refl] show ?thesis by (simp add: xdp_inv_with_def)
  next
    case False
    with run c obtain x where x: "iface_heap s1 p = Some x" and f: "iface_free (Some p) (io_do (Io_remove (if_fd x)) s1) = Some s'"
      by (cases "iface_heap s1 p") (auto simp: iface_event_def)
    obtain t where "iface_free (Some p) (io_do (Io_remove (if_fd x)) s1) = Some t" "proc_inv_with K L [] t"
      "process_state.more t = process_state.more s1" "next_addr t = next_addr s1" by (rule iface_drop_spec[OF P1 x])
    with f conns[of s'] show ?thesis by (simp add: xdp_inv_with_def)
  qed
qed

text \<open>
  An interface whose socket has an error is lost while a process uses it: the tracker forgets it,
  \<open>iface_free\<close> refuses to free it, and it stays among the interfaces without ever receiving
  another packet. Even when nothing uses it any more it cannot be deleted, as nothing is
  registered that \<open>eptk_remove\<close> could free.
\<close>

lemma iface_event_lost:
  assumes "iface_heap s p = Some x" and "if_refcnt x \<noteq> 0"
  shows "iface_event en os Rx_none p s = Some (io_do (Io_remove (if_fd x)) s)"
    and "tracked (io_log (io_do (Io_remove (if_fd x)) s)) (if_fd x) = None"
    and "iface_heap (io_do (Io_remove (if_fd x)) s) = iface_heap s"
  using assms by (simp_all add: iface_event_def iface_callback_def iface_free_def io_do_def)

subsection \<open>Runs\<close>

text \<open>
  The program starts with nothing. Its events are packets (and failures) of interfaces, input of
  connections, and new connections, in any order. When \<open>pl\<close> holds, only documents that lose
  nothing come in.
\<close>

definition xdp_start :: xdp_state where
  "xdp_start = \<lparr>next_addr = 0, field_heap = Map.empty, field_JS = [], memref_heap = Map.empty, state_JS = [],
     op_heap = Map.empty, rule_heap = Map.empty, rule_JS = [], iface_heap = Map.empty, iface_JS = [], io_log = [],
     rout_set_heap = Map.empty, rout_heap = Map.empty, process_heap = Map.empty, process_JS = [],
     parse_heap = Map.empty, ps_log = []\<rparr>"

inductive xdp_step :: "env \<Rightarrow> endian \<Rightarrow> os \<Rightarrow> client \<Rightarrow> bool \<Rightarrow> xdp_state \<Rightarrow> xdp_state \<Rightarrow> bool"
  for E en os C pl
where
  packet: "iface_heap s p \<noteq> None \<Longrightarrow> iface_event en os rx p s = Some s' \<Longrightarrow> xdp_step E en os C pl s s'"
| input: "parse_heap s p \<noteq> None \<Longrightarrow> callback_ok E os C p s \<Longrightarrow> (pl \<Longrightarrow> callback_plain E C p s) \<Longrightarrow>
    parse_event E os C p s = Some s' \<Longrightarrow> xdp_step E en os C pl s s'"
| connect: "netsock_callback E C s = Some (r, s') \<Longrightarrow> xdp_step E en os C pl s s'"

inductive xdp_run :: "env \<Rightarrow> endian \<Rightarrow> os \<Rightarrow> client \<Rightarrow> bool \<Rightarrow> xdp_state \<Rightarrow> bool"
  for E en os C pl
where
  begun: "main_start E C opts xdp_start = Some (True, s) \<Longrightarrow> xdp_run E en os C pl s"
| event: "xdp_run E en os C pl s \<Longrightarrow> xdp_step E en os C pl s s' \<Longrightarrow> xdp_run E en os C pl s'"

inductive_cases xdp_stepE: "xdp_step E en os C pl s s'"

lemma xdp_start_inv: "xdp_inv_with {} {} xdp_start"
proof -
  have "op_inv xdp_start"
    by (simp add: op_inv_def held_def xdp_start_def field_inv_def memref_inv_def registered_def js_get_def
        field_counts_def memref_counts_def)
  then have "rule_inv_with {} [] xdp_start"
    by (rule rule_invI) (simp_all add: xdp_start_def registered_def rules_hold_def js_get_def)
  moreover have "ifaces_inv xdp_start" "ifaces_tracked xdp_start"
    by (simp_all add: ifaces_inv_def ifaces_tracked_def xdp_start_def registered_def js_get_def fds_held_def)
  ultimately have "base_inv {} xdp_start" by (simp add: base_inv_def)
  then have "proc_inv_with {} {} [] xdp_start"
    by (rule proc_invI) (simp_all add: xdp_start_def objects_ok_def registered_def js_get_def handlers_ok_def rule_counts_def
        iface_counts_def sets_held_def routs_held_def)
  moreover have "conns_inv xdp_start" by (simp add: conns_inv_def conns_held_def xdp_start_def)
  ultimately show ?thesis by (simp add: xdp_inv_with_def)
qed

lemma xdp_step_inv:
  assumes E: "env_ok E" and os: "sock_ok os" "tracker_ok os" and C: "client_ok C" and ev: "xdp_step E en os C pl s s'"
    and I: "xdp_inv_with K L s"
  obtains K' L' where "xdp_inv_with K' L' s'" "pl \<Longrightarrow> K' = K \<and> L' = L"
  using ev
proof cases
  case (packet p rx)
  with iface_event_spec[OF I] that show ?thesis by blast
next
  case (input p)
  show ?thesis
    by (rule parse_event_spec[OF E os I input(1,2)]) (use input that in auto)
next
  case (connect r)
  show ?thesis by (rule netsock_callback_spec[OF C I, of E]) (use connect that in auto)
qed

lemma xdp_run_inv:
  assumes E: "env_ok E" and os: "sock_ok os" "tracker_ok os" and C: "client_ok C" and run: "xdp_run E en os C pl s"
  obtains K L where "xdp_inv_with K L s" "pl \<Longrightarrow> K = {} \<and> L = {}"
proof -
  from run have "\<exists>K L. xdp_inv_with K L s \<and> (pl \<longrightarrow> K = {} \<and> L = {})"
  proof induction
    case (begun s)
    from main_start_spec[OF C xdp_start_inv begun] show ?case by blast
  next
    case (event s s')
    then obtain K L where "xdp_inv_with K L s" "pl \<longrightarrow> K = {} \<and> L = {}" by blast
    then show ?case using xdp_step_inv[OF E os C event(2)] by metis
  qed
  with that show ?thesis by blast
qed

text \<open>
  C1: the program is sound. After whatever sequence of packets, failures of interfaces, documents
  and new connections, in any order, the invariants of all components hold: reference counts are
  exact, every interface and every connection owns its descriptors and no other is open, no
  buffer has overflowed. A new connection can always be handled without undefined behaviour, and
  so can the input of a connection whose document, if it is complete, satisfies \<open>callback_ok\<close>
  (the \<open>mapping_ok\<close> of Documents); and when no document loses anything, nothing is lost.
\<close>

theorem xdp_run_sound:
  assumes "env_ok E" and "sock_ok os" and "tracker_ok os" and "client_ok C" and "xdp_run E en os C pl s"
  shows "xdp_inv s \<and> (pl \<longrightarrow> proc_tight s) \<and> netsock_callback E C s \<noteq> None \<and>
    (\<forall>p. parse_heap s p \<noteq> None \<and> callback_ok E os C p s \<longrightarrow> parse_event E os C p s \<noteq> None)"
proof -
  obtain K L where I: "xdp_inv_with K L s" and t: "pl \<Longrightarrow> K = {} \<and> L = {}" using xdp_run_inv[OF assms] by blast
  have "xdp_inv s" using I by (auto simp: xdp_inv_def xdp_inv_with_def proc_inv_def)
  moreover have "pl \<longrightarrow> proc_tight s" using I t by (auto simp: xdp_inv_with_def proc_tight_def)
  moreover obtain r s' where "netsock_callback E C s = Some (r, s')" by (rule netsock_callback_spec[OF assms(4) I, of E])
  moreover have "parse_event E os C p s \<noteq> None" if p: "parse_heap s p \<noteq> None" "callback_ok E os C p s" for p
    by (rule parse_event_spec[OF assms(1-3) I p]) simp
  ultimately show ?thesis by auto
qed

text \<open>A run: a client connects and sends the definition of a field.\<close>

definition next_conn :: "pio list \<Rightarrow> int" where
  "next_conn l = foldr (\<lambda>i m. case i of Pio_dup fd \<Rightarrow> max m (fd + 1) | Pio_accept fd \<Rightarrow> max m (fd + 1) | _ \<Rightarrow> m) l 3"

definition document2 :: "(ynode \<times> ynode) list" where
  "document2 = [(YScalar ''add'', YSeq [YMap [(YScalar ''field'', YScalar ''ttl''), (YScalar ''offt'', YScalar ''22''),
     (YScalar ''len'', YScalar ''1'')]])]"

definition tracked_list :: "io list \<Rightarrow> pio list \<Rightarrow> tk_context list" where
  "tracked_list l pl =
     map Tk_iface (remdups (List.map_filter (\<lambda>i. case i of Io_register fd p rc \<Rightarrow> tracked l fd | _ \<Rightarrow> None) l)) @
     map Tk_parse (remdups (List.map_filter (\<lambda>i. case i of Pio_register fd p rc \<Rightarrow> conn_tracked pl fd | _ \<Rightarrow> None) pl))"

definition client2 :: client where
  "client2 = client1\<lparr>yl_load := (\<lambda>b. Some (Some (YMap document2))), cl_dup := (\<lambda>l fd. next_conn l), cl_accept := next_conn,
     tk_free := tracked_list\<rparr>"

lemma open_conns_less: "fd \<in> open_conns l \<Longrightarrow> fd < next_conn l"
  by (induction l rule: open_conns.induct) (auto simp: next_conn_def split: if_splits)

lemma next_conn_pos: "3 \<le> next_conn l"
  by (induction l) (auto simp: next_conn_def split: pio.split)

lemma client2_ok: "client_ok client2"
proof -
  have "next_conn l \<notin> open_conns l \<and> next_conn l \<noteq> 0" for l using open_conns_less[of "next_conn l" l] next_conn_pos[of l] by auto
  then show ?thesis by (simp add: client_ok_def client2_def)
qed

lemma document2_ok: "callback_ok env0 os0 client2 p s" "callback_plain env0 client2 p s"
proof -
  have "mapping_ok env0 os0 document2 e outroot t" for e outroot and t :: "'b xdp_state_scheme"
    by (simp add: document2_def mode_named_def child_ok_def scalar_values_def split: option.split prod.split)
  moreover have "mapping_plain document2"
    by (simp add: document2_def mapping_plain_def mode_list_of_def mode_named_def child_plain_def)
  ultimately show "callback_ok env0 os0 client2 p s" "callback_plain env0 client2 p s"
    by (auto simp: callback_ok_def callback_plain_def doc_ok_def doc_plain_def client2_def split: option.split)
qed

lemma run_example:
  obtains s where "xdp_run env0 LE os0 client2 True s" "parse_heap s 0 = Some (conn_new 3 4)" "ps_log s = [Pio_register 3 0 0, Pio_dup 4, Pio_dup 3]"
proof -
  have "\<exists>s. main_start env0 client2 [] xdp_start = Some (True, s) \<and> parse_heap s 0 = Some (conn_new 3 4) \<and>
      ps_log s = [Pio_register 3 0 0, Pio_dup 4, Pio_dup 3]"
    by (simp add: main_start_def main_setup_def parse_new_def calloc_def pio_do_def conn_new_def Let_def client2_def client1_def next_conn_def xdp_start_def)
  then show ?thesis using that xdp_run.begun by blast
qed

theorem xdp_run_sound_witness:
  "\<exists>s t. xdp_run env0 LE os0 client2 True s \<and> parse_event env0 os0 client2 0 s = Some t \<and>
     xdp_run env0 LE os0 client2 True t \<and> proc_tight t"
proof (rule run_example)
  fix s assume r: "xdp_run env0 LE os0 client2 True s" and p: "parse_heap s 0 = Some (conn_new 3 4)"
  note sound = xdp_run_sound[OF env_ok_env0 os0_ok client2_ok]
  obtain t where t: "parse_event env0 os0 client2 0 s = Some t" using sound[OF r] p document2_ok(1) by blast
  have "xdp_step env0 LE os0 client2 True s t"
    by (rule xdp_step.input[OF _ document2_ok t]) (simp add: p)
  with r have "xdp_run env0 LE os0 client2 True t" by (rule xdp_run.event)
  with sound[OF this] r t show ?thesis by blast
qed

end
