(* ===== verification/Shutdown.thy ===== *)
theory Shutdown
  imports Runs
begin

text \<open>
  The end of the program: after any run that loses nothing, the code after the main loop and the
  exit functions free every object and close every descriptor.
\<close>

subsection \<open>Loops over empty and over unused tables\<close>

lemma js_loop_nil: "arr s = [] \<Longrightarrow> js_loop arr body s = Some s"
  by (simp add: js_loop_def judy_first_def js_loop_from.simps)

lemma registered_empty: "registered nm_of js Map.empty \<Longrightarrow> js = []"
proof (rule ccontr)
  assume R: "registered nm_of js Map.empty" and "js \<noteq> []"
  then obtain k v js' where js: "js = (k, v) # js'" by (cases js) auto
  have "v \<noteq> None" using R by (auto simp: registered_def judy_ok_def js)
  then obtain p where "js_get js k = Some p" by (auto simp: js_get_def js)
  with R show False by (auto simp: registered_def)
qed

lemma field_free_all_spec:
  fixes s :: "'a field_state_scheme"
  assumes I: "field_inv s" and idle: "\<And>p fl. field_heap s p = Some fl \<Longrightarrow> fl_refcnt fl = 0"
  shows "field_free_all s = Some (s\<lparr>field_heap := Map.empty, field_JS := []\<rparr>)"
proof -
  let ?I = "\<lambda>t. field_inv t \<and> (\<forall>p fl. field_heap t p = Some fl \<longrightarrow> fl_refcnt fl = 0) \<and>
    (\<exists>h js. t = s\<lparr>field_heap := h, field_JS := js\<rparr>)"
  have "\<exists>s'. js_loop field_JS field_free s = Some s' \<and> ?I s' \<and> field_JS s' = []"
  proof (rule js_loop_frees)
    fix k v and t :: "'a field_state_scheme" assume T: "?I t" and get: "map_of (field_JS t) k = Some v"
    have F: "field_inv t" using T by blast
    have ok: "judy_ok (field_JS t)" using F by (simp add: field_inv_def registered_def)
    from get map_of_js_get[OF ok, of k] obtain p where p: "v = Some p" "js_get (field_JS t) k = Some p"
      by (cases "js_get (field_JS t) k") auto
    obtain fl where fl: "field_heap t p = Some fl" "fl_name fl = Some k" by (rule field_inv_get[OF F p(2)])
    let ?t = "t\<lparr>field_JS := js_delete (field_JS t) k, field_heap := (field_heap t)(p := None)\<rparr>"
    have run: "field_free (Some p) t = Some ?t" using field_free_eq[OF F fl(1)] T fl by simp
    have "\<exists>h js. ?t = s\<lparr>field_heap := h, field_JS := js\<rparr>"
    proof -
      from T obtain h js where "t = s\<lparr>field_heap := h, field_JS := js\<rparr>" by blast
      then have "?t = s\<lparr>field_heap := h(p := None), field_JS := js_delete js k\<rparr>" by simp
      then show ?thesis by blast
    qed
    moreover have "\<forall>q fl. field_heap ?t q = Some fl \<longrightarrow> fl_refcnt fl = 0" using T by simp
    ultimately have "?I ?t" using field_free_inv[OF F run] by blast
    with run p(1) show "\<exists>s'. field_free v t = Some s' \<and> ?I s' \<and> field_JS s' = judy_del (field_JS t) k"
      by (intro exI[of _ ?t]) (simp add: js_delete_def)
  next
    show "judy_ok (field_JS t)" if "?I t" for t using that by (simp add: field_inv_def registered_def)
    show "?I s" using I idle by (auto intro!: exI[of _ "field_heap s"] exI[of _ "field_JS s"])
  qed
  then obtain h where h: "field_free_all s = Some (s\<lparr>field_heap := h, field_JS := []\<rparr>)" "field_inv (s\<lparr>field_heap := h, field_JS := []\<rparr>)"
    unfolding field_free_all_def by auto
  have "h p = None" for p using h(2) by (cases "h p") (auto simp: field_inv_def js_get_def)
  then have "h = Map.empty" by auto
  with h(1) show ?thesis by simp
qed

lemma iface_free_all_spec:
  fixes s :: "'a iface_state_scheme"
  assumes I: "ifaces_inv s" and idle: "\<And>p x. iface_heap s p = Some x \<Longrightarrow> if_refcnt x = 0"
  obtains l where "iface_free_all s = Some (s\<lparr>iface_heap := Map.empty, iface_JS := [], io_log := l\<rparr>)" "open_fds l = {}"
proof -
  let ?I = "\<lambda>t. ifaces_inv t \<and> (\<forall>p x. iface_heap t p = Some x \<longrightarrow> if_refcnt x = 0) \<and>
    (\<exists>h js l. t = s\<lparr>iface_heap := h, iface_JS := js, io_log := l\<rparr>)"
  have "\<exists>s'. js_loop iface_JS iface_free s = Some s' \<and> ?I s' \<and> iface_JS s' = []"
  proof (rule js_loop_frees)
    fix k v and t :: "'a iface_state_scheme" assume T: "?I t" and get: "map_of (iface_JS t) k = Some v"
    have F: "ifaces_inv t" using T by blast
    have R: "registered if_name (iface_JS t) (iface_heap t)" by (rule ifaces_invD(2)[OF F])
    then have ok: "judy_ok (iface_JS t)" by (simp add: registered_def)
    from get map_of_js_get[OF ok, of k] obtain p where p: "v = Some p" "js_get (iface_JS t) k = Some p"
      by (cases "js_get (iface_JS t) k") auto
    obtain x where x: "iface_heap t p = Some x" "if_name x = Some k" by (rule reg.named_get[OF R p(2)])
    have z: "if_refcnt x = 0" using T x(1) by blast
    obtain t' where t': "iface_free (Some p) t = Some t'" "ifaces_inv t'" "t' = t\<lparr>iface_heap := (iface_heap t)(p := None),
      iface_JS := js_delete (iface_JS t) k, io_log := Io_close (if_fd x) # io_log t\<rparr>" by (rule iface_free_spec[OF F x(1) z x(2)])
    have "\<exists>h js l. t' = s\<lparr>iface_heap := h, iface_JS := js, io_log := l\<rparr>"
    proof -
      from T obtain h js l where "t = s\<lparr>iface_heap := h, iface_JS := js, io_log := l\<rparr>" by blast
      then have "t' = s\<lparr>iface_heap := h(p := None), iface_JS := js_delete js k, io_log := Io_close (if_fd x) # l\<rparr>" using t'(3) by simp
      then show ?thesis by blast
    qed
    moreover have "\<forall>q x. iface_heap t' q = Some x \<longrightarrow> if_refcnt x = 0" using T t'(3) by simp
    ultimately have "?I t'" using t'(2) by blast
    with t' p(1) show "\<exists>s'. iface_free v t = Some s' \<and> ?I s' \<and> iface_JS s' = judy_del (iface_JS t) k"
      by (intro exI[of _ t']) (simp add: js_delete_def)
  next
    show "judy_ok (iface_JS t)" if "?I t" for t using that ifaces_invD(2)[of t] by (simp add: registered_def)
    show "?I s" using I idle by (auto intro!: exI[of _ "iface_heap s"] exI[of _ "iface_JS s"] exI[of _ "io_log s"])
  qed
  then obtain h l where h: "iface_free_all s = Some (s\<lparr>iface_heap := h, iface_JS := [], io_log := l\<rparr>)"
    "ifaces_inv (s\<lparr>iface_heap := h, iface_JS := [], io_log := l\<rparr>)"
    unfolding iface_free_all_def by auto
  have "h p = None" for p using ifaces_invD(3)[OF h(2), of p] by (cases "h p") (auto simp: iface_ok_def js_get_def)
  then have "h = Map.empty" by auto
  moreover have "open_fds l = {}" using ifaces_invD(4)[OF h(2)] calculation by (auto simp: fds_held_def)
  ultimately show ?thesis using that h(1) by simp
qed

subsection \<open>The tracker\<close>

text \<open>What is documented of \<open>eptk_free\<close>: the destructor of every registered context runs, once.\<close>

definition tk_ok :: "client \<Rightarrow> bool" where
  "tk_ok C \<longleftrightarrow> (\<forall>l pl. distinct (tk_free C l pl) \<and>
     (\<forall>p. Tk_iface p \<in> set (tk_free C l pl) \<longleftrightarrow> (\<exists>fd. tracked l fd = Some p)) \<and>
     (\<forall>p. Tk_parse p \<in> set (tk_free C l pl) \<longleftrightarrow> (\<exists>fd. conn_tracked pl fd = Some p)))"

definition ifaces_idle :: "'a iface_state_scheme \<Rightarrow> bool" where
  "ifaces_idle s \<longleftrightarrow> ifaces_inv s \<and> (\<forall>p x. iface_heap s p = Some x \<longrightarrow> if_refcnt x = 0)"

lemma iface_free_idle:
  assumes I: "ifaces_idle s" and p: "iface_heap s p = Some x"
  obtains js l where "iface_free (Some p) s = Some (s\<lparr>iface_heap := (iface_heap s)(p := None), iface_JS := js, io_log := l\<rparr>)"
    "ifaces_idle (s\<lparr>iface_heap := (iface_heap s)(p := None), iface_JS := js, io_log := l\<rparr>)"
proof -
  have F: "ifaces_inv s" and z: "if_refcnt x = 0" using I p by (auto simp: ifaces_idle_def)
  obtain nm where nm: "if_name x = Some nm" using ifaces_invD(3)[OF F p] by (auto simp: iface_ok_def)
  obtain s' where s': "iface_free (Some p) s = Some s'" "ifaces_inv s'" "s' = s\<lparr>iface_heap := (iface_heap s)(p := None),
    iface_JS := js_delete (iface_JS s) nm, io_log := Io_close (if_fd x) # io_log s\<rparr>" by (rule iface_free_spec[OF F p z nm])
  have "ifaces_idle s'" using s'(2) I by (simp add: ifaces_idle_def s'(3))
  with s'(1,3) that show ?thesis by simp
qed

lemma destruct_spec:
  fixes s :: "'a xdp_state_scheme"
  assumes "ifaces_idle s" and "conns_held (parse_heap s) (ps_log s)" and "distinct ks"
    and "\<And>p. Tk_iface p \<in> set ks \<Longrightarrow> iface_heap s p \<noteq> None" and "\<And>p. Tk_parse p \<in> set ks \<Longrightarrow> parse_heap s p \<noteq> None"
  obtains ih js l pl where "destruct ks s = Some (s\<lparr>iface_heap := ih, iface_JS := js, io_log := l,
      parse_heap := (\<lambda>q. if Tk_parse q \<in> set ks then None else parse_heap s q), ps_log := pl\<rparr>)"
    "ifaces_idle (s\<lparr>iface_heap := ih, iface_JS := js, io_log := l\<rparr>)"
    "conns_held (\<lambda>q. if Tk_parse q \<in> set ks then None else parse_heap s q) pl"
  using assms
proof (induction ks arbitrary: s thesis)
  case Nil
  show ?case
    by (rule Nil.prems(1)[where ih = "iface_heap s" and js = "iface_JS s" and l = "io_log s" and pl = "ps_log s"])
      (use Nil.prems(2,3) in simp_all)
next
  case (Cons k ks)
  show ?case
  proof (cases k)
    case (Tk_iface p)
    then obtain x where "iface_heap s p = Some x" using Cons.prems(5)[of p] by auto
    with Cons.prems(2) obtain js l where
      f: "iface_free (Some p) s = Some (s\<lparr>iface_heap := (iface_heap s)(p := None), iface_JS := js, io_log := l\<rparr>)"
      "ifaces_idle (s\<lparr>iface_heap := (iface_heap s)(p := None), iface_JS := js, io_log := l\<rparr>)" by (rule iface_free_idle)
    let ?s = "s\<lparr>iface_heap := (iface_heap s)(p := None), iface_JS := js, io_log := l\<rparr>"
    have "distinct ks" "Tk_iface p \<notin> set ks" using Cons.prems(4) Tk_iface by simp_all
    then have "iface_heap ?s q \<noteq> None" if "Tk_iface q \<in> set ks" for q using Cons.prems(5)[of q] that by auto
    moreover have "parse_heap ?s q \<noteq> None" if "Tk_parse q \<in> set ks" for q using Cons.prems(6)[of q] that by simp
    moreover have "conns_held (parse_heap ?s) (ps_log ?s)" using Cons.prems(3) by simp
    ultimately obtain ih js' l' pl where "destruct ks ?s = Some (?s\<lparr>iface_heap := ih, iface_JS := js', io_log := l',
        parse_heap := (\<lambda>q. if Tk_parse q \<in> set ks then None else parse_heap ?s q), ps_log := pl\<rparr>)"
      "ifaces_idle (?s\<lparr>iface_heap := ih, iface_JS := js', io_log := l'\<rparr>)"
      "conns_held (\<lambda>q. if Tk_parse q \<in> set ks then None else parse_heap ?s q) pl"
      using Cons.IH[OF _ f(2) _ \<open>distinct ks\<close>] by blast
    with f(1) Tk_iface show ?thesis
      by (intro Cons.prems(1)[where ih = ih and js = js' and l = l' and pl = pl]) (simp_all cong: if_cong)
  next
    case (Tk_parse p)
    then obtain ps where "parse_heap s p = Some ps" using Cons.prems(6)[of p] by auto
    with Cons.prems(3) obtain l where
      f: "parse_free (Some p) s = Some (s\<lparr>parse_heap := (parse_heap s)(p := None), ps_log := l\<rparr>)"
      "conns_held ((parse_heap s)(p := None)) l" by (rule parse_free_spec)
    let ?s = "s\<lparr>parse_heap := (parse_heap s)(p := None), ps_log := l\<rparr>"
    have "distinct ks" "Tk_parse p \<notin> set ks" using Cons.prems(4) Tk_parse by simp_all
    then have "parse_heap ?s q \<noteq> None" if "Tk_parse q \<in> set ks" for q using Cons.prems(6)[of q] that by auto
    moreover have "iface_heap ?s q \<noteq> None" if "Tk_iface q \<in> set ks" for q using Cons.prems(5)[of q] that by simp
    moreover have "ifaces_idle ?s"
      using Cons.prems(2) ifaces_inv_cong[of s ?s] by (simp add: ifaces_idle_def)
    moreover have "conns_held (parse_heap ?s) (ps_log ?s)" using f(2) by simp
    ultimately obtain ih js' l' pl where d: "destruct ks ?s = Some (?s\<lparr>iface_heap := ih, iface_JS := js', io_log := l',
        parse_heap := (\<lambda>q. if Tk_parse q \<in> set ks then None else parse_heap ?s q), ps_log := pl\<rparr>)"
      "ifaces_idle (?s\<lparr>iface_heap := ih, iface_JS := js', io_log := l'\<rparr>)"
      "conns_held (\<lambda>q. if Tk_parse q \<in> set ks then None else parse_heap ?s q) pl"
      using Cons.IH[OF _ _ _ \<open>distinct ks\<close>] by blast
    have same: "(\<lambda>q. if Tk_parse q \<in> set ks then None else parse_heap ?s q) =
        (\<lambda>q. if Tk_parse q \<in> set (k # ks) then None else parse_heap s q)" using Tk_parse by (auto simp: fun_eq_iff)
    have "ifaces_idle (s\<lparr>iface_heap := ih, iface_JS := js', io_log := l'\<rparr>)"
      using d(2) ifaces_inv_cong[of "?s\<lparr>iface_heap := ih, iface_JS := js', io_log := l'\<rparr>" "s\<lparr>iface_heap := ih, iface_JS := js', io_log := l'\<rparr>"]
      by (simp add: ifaces_idle_def)
    then show ?thesis
      using d f(1) Tk_parse
      by (intro Cons.prems(1)[where ih = ih and js = js' and l = l' and pl = pl]) (simp_all add: same)
  qed
qed

subsection \<open>The end\<close>

lemma rule_more_sel:
  fixes s :: "'a process_state_scheme"
  assumes "rule_state.more s' = rule_state.more s"
  shows "iface_heap s' = iface_heap s" "iface_JS s' = iface_JS s" "io_log s' = io_log s" "rout_heap s' = rout_heap s"
    "rout_set_heap s' = rout_set_heap s" "process_heap s' = process_heap s" "process_JS s' = process_JS s"
    "process_state.more s' = process_state.more s"
  using assms by (cases s; cases s'; simp)+

definition no_objects :: "'a process_state_scheme \<Rightarrow> bool" where
  "no_objects s \<longleftrightarrow> field_heap s = Map.empty \<and> field_JS s = [] \<and> memref_heap s = Map.empty \<and> state_JS s = [] \<and>
     op_heap s = Map.empty \<and> rule_heap s = Map.empty \<and> rule_JS s = [] \<and> rout_heap s = Map.empty \<and>
     rout_set_heap s = Map.empty \<and> process_heap s = Map.empty \<and> process_JS s = []"

lemma free_objects_spec:
  fixes s :: "'a process_state_scheme"
  assumes P: "proc_inv_with {} {} [] s"
  obtains s' where "do { s \<leftarrow> process_free_all s; s \<leftarrow> rule_free_all s; field_free_all s } = Some s'" "no_objects s'"
    "ifaces_idle s'" "ifaces_tracked s'" "process_state.more s' = process_state.more s"
proof -
  obtain s1 where s1: "process_free_all s = Some s1" "proc_inv_with {} {} [] s1" "no_processes s1"
    "process_JS s1 = []" "process_state.more s1 = process_state.more s" by (rule process_free_all_spec[OF P])
  note B = base_invD[OF proc_invD(1)[OF s1(2)]]
  have tight: "rule_tight s1" using B(1) by (simp add: rule_tight_def)
  have idle: "rl_refcnt rule = 0" if "rule_heap s1 p = Some rule" for p rule using s1(3) that by (simp add: no_processes_def)
  obtain s2 where s2: "rule_free_all s1 = Some s2" "rule_tight s2" "rule_JS s2 = []" "rule_heap s2 = Map.empty"
    "op_heap s2 = Map.empty" "rule_state.more s2 = rule_state.more s1" "next_addr s1 \<le> next_addr s2"
    by (rule rule_free_all_spec[OF tight idle])
  note same = rule_more_sel[OF s2(6)]
  have op: "op_inv s2" using s2(2) rule_invD(1) by (auto simp: rule_tight_def)
  note none = no_ops_empty[OF op s2(5)]
  have "field_inv s2" "memref_inv s2" using op by (simp_all add: op_inv_def held_def)
  have f: "field_free_all s2 = Some (s2\<lparr>field_heap := Map.empty, field_JS := []\<rparr>)"
    by (rule field_free_all_spec[OF \<open>field_inv s2\<close> none(2)])
  let ?s3 = "s2\<lparr>field_heap := Map.empty, field_JS := []\<rparr>"
  have "state_JS s2 = []" using memref_inv_registered[OF \<open>memref_inv s2\<close>] none(1) registered_empty by metis
  then have "no_objects ?s3" using s1(3,4) s2(3-5) none(1) by (simp add: no_objects_def same no_processes_def)
  moreover have "ifaces_inv ?s3" by (rule ifaces_inv_cong[OF B(2)]) (use s2(7) in \<open>simp_all add: same\<close>)
  then have "ifaces_idle ?s3" using s1(3) by (simp add: ifaces_idle_def same no_processes_def)
  moreover have "ifaces_tracked ?s3" using B(3) by (simp add: ifaces_tracked_def same)
  ultimately show ?thesis using that[of ?s3] s1(1,5) s2(1) f by (simp add: same)
qed

lemma main_exit_spec:
  fixes s :: "'a xdp_state_scheme"
  assumes I: "xdp_inv_with {} {} s" and C: "tk_ok C"
  obtains s' where "main_exit C s = Some s'" "no_objects s'" "ifaces_idle s'" "parse_heap s' = Map.empty"
    "open_conns (ps_log s') = {}"
proof -
  have P: "proc_inv_with {} {} [] s" and N: "conns_inv s" using I by (simp_all add: xdp_inv_with_def)
  obtain t where t: "do { s \<leftarrow> process_free_all s; s \<leftarrow> rule_free_all s; field_free_all s } = Some t" "no_objects t"
    "ifaces_idle t" "ifaces_tracked t" "process_state.more t = process_state.more s" by (rule free_objects_spec[OF P])
  note conns = more_conns[OF t(5)]
  let ?ks = "tk_free C (io_log t) (ps_log t)"
  have ks: "distinct ?ks" "Tk_iface p \<in> set ?ks \<longleftrightarrow> (\<exists>fd. tracked (io_log t) fd = Some p)"
    "Tk_parse p \<in> set ?ks \<longleftrightarrow> (\<exists>fd. conn_tracked (ps_log t) fd = Some p)" for p using C by (simp_all add: tk_ok_def)
  have i: "iface_heap t p \<noteq> None" if "Tk_iface p \<in> set ?ks" for p
    using that t(4) unfolding ks(2) ifaces_tracked_def by blast
  have c: "Tk_parse p \<in> set ?ks \<longleftrightarrow> parse_heap t p \<noteq> None" for p
  proof -
    have "(\<exists>fd. conn_tracked (ps_log t) fd = Some p) \<longleftrightarrow> parse_heap t p \<noteq> None"
      unfolding conns using conns_invD(4,5)[OF N] by blast
    then show ?thesis unfolding ks(3) .
  qed
  have held: "conns_held (parse_heap t) (ps_log t)" using conns_invD(1)[OF N] by (simp add: conns)
  obtain ih js l pl where d: "destruct ?ks t = Some (t\<lparr>iface_heap := ih, iface_JS := js, io_log := l,
      parse_heap := (\<lambda>q. if Tk_parse q \<in> set ?ks then None else parse_heap t q), ps_log := pl\<rparr>)"
    "ifaces_idle (t\<lparr>iface_heap := ih, iface_JS := js, io_log := l\<rparr>)"
    "conns_held (\<lambda>q. if Tk_parse q \<in> set ?ks then None else parse_heap t q) pl"
    by (rule destruct_spec[OF t(3) held ks(1) i]) (use c in blast)+
  have empty: "(\<lambda>q. if Tk_parse q \<in> set ?ks then None else parse_heap t q) = Map.empty" using c by (auto simp: fun_eq_iff)
  let ?s' = "t\<lparr>iface_heap := ih, iface_JS := js, io_log := l, parse_heap := Map.empty, ps_log := pl\<rparr>"
  have "main_exit C s = Some ?s'"
    using t(1) d(1) unfolding empty main_exit_def eptk_free_def
    by (cases "process_free_all s"; simp; cases "rule_free_all (the (process_free_all s))"; simp)
  moreover have "no_objects ?s'" using t(2) by (simp add: no_objects_def)
  moreover have "ifaces_idle ?s'"
    using d(2) ifaces_inv_cong[of "t\<lparr>iface_heap := ih, iface_JS := js, io_log := l\<rparr>" ?s'] by (simp add: ifaces_idle_def)
  moreover have "open_conns pl = {}" using d(3) unfolding empty conns_held_def by auto
  ultimately show ?thesis using that[of ?s'] by simp
qed

definition nothing_left :: "'a xdp_state_scheme \<Rightarrow> bool" where
  "nothing_left s \<longleftrightarrow> no_objects s \<and> iface_heap s = Map.empty \<and> iface_JS s = [] \<and> parse_heap s = Map.empty \<and>
     open_fds (io_log s) = {} \<and> open_conns (ps_log s) = {}"

lemma exit_destructors_spec:
  fixes s :: "'a xdp_state_scheme"
  assumes none: "no_objects s" and idle: "ifaces_idle s" and conns: "parse_heap s = Map.empty" "open_conns (ps_log s) = {}"
  obtains s' where "exit_destructors s = Some (0, s')" "nothing_left s'"
proof -
  have js: "process_JS s = []" "rule_JS s = []" "state_JS s = []" "field_JS s = []" using none by (simp_all add: no_objects_def)
  have i: "ifaces_inv s" "\<And>p x. iface_heap s p = Some x \<Longrightarrow> if_refcnt x = 0" using idle by (auto simp: ifaces_idle_def)
  obtain l where l: "iface_free_all s = Some (s\<lparr>iface_heap := Map.empty, iface_JS := [], io_log := l\<rparr>)" "open_fds l = {}"
    by (rule iface_free_all_spec[OF i])
  let ?s' = "s\<lparr>iface_heap := Map.empty, iface_JS := [], io_log := l\<rparr>"
  have "exit_destructors s = Some (0, ?s')"
    using l(1) by (simp add: exit_destructors_def process_free_all_def rule_free_all_def field_free_all_def
        memref_check_exit_def js_loop_nil js)
  moreover have "nothing_left ?s'" using none conns l(2) by (simp add: nothing_left_def no_objects_def)
  ultimately show ?thesis by (rule that)
qed

text \<open>
  C2: nothing is left at the end. When the loop of \<open>main\<close> ends, after any run in which no document
  lost anything, \<open>main\<close> and the exit functions free every field, state, operation, rule,
  interface, rout, process and connection, each once; no leaked state is reported, and every
  socket and every connection is closed.
\<close>

theorem exit_frees_all:
  assumes "env_ok E" and "sock_ok os" and "tracker_ok os" and "client_ok C" and "tk_ok C" and "xdp_run E en os C True s"
  shows "\<exists>t u. main_exit C s = Some t \<and> exit_destructors t = Some (0, u) \<and> nothing_left u"
proof -
  have "xdp_inv_with {} {} s" using xdp_run_inv[OF assms(1-4,6)] by blast
  then obtain t where t: "main_exit C s = Some t" "no_objects t" "ifaces_idle t" "parse_heap t = Map.empty"
    "open_conns (ps_log t) = {}" using main_exit_spec[OF _ assms(5)] by blast
  obtain u where "exit_destructors t = Some (0, u)" "nothing_left u" by (rule exit_destructors_spec[OF t(2-5)])
  with t(1) show ?thesis by blast
qed

lemma tracked_registered: "tracked l fd = Some p \<Longrightarrow> \<exists>rc. Io_register fd p rc \<in> set l"
  by (induction l fd rule: tracked.induct) (auto split: if_splits)

lemma conn_tracked_registered: "conn_tracked l fd = Some p \<Longrightarrow> \<exists>rc. Pio_register fd p rc \<in> set l"
  by (induction l fd rule: conn_tracked.induct) (auto split: if_splits)

lemma in_map_filter: "y \<in> set (List.map_filter f xs) \<longleftrightarrow> (\<exists>x \<in> set xs. f x = Some y)"
  by (auto simp: List.map_filter_def image_iff)

lemma client2_tracker: "tk_ok client2"
  unfolding tk_ok_def
proof (intro allI conjI)
  fix l pl p
  let ?ks = "tk_free client2 l pl"
  show "distinct ?ks" by (auto simp: client2_def tracked_list_def distinct_map inj_on_def)
  let ?i = "\<lambda>i. case i of Io_register fd p rc \<Rightarrow> tracked l fd | _ \<Rightarrow> None"
  let ?c = "\<lambda>i. case i of Pio_register fd p rc \<Rightarrow> conn_tracked pl fd | _ \<Rightarrow> None"
  have "Tk_iface p \<in> set ?ks \<longleftrightarrow> (\<exists>i \<in> set l. ?i i = Some p)" "Tk_parse p \<in> set ?ks \<longleftrightarrow> (\<exists>i \<in> set pl. ?c i = Some p)"
    by (simp_all add: client2_def tracked_list_def in_map_filter image_iff)
  note in_ks = this
  show "Tk_iface p \<in> set ?ks \<longleftrightarrow> (\<exists>fd. tracked l fd = Some p)"
    unfolding in_ks
  proof
    assume "\<exists>fd. tracked l fd = Some p"
    then obtain fd rc where "tracked l fd = Some p" "Io_register fd p rc \<in> set l" using tracked_registered by blast
    then show "\<exists>i \<in> set l. ?i i = Some p" by (intro bexI[of _ "Io_register fd p rc"]) simp_all
  next
    assume "\<exists>i \<in> set l. ?i i = Some p"
    then obtain i where "?i i = Some p" ..
    then show "\<exists>fd. tracked l fd = Some p" by (cases i) auto
  qed
  show "Tk_parse p \<in> set ?ks \<longleftrightarrow> (\<exists>fd. conn_tracked pl fd = Some p)"
    unfolding in_ks
  proof
    assume "\<exists>fd. conn_tracked pl fd = Some p"
    then obtain fd rc where "conn_tracked pl fd = Some p" "Pio_register fd p rc \<in> set pl" using conn_tracked_registered by blast
    then show "\<exists>i \<in> set pl. ?c i = Some p" by (intro bexI[of _ "Pio_register fd p rc"]) simp_all
  next
    assume "\<exists>i \<in> set pl. ?c i = Some p"
    then obtain i where "?c i = Some p" ..
    then show "\<exists>fd. conn_tracked pl fd = Some p" by (cases i) auto
  qed
qed

theorem exit_frees_all_witness:
  "\<exists>(s :: xdp_state) t u. parse_heap s 0 \<noteq> None \<and> open_conns (ps_log s) = {3, 4} \<and> main_exit client2 s = Some t \<and>
     exit_destructors t = Some (0, u) \<and> nothing_left u"
proof (rule run_example)
  fix s assume r: "xdp_run env0 LE os0 client2 True s" and p: "parse_heap s 0 = Some (conn_new 3 4)"
    and l: "ps_log s = [Pio_register 3 0 0, Pio_dup 4, Pio_dup 3]"
  from exit_frees_all[OF env_ok_env0 os0_ok client2_ok client2_tracker r] obtain t u where
    "main_exit client2 s = Some t" "exit_destructors t = Some (0, u)" "nothing_left u" by blast
  moreover have "open_conns (ps_log s) = {3, 4}" using l by auto
  ultimately show ?thesis using p by (intro exI[of _ s] exI[of _ t] exI[of _ u]) simp
qed

end
