(* ===== verification/Tests.thy ===== *)
theory Tests
  imports Operations
begin

text \<open>
  The tests of the repository, run on the model by the kernel: the bytes that \<open>value_parse\<close>
  yields for the vectors of src/test/value_test.c and how they are rendered, the operations and
  packets of src/test/op_test.c, and the extents that the mappings of src/test/field_test.c
  give. They hold for every environment and state that meet the stated hypotheses.
\<close>

subsection \<open>Addresses of IPv4 and Ethernet, numbers and texts\<close>

lemma value_test_ipv4:
  "value_parse E (Some ''192.168.1.1'') 4 = Some (0, [0xc0, 0xa8, 0x01, 0x01])"
  "value_parse E (Some ''0.0.0.0'') 4 = Some (0, [0x00, 0x00, 0x00, 0x00])"
  "value_parse E (Some ''192.168.1'') 3 = Some (0, [0x31, 0x39, 0x32])"
  "value_parse E (Some ''192.168.1.0'') 3 = Some (0, [0xc0, 0xa8, 0x01])"
  by code_simp+

lemma value_test_mac:
  "value_parse E (Some ''00:11:aa:bb:cc:dd'') 6 = Some (0, [0x00, 0x11, 0xaa, 0xbb, 0xcc, 0xdd])"
  "value_parse E (Some ''00:11:aa:bb:cc'') 5 = Some (0, [0x30, 0x30, 0x3a, 0x31, 0x31])"
  "value_parse E (Some ''00:'') 3 = Some (0, [0x30, 0x30, 0x3a])"
  by code_simp+

lemma value_test_int:
  "value_parse E (Some ''1'') 8 = Some (0, [0x00, 0x00, 0x00, 0x00, 0x00, 0x00, 0x00, 0x01])"
  "value_parse E (Some ''12'') 4 = Some (0, [0x00, 0x00, 0x00, 0x0c])"
  "value_parse E (Some ''+11'') 1 = Some (0, [0x0b])"
  "value_parse E (Some ''-1'') 2 = Some (0, [0xff, 0xff])"
  "value_parse E (Some ''  0X000000d'') 1 = Some (0, [0x0d])"
  by code_simp+

lemma value_test_text:
  "value_parse E (Some [CHR 0x20, CHR 0x09]) 2 = Some (0, [0x20, 0x09])"
  by code_simp

text \<open>A number that needs seventeen bits: too large for two bytes, which counts an error.\<close>

lemma strtoll_wide: "strtoll ''0x12134'' = (0x12134, E_OK)"
  by (simp add: strtoll_def strtol_def strtoz_def scan_sign_def scan_base0_def digit_value_def
      isspace_def LONG_MAX_def LONG_MIN_def)

lemma be_bytes_wide: "be_bytes 4 0x12134 = [0x00, 0x01, 0x21, 0x34]"
  by code_simp

lemma re_wide:
  "rx_match re_ipv4 ''0x12134'' = False" "rx_match re_mac ''0x12134'' = False"
  "rx_match re_int ''0x12134'' = True"
  by code_simp+

lemma value_test_wide:
  "value_parse E (Some ''0x12134'') 4 = Some (0, [0x00, 0x01, 0x21, 0x34])"
  "value_parse E (Some ''0x12134'') 2 = Some (1, [0x00, 0x00])"
  by (simp_all add: value_parse_def re_wide value_parse_int_def strtoll_wide overflows_u_def
      be_bytes_wide value_parse_done_def value_parse_die_def numeral_2_eq_2)

subsection \<open>Addresses of IPv6\<close>

lemma value_test_ipv6_short:
  "value_parse E (Some ''::1'') 16 =
     Some (0, [0x00, 0x00, 0x00, 0x00, 0x00, 0x00, 0x00, 0x00, 0x00, 0x00, 0x00, 0x00, 0x00, 0x00, 0x00, 0x01])"
  "value_parse E (Some ''::'') 16 =
     Some (0, [0x00, 0x00, 0x00, 0x00, 0x00, 0x00, 0x00, 0x00, 0x00, 0x00, 0x00, 0x00, 0x00, 0x00, 0x00, 0x00])"
  by code_simp+

lemma re_ipv6_tests:
  "rx_match re_ipv6 ''2001:0db8:85a3:0000:0000:8a2e:0370:7334'' = True"
  "rx_match re_ipv6 ''2001:db8:85a3:0:0:8a2e:370:7334'' = True"
  "rx_match re_ipv6 ''2001:db8:85a3::8a2e:370:7334'' = True"
  by code_simp+

lemmas pton6_eval = inet_pton6_def pton6_put_def pton6_end_def digit_value_def

lemma replicate_four: "replicate 4 x = [x, x, x, x]"
  by (simp add: numeral_eq_Suc)

lemma inet_pton6_tests:
  "inet_pton6 ''2001:0db8:85a3:0000:0000:8a2e:0370:7334'' =
     Some [0x20, 0x01, 0x0d, 0xb8, 0x85, 0xa3, 0x00, 0x00, 0x00, 0x00, 0x8a, 0x2e, 0x03, 0x70, 0x73, 0x34]"
  "inet_pton6 ''2001:db8:85a3:0:0:8a2e:370:7334'' =
     Some [0x20, 0x01, 0x0d, 0xb8, 0x85, 0xa3, 0x00, 0x00, 0x00, 0x00, 0x8a, 0x2e, 0x03, 0x70, 0x73, 0x34]"
  "inet_pton6 ''2001:db8:85a3::8a2e:370:7334'' =
     Some [0x20, 0x01, 0x0d, 0xb8, 0x85, 0xa3, 0x00, 0x00, 0x00, 0x00, 0x8a, 0x2e, 0x03, 0x70, 0x73, 0x34]"
  by (simp_all add: pton6_eval replicate_four)

lemma value_test_ipv6:
  assumes "s \<in> {''2001:0db8:85a3:0000:0000:8a2e:0370:7334'', ''2001:db8:85a3:0:0:8a2e:370:7334'',
      ''2001:db8:85a3::8a2e:370:7334''}"
  shows "value_parse E (Some s) 16 =
    Some (0, [0x20, 0x01, 0x0d, 0xb8, 0x85, 0xa3, 0x00, 0x00, 0x00, 0x00, 0x8a, 0x2e, 0x03, 0x70, 0x73, 0x34])"
  using assms
  by (elim insertE) (simp_all add: value_parse_def re_ipv6_tests inet_pton6_tests value_parse_done_def)

subsection \<open>How bytes are rendered\<close>

lemma value_render_tests:
  assumes "b2hx_BE E = b2hx_ref" and "calloc_ok E (next_addr s)"
  shows "fst (value_render E [0xc0, 0xa8, 0x01, 0x01] 4 s) = Some ''0xc0a80101''"
    and "fst (value_render E [0x00, 0x11, 0xaa, 0xbb, 0xcc, 0xdd] 6 s) = Some ''0x0011aabbccdd''"
    and "fst (value_render E [0xff, 0xff] 2 s) = Some ''0xffff''"
proof -
  have "b2hx_ref [0xc0, 0xa8, 0x01, 0x01] = ''c0a80101''"
    "b2hx_ref [0x00, 0x11, 0xaa, 0xbb, 0xcc, 0xdd] = ''0011aabbccdd''"
    "b2hx_ref [0xff, 0xff] = ''ffff''"
    by code_simp+
  with assms show "fst (value_render E [0xc0, 0xa8, 0x01, 0x01] 4 s) = Some ''0xc0a80101''"
    "fst (value_render E [0x00, 0x11, 0xaa, 0xbb, 0xcc, 0xdd] 6 s) = Some ''0x0011aabbccdd''"
    "fst (value_render E [0xff, 0xff] 2 s) = Some ''0xffff''"
    by (simp_all add: value_render_def calloc_def)
qed

subsection \<open>Bytes longer than a number\<close>

lemma value_test_hex:
  assumes "hx2b_BE E ''0x0102030405060708090a0b0c0d0e'' 14 =
      (28, [0x01, 0x02, 0x03, 0x04, 0x05, 0x06, 0x07, 0x08, 0x09, 0x0a, 0x0b, 0x0c, 0x0d, 0x0e])"
  shows "value_parse E (Some ''0x0102030405060708090a0b0c0d0e'') 14 =
      Some (0, [0x01, 0x02, 0x03, 0x04, 0x05, 0x06, 0x07, 0x08, 0x09, 0x0a, 0x0b, 0x0c, 0x0d, 0x0e])"
proof -
  have "rx_match re_ipv6 ''0x0102030405060708090a0b0c0d0e'' = False"
    "rx_match re_hex ''0x0102030405060708090a0b0c0d0e'' = True"
    by code_simp+
  with assms show ?thesis by (simp add: value_parse_def)
qed

subsection \<open>The operations of src/test/op_test.c\<close>

text \<open>
  The compiled operations of the test, on its packets: a value or state at \<open>a\<close> holds the
  bytes given.
\<close>

abbreviation mac_dst_set :: field_set where
  "mac_dst_set \<equiv> \<lparr>fs_offt = 0, fs_len = 6, fs_mask = 0xff, fs_flags = 0\<rparr>"

abbreviation mac_src_set :: field_set where
  "mac_src_set \<equiv> \<lparr>fs_offt = 6, fs_len = 6, fs_mask = 0xff, fs_flags = 0\<rparr>"

abbreviation multi_set :: field_set where
  "multi_set \<equiv> \<lparr>fs_offt = 0, fs_len = 1, fs_mask = 0x10, fs_flags = 0\<rparr>"

lemmas op_eval = op_match_def op_write_def op_common_def op_pkt_offset_def read_at_def write_at_def

lemma op_test_nop:
  fixes a :: field_set
  assumes "fs_len a = 0"
  shows "op_match \<lparr>os_set_to = a, os_to = None, os_set_from = a, os_from = None\<rparr> [] 0 s = Some 0"
    and "op_write \<lparr>os_set_to = a, os_to = None, os_set_from = a, os_from = None\<rparr> [] 0 s = Some (0, [], s)"
  using assms by (simp_all add: op_eval)

lemma op_test_value_to_field:
  assumes "memref_heap s a = Some m" and "mr_bytes m = [0x0a, 0x00, 0x27, 0x00, 0x00, 0x00]"
  shows "op_write \<lparr>os_set_to = mac_dst_set, os_to = None, os_set_from = mac_dst_set, os_from = Some a\<rparr>
    [0, 0, 0, 0, 0, 0] 6 s = Some (0, [0x0a, 0x00, 0x27, 0x00, 0x00, 0x00], s)"
  using assms by (simp add: op_eval)

lemma op_test_match:
  assumes "memref_heap s a = Some m" and "mr_bytes m = [0x0a, 0x00, 0x27, 0x00, 0x01, 0x02]"
  shows "op_match \<lparr>os_set_to = mac_dst_set, os_to = None, os_set_from = mac_dst_set, os_from = Some a\<rparr>
    [0x0a, 0x00, 0x27, 0x00, 0x01, 0x02, 0, 0, 0, 0, 0, 0] 12 s = Some 0"
  using assms by (simp add: op_eval)

lemma op_test_field_to_field:
  "op_write \<lparr>os_set_to = mac_src_set, os_to = None, os_set_from = mac_dst_set, os_from = None\<rparr>
    [0x0a, 0x00, 0x27, 0x00, 0x01, 0x02, 0, 0, 0, 0, 0, 0] 12 s =
    Some (0, [0x0a, 0x00, 0x27, 0x00, 0x01, 0x02, 0x0a, 0x00, 0x27, 0x00, 0x01, 0x02], s)"
  by (simp add: op_eval)

lemma op_test_swap:
  assumes "memref_heap s a = Some m" and "length (mr_bytes m) = 6"
  shows "do { (r1, pkt, s) \<leftarrow> op_write \<lparr>os_set_to = mac_src_set, os_to = Some a, os_set_from = mac_src_set, os_from = None\<rparr>
                  [0x0a, 0x00, 0x27, 0x00, 0x01, 0x02, 1, 2, 3, 4, 5, 6] 12 s;
              (r2, pkt, s) \<leftarrow> op_write \<lparr>os_set_to = mac_src_set, os_to = None, os_set_from = mac_dst_set, os_from = None\<rparr> pkt 12 s;
              (r3, pkt, s) \<leftarrow> op_write \<lparr>os_set_to = mac_dst_set, os_to = None, os_set_from = mac_src_set, os_from = Some a\<rparr> pkt 12 s;
              Some ([r1, r2, r3], pkt) } =
    Some ([0, 0, 0], [1, 2, 3, 4, 5, 6, 0x0a, 0x00, 0x27, 0x00, 0x01, 0x02])"
proof -
  have z: "(- 256 :: u8) = 0" by code_simp
  show ?thesis using assms by (simp add: op_eval z)
qed

lemma op_test_flag:
  assumes "memref_heap s a = Some m" and "mr_bytes m = [0x00]"
    and "memref_heap s b = Some n" and "mr_bytes n = [0xff]"
  shows "op_match \<lparr>os_set_to = multi_set, os_to = None, os_set_from = multi_set, os_from = Some a\<rparr> [0x0a] 1 s = Some 0"
    and "op_write \<lparr>os_set_to = multi_set, os_to = None, os_set_from = multi_set, os_from = Some b\<rparr> [0x0a] 1 s =
      Some (0, [0x1a], s)"
  using assms by (simp_all add: op_eval)

subsection \<open>The fields of src/test/field_test.c\<close>

text \<open>What \<open>field_parse\<close> reads from a mapping, and the extent of the field it then makes.\<close>

definition field_test :: "(ynode \<times> ynode) list \<Rightarrow> (bool \<times> nat \<times> string option \<times> field_set) option" where
  "field_test mapping =
     do { (died, e, l) \<leftarrow> y_for_map field_parse_pair mapping 0
            \<lparr>lc_name = Some '''', lc_offt = 0, lc_len = 0, lc_mask = 0\<rparr>;
          Some (died, e, lc_name l, field_set_of (lc_offt l) (lc_len l) (lc_mask l)) }"

lemmas field_eval = field_test_def field_parse_pair_def field_set_of_def strtol_def strtoz_def
  scan_sign_def scan_base0_def digit_value_def isspace_def LONG_MAX_def LONG_MIN_def

lemma field_test_wildcard:
  "field_test [(YScalar ''field'', YScalar ''wildcard''), (YScalar ''offt'', YScalar ''0''),
     (YScalar ''len'', YScalar ''0''), (YScalar ''mask'', YScalar ''0xff'')] =
   Some (False, 0, Some ''wildcard'', \<lparr>fs_offt = 0, fs_len = 0, fs_mask = 0xff, fs_flags = 0\<rparr>)"
  "field_test [(YScalar ''field'', YScalar ''wildcard elided'')] =
   Some (False, 0, Some ''wildcard elided'', \<lparr>fs_offt = 0, fs_len = 0, fs_mask = 0xff, fs_flags = 0\<rparr>)"
  by (simp_all add: field_eval)

lemma field_test_ends:
  "field_test [(YScalar ''field'', YScalar ''length check''), (YScalar ''offt'', YScalar ''32'')] =
   Some (False, 0, Some ''length check'', \<lparr>fs_offt = 32, fs_len = 0, fs_mask = 0xff, fs_flags = 0\<rparr>)"
  "field_test [(YScalar ''field'', YScalar ''end match''), (YScalar ''offt'', YScalar ''-4''),
     (YScalar ''len'', YScalar ''4'')] =
   Some (False, 0, Some ''end match'', \<lparr>fs_offt = - 4, fs_len = 4, fs_mask = 0xff, fs_flags = 0\<rparr>)"
  by (simp_all add: field_eval)

lemma field_test_limits:
  "field_test [(YScalar ''field'', YScalar ''max positive''), (YScalar ''offt'', YScalar ''0x7fffffff''),
     (YScalar ''len'', YScalar ''0xffff''), (YScalar ''mask'', YScalar ''0xff'')] =
   Some (False, 0, Some ''max positive'',
     \<lparr>fs_offt = 0x7fffffff, fs_len = 0xffff, fs_mask = 0xff, fs_flags = 0\<rparr>)"
  "field_test [(YScalar ''field'', YScalar ''max negative''), (YScalar ''offt'', YScalar ''-2147483646''),
     (YScalar ''len'', YScalar ''1''), (YScalar ''mask'', YScalar ''1'')] =
   Some (False, 0, Some ''max negative'',
     \<lparr>fs_offt = - 2147483646, fs_len = 1, fs_mask = 1, fs_flags = 0\<rparr>)"
  by (simp_all add: field_eval)

end
