(* ===== verification/Spec2Isabelle.thy ===== *)
theory Spec2Isabelle
  imports Shutdown Tests
begin

text \<open>
  A model of xdpacket, a program that matches and mangles network packets as YAML
  documents tell it to.

  The program is a set of named resources that refer to each other and count the references:
  fields (where in a packet), memrefs (named states and literal values), operations (a
  comparison or a copy between two of these), rules (operations to match, then to write),
  interfaces (packet sockets), and processes (the rules that apply to the packets of an
  interface). The parser creates, deletes and prints them.

  The theories, each with the file it models:

  \<^item> \<open>Prelude\<close>: the machine and its memory: addresses, \<open>calloc\<close>, byte order, reference counts
    (include/refcnt.h), and the functions of nonlibc that the code relies on, as the fields of
    a record \<open>env\<close>;
  \<^item> \<open>Judy\<close>: include/judyutils.h, the arrays, queues and the two loop macros; the contracts
    \<open>symbol_table\<close>, \<open>registry\<close> and \<open>fifo\<close> that the other components rely on;
  \<^item> \<open>Clib\<close>, \<open>Textlib\<close>, \<open>Regcomp\<close>: what the program uses of libc: \<open>strtol\<close>, \<open>printf\<close> of numbers,
    regular expressions and their compilation, \<open>inet_pton\<close>, \<open>sscanf\<close>;
  \<^item> \<open>Yaml\<close>: include/yamlutils.h and src/yamlutils.c;
  \<^item> \<open>Field\<close>: src/field.c; \<open>Value\<close>: src/value.c; \<open>Memref\<close>: src/memref.c;
  \<^item> \<open>Operations\<close>: src/operations.c, with the meaning of a compiled operation on a packet;
  \<^item> \<open>Ownership\<close>, \<open>Lifecycle\<close>: the invariant of fields, memrefs and operations together, that
    every reference count is the number of references, and that making and freeing an
    operation keeps it;
  \<^item> \<open>Rule\<close>, \<open>Ruleset\<close>: src/rule.c, the invariant that every operation belongs to one rule,
    and what parsing, printing and freeing rules does to it;
  \<^item> \<open>Checksums\<close>: src/checksums.c, against the sum of RFC 1071;
  \<^item> \<open>Iface\<close>, \<open>Ifaces\<close>: src/iface.c, and the invariant that every interface owns one open
    socket; the operating system and the epoll tracker are the record \<open>os\<close>, the sockets'
    history is part of the state;
  \<^item> \<open>Process\<close>: src/rout.c and src/process.c;
  \<^item> \<open>Routs\<close>, \<open>Processes\<close>: the invariant of the whole configuration, that the reference counts
    of rules and interfaces are the numbers of routs and processes that refer to them, and
    what making and freeing routs and processes and parsing them does to it;
  \<^item> \<open>Datapath\<close>: a packet, from \<open>iface_callback\<close> to \<open>send\<close>: it keeps the invariant, and the first
    rule that matches is applied;
  \<^item> \<open>Commands\<close>: every command of every component keeps the invariant of the whole
    configuration: the contract \<open>command\<close>, which the four parsers meet and which is all that
    the walk over a document relies on;
  \<^item> \<open>Parse\<close>: src/parse2.c, the reading of documents from connections and the walk over a
    document; libyaml, \<open>read\<close> and \<open>write\<close> are the record \<open>client\<close>;
  \<^item> \<open>Documents\<close>, \<open>Connections\<close>: what a whole document does to the configuration, and what a
    connection makes of the bytes that arrive;
  \<^item> \<open>Xdpacket\<close>: src/xdpacket.c, the start, the events of the main loop and the end of the program;
  \<^item> \<open>Network\<close>: the invariant of the connections, that each owns its descriptors and is
    registered; \<open>Runs\<close>: the program as a relation of steps, and that all that it reaches is sound;
    \<open>Shutdown\<close>: that the end frees everything;
  \<^item> \<open>Tests\<close>: the vectors of test/value_test.c, test/field_test.c and test/op_test.c, which
    the model meets.

  The state of the program is a record that grows with the components: \<open>heap_state\<close>,
  \<open>field_state\<close>, \<open>memref_state\<close>, \<open>op_state\<close>, \<open>rule_state\<close>, \<open>iface_state\<close>, \<open>process_state\<close>,
  \<open>xdp_state\<close>. Each adds the heap of its objects
  and its table of names. A pointer is an address option; a function that would read freed
  memory, dereference NULL or run past the end of an object returns \<open>None\<close>, so that a result
  \<open>Some\<close> of a property also says that there is no undefined behaviour. Failures the code
  reports are values: a NULL result, a count of errors.

  Memory requests are numbered, and the environment says which of them are granted; a run is
  granted at most \<open>2 ^ 30\<close>, which is what keeps the 32-bit reference counts from wrapping. The
  copies that nonlibc's \<open>nstralloc\<close> makes of names and values are granted or refused by the
  environment too. \<open>nstralloc_spec\<close> is what is known of \<open>nstralloc\<close>, NULL included; \<open>copied\<close> says that
  it does not fail for one string, and \<open>env_ok\<close>, the hypothesis of the invariants of commands,
  documents and runs, that it fails for none. The code does not survive that failure: the object
  is given up before it has a name, and looked up by it (\<open>field_new_correct\<close>, \<open>iface_new_correct\<close>,
  \<open>memref_state_get_null\<close>, \<open>memref_value_new_null\<close>, \<open>rule_new_null\<close>).

  The input of a connection is modelled from \<open>read\<close> on: the buffer grows to at most
  \<open>PARSE_BUF_MAX\<close> bytes, and the loop that fills it ends because every full read uses up room
  (\<open>read_room\<close>). The properties of documents are about those that satisfy \<open>mapping_ok\<close>: the keys are
  scalars, no list has an empty mapping, the values of a field are scalars, the name of an
  interface that is added fits its buffer, and the interface finds memory for all of its
  parts or for none. On these the code does not read through NULL or a wrong pointer. The
  condition is sufficient and a little too strong: it also excludes a sequence under a key of a
  field that the parser does not know, which is harmless. \<open>mapping_plain\<close> are the documents that
  lose no object.

  Not modelled: a signal that arrives within a callback; messages printed for the user;
  failures of memory inside libyaml and Judy, and what Judy does with a NULL index, which counts
  as undefined (\<open>None\<close>); the sharing of descriptor numbers between
  connections and interfaces, whose histories are kept apart; that the tracker closes the
  listening sockets.
\<close>

end
